theory Spec2Isabelle
  imports Complex_Main "HOL-Library.Word"
begin

unbundle bit_operations_syntax

section \<open>Engine value types\<close>

text \<open>
  The vector and box types come from the engine's math library.  Coordinates are
  single or double precision in the source; here they are real numbers, so every
  statement below is about the arithmetic the source writes down, without rounding.
  \<open>FVector\<close> extends \<open>FVector2D\<close>, so that the conversion
  \<open>FVector2D(v)\<close> of the source is the projection to the first two fields.
\<close>

record FVector2D =
  X :: real
  Y :: real

record FVector = FVector2D +
  Z :: real

definition Vec2 :: "real \<Rightarrow> real \<Rightarrow> FVector2D" where
  "Vec2 x y = \<lparr>X = x, Y = y\<rparr>"

definition Vec3 :: "real \<Rightarrow> real \<Rightarrow> real \<Rightarrow> FVector" where
  "Vec3 x y z = \<lparr>X = x, Y = y, Z = z\<rparr>"

text \<open>\<open>FVector2D(const FVector&)\<close> and \<open>FVector(const FVector2D&, z)\<close>.\<close>

definition XY :: "FVector \<Rightarrow> FVector2D" where
  "XY v = Vec2 (X v) (Y v)"

definition Vec3of :: "FVector2D \<Rightarrow> real \<Rightarrow> FVector" where
  "Vec3of v z = Vec3 (X v) (Y v) z"

definition vadd :: "FVector \<Rightarrow> FVector \<Rightarrow> FVector" where
  "vadd a b = Vec3 (X a + X b) (Y a + Y b) (Z a + Z b)"

definition vmul :: "FVector \<Rightarrow> FVector \<Rightarrow> FVector" where
  "vmul a b = Vec3 (X a * X b) (Y a * Y b) (Z a * Z b)"

definition vadd2 :: "FVector2D \<Rightarrow> FVector2D \<Rightarrow> FVector2D" where
  "vadd2 a b = Vec2 (X a + X b) (Y a + Y b)"

definition vsub2 :: "FVector2D \<Rightarrow> FVector2D \<Rightarrow> FVector2D" where
  "vsub2 a b = Vec2 (X a - X b) (Y a - Y b)"

definition vmul2 :: "FVector2D \<Rightarrow> FVector2D \<Rightarrow> FVector2D" where
  "vmul2 a b = Vec2 (X a * X b) (Y a * Y b)"

definition vscale2 :: "FVector2D \<Rightarrow> real \<Rightarrow> FVector2D" where
  "vscale2 a s = Vec2 (X a * s) (Y a * s)"

text \<open>
  \<open>FBox\<close>: two corners and the validity byte.  The constructor from two corners
  marks the box valid; \<open>FBox(ForceInit)\<close> is the zero box, marked invalid.
\<close>

record FBox =
  BoxMin :: FVector
  BoxMax :: FVector
  IsValid :: bool

definition Box :: "FVector \<Rightarrow> FVector \<Rightarrow> FBox" where
  "Box lo hi = \<lparr>BoxMin = lo, BoxMax = hi, IsValid = True\<rparr>"

definition FBox_ForceInit :: FBox where
  "FBox_ForceInit = \<lparr>BoxMin = Vec3 0 0 0, BoxMax = Vec3 0 0 0, IsValid = False\<rparr>"

definition GetCenter :: "FBox \<Rightarrow> FVector" where
  "GetCenter b = Vec3 ((X (BoxMin b) + X (BoxMax b)) * 0.5)
                      ((Y (BoxMin b) + Y (BoxMax b)) * 0.5)
                      ((Z (BoxMin b) + Z (BoxMax b)) * 0.5)"

definition GetExtent :: "FBox \<Rightarrow> FVector" where
  "GetExtent b = Vec3 (0.5 * (X (BoxMax b) - X (BoxMin b)))
                      (0.5 * (Y (BoxMax b) - Y (BoxMin b)))
                      (0.5 * (Z (BoxMax b) - Z (BoxMin b)))"

definition GetSize :: "FBox \<Rightarrow> FVector" where
  "GetSize b = Vec3 (X (BoxMax b) - X (BoxMin b))
                    (Y (BoxMax b) - Y (BoxMin b))
                    (Z (BoxMax b) - Z (BoxMin b))"

text \<open>\<open>FBox::IntersectXY\<close>: closed overlap test in the XY plane.\<close>

definition IntersectXY :: "FBox \<Rightarrow> FBox \<Rightarrow> bool" where
  "IntersectXY a b =
     (if X (BoxMin a) > X (BoxMax b) \<or> X (BoxMin b) > X (BoxMax a) then False
      else if Y (BoxMin a) > Y (BoxMax b) \<or> Y (BoxMin b) > Y (BoxMax a) then False
      else True)"

record FBox2D =
  Min2D :: FVector2D
  Max2D :: FVector2D
  bIsValid :: bool

definition Box2D :: "FVector2D \<Rightarrow> FVector2D \<Rightarrow> FBox2D" where
  "Box2D lo hi = \<lparr>Min2D = lo, Max2D = hi, bIsValid = True\<rparr>"

definition GetArea :: "FBox2D \<Rightarrow> real" where
  "GetArea b = (X (Max2D b) - X (Min2D b)) * (Y (Max2D b) - Y (Min2D b))"

definition IsInsideOrOn :: "FBox2D \<Rightarrow> FVector2D \<Rightarrow> bool" where
  "IsInsideOrOn b p =
     (X p \<ge> X (Min2D b) \<and> X p \<le> X (Max2D b) \<and> Y p \<ge> Y (Min2D b) \<and> Y p \<le> Y (Max2D b))"

definition ComputeSquaredDistanceToPoint :: "FBox2D \<Rightarrow> FVector2D \<Rightarrow> real" where
  "ComputeSquaredDistanceToPoint b p =
     (let dx = (if X p < X (Min2D b) then X p - X (Min2D b)
                else if X p > X (Max2D b) then X p - X (Max2D b) else 0);
          dy = (if Y p < Y (Min2D b) then Y p - Y (Min2D b)
                else if Y p > Y (Max2D b) then Y p - Y (Max2D b) else 0)
      in dx * dx + dy * dy)"

section \<open>The node store\<close>

text \<open>
  A material is a pointer in the source; \<open>None\<close> is the null pointer.  The
  selection and hit-proxy members of the render data play no part in the quadtree
  logic and are left out.
\<close>

type_synonym material = nat

record FQuadMeshRenderData =
  Material :: "material option"
  SurfaceBaseHeight :: real
  MaterialIndex :: int

record FNode =
  Bounds :: FBox
  Children :: "nat list"
  ParentIndex :: nat
  QuadMeshIndex :: nat
  TransitionQuadMeshIndex :: nat
  HasCompleteSubtree :: bool
  IsSubtreeSameQuadMesh :: bool
  HasMaterial :: bool

text \<open>
  \<open>Nodes\<close> is the arena, \<open>NodesMax\<close> its allocated capacity
  (\<open>TArray::Max()\<close>).
\<close>

record FNodeData =
  Nodes :: "FNode list"
  NodesMax :: nat
  QuadMeshRenderData :: "FQuadMeshRenderData list"

datatype error = IndexOutOfRange | CheckFailed | ArenaOverflow | FloatToIntOutOfRange

section \<open>Instance emission\<close>

text \<open>
  The traversal description.  The frustum is an engine object; only its
  \<open>IntersectBox(center, extent)\<close> test is used, so it is a predicate here.
  \<open>LODDistance\<close> stands for \<open>GetLODDistance(level, LODScale)\<close>,
  whose declaration is not part of the sources at hand: it is a parameter of the traversal.
\<close>

record FTraversalDesc =
  FrustumIntersectBox :: "FVector \<Rightarrow> FVector \<Rightarrow> bool"
  ObserverPosition :: FVector
  LODDistance :: "int \<Rightarrow> real"
  LowestLOD :: int
  ForceCollapseDensityLevel :: int
  DensityCount :: int
  PreViewTranslation :: FVector
  bLODMorphingEnabled :: bool
  HeightMorph :: real
  TessellatedQuadMeshBounds :: FBox2D

text \<open>
  One staged instance: \<open>Data[0]\<close> is position, translated base height and the
  bit pattern of the node's quad mesh index; \<open>Data[1]\<close> is the packed
  LOD/morph word, the height morph and the XY scale.  The two bit-cast channels are
  kept as 32-bit words.
\<close>

record FStagingInstanceData =
  BucketIndex :: int
  Data0X :: real
  Data0Y :: real
  Data0Z :: real
  Data0W :: "32 word"
  Data1X :: "32 word"
  Data1Y :: real
  Data1Z :: real
  Data1W :: real

record FTraversalOutput =
  BucketInstanceCounts :: "int list"
  StagingInstanceData :: "FStagingInstanceData list"
  InstanceCount :: int

definition CanRender :: "FNode \<Rightarrow> int \<Rightarrow> int \<Rightarrow> FQuadMeshRenderData \<Rightarrow> bool" where
  "CanRender n InDensityLevel InForceCollapseDensityLevel InQuadMeshRenderData =
     (Material InQuadMeshRenderData \<noteq> None \<and> IsSubtreeSameQuadMesh n \<and>
      (InDensityLevel > InForceCollapseDensityLevel \<or> HasCompleteSubtree n))"

text \<open>
  \<open>AddNodeForRender\<close>.  The two leading constants are the source's
  \<open>constexpr\<close> locals.  Indexing \<open>BucketInstanceCounts\<close> out of range is the
  array's range check failing.
\<close>

definition AddNodeForRender ::
  "FNode \<Rightarrow> FQuadMeshRenderData \<Rightarrow> int \<Rightarrow> int \<Rightarrow> FTraversalDesc \<Rightarrow> FTraversalOutput
     \<Rightarrow> error + FTraversalOutput" where
  "AddNodeForRender n InQuadMeshRenderData InDensityLevel InLODLevel d out =
     (let MaterialIndex_c = (0 :: int);
          NodeQuadMeshIndex = (2 :: 32 word);
          BaseHeight = SurfaceBaseHeight InQuadMeshRenderData;
          BaseHeightTWS = BaseHeight + Z (PreViewTranslation d);
          DensityIndex = min InDensityLevel (DensityCount d - 1);
          BucketIdx = MaterialIndex_c * DensityCount d + DensityIndex
      in if BucketIdx < 0 \<or> BucketIdx \<ge> int (length (BucketInstanceCounts out))
         then Inl IndexOutOfRange
         else
           let counts = (BucketInstanceCounts out)
                          [nat BucketIdx := BucketInstanceCounts out ! nat BucketIdx + 1];
               TranslatedWorldPosition = vadd (GetCenter (Bounds n)) (PreViewTranslation d);
               Scale = XY (GetSize (Bounds n));
               bIsLowestLOD = (InLODLevel = LowestLOD d);
               bShouldMorph = (if bLODMorphingEnabled d \<and> DensityIndex \<noteq> DensityCount d - 1
                               then 1 else 0 :: 32 word);
               bCanMorphTwice = (if DensityIndex < DensityCount d - 2 then 1 else 0 :: 32 word);
               BitPackedChannel = ((word_of_int InLODLevel AND 0xFF) OR push_bit 8 bShouldMorph
                                    OR push_bit 9 bCanMorphTwice);
               StagingData = \<lparr>BucketIndex = BucketIdx,
                              Data0X = X TranslatedWorldPosition,
                              Data0Y = Y TranslatedWorldPosition,
                              Data0Z = BaseHeightTWS,
                              Data0W = NodeQuadMeshIndex,
                              Data1X = BitPackedChannel,
                              Data1Y = (if bIsLowestLOD then HeightMorph d else 0),
                              Data1Z = X Scale,
                              Data1W = Y Scale\<rparr>
           in Inr (out\<lparr>BucketInstanceCounts := counts,
                        StagingInstanceData := StagingInstanceData out @ [StagingData],
                        InstanceCount := InstanceCount out + 1\<rparr>))"

section \<open>The tree and its initialisation\<close>

record FMeshQuadTree =
  NodeData :: FNodeData
  QuadMeshMaterials :: "material list"
  TileRegion :: FBox2D
  TreeDepth :: nat
  bIsReadOnly :: bool
  MaxLeafCount :: int
  LeafSize :: real
  ExtentInTiles :: "int \<times> int"

text \<open>
  \<open>INVALID_PARENT\<close> is declared in the class header, which is not part of the
  sources at hand.  It marks "no parent" and is never a valid arena index; the value
  here is the largest 28-bit number, the width of the parent index in the engine class
  this tree derives from.
\<close>

definition INVALID_PARENT :: nat where
  "INVALID_PARENT = 268435455"

text \<open>
  Modelled from the spec: the default-constructed node (\<open>Nodes.Emplace()\<close>); the
  constructor is declared in the class header, which is not part of the sources at hand.
  Child slots hold 0 ("no such node"), the render-data index is 0 (the sentinel entry
  "pointed to by all newly created nodes"), the parent is \<open>INVALID_PARENT\<close> (the
  insertion reads the root's parent as the "no previous child" mark), and the flags are
  those of a leaf without material.
\<close>

definition FNode_default :: FNode where
  "FNode_default =
     \<lparr>Bounds = FBox_ForceInit, Children = [0, 0, 0, 0], ParentIndex = INVALID_PARENT,
      QuadMeshIndex = 0, TransitionQuadMeshIndex = 0, HasCompleteSubtree = True,
      IsSubtreeSameQuadMesh = True, HasMaterial = False\<rparr>"

definition FQuadMeshRenderData_default :: FQuadMeshRenderData where
  "FQuadMeshRenderData_default = \<lparr>Material = None, SurfaceBaseHeight = 0, MaterialIndex = -1\<rparr>"

text \<open>
  32-bit signed arithmetic: the result of an \<open>int32\<close> operation, wrapped into
  range.  \<open>float_max\<close> is \<open>TNumericLimits<float>::Max()\<close>, and
  \<open>Lowest()\<close> is its negation.
\<close>

definition wrap32 :: "int \<Rightarrow> int" where
  "wrap32 v = (v + 2147483648) mod 4294967296 - 2147483648"

definition float_max :: real where
  "float_max = 340282346638528859811704183484516925440"

text \<open>
  Engine helpers.  \<open>CeilLogTwo n\<close> is the smallest \<open>k\<close> with \<open>n \<le> 2 ^ k\<close> (for a
  32-bit argument), \<open>RoundUpToPowerOfTwo n = 1 << CeilLogTwo n\<close>.
\<close>

definition CeilLogTwo :: "nat \<Rightarrow> nat" where
  "CeilLogTwo n = length (takeWhile (\<lambda>k. 2 ^ k < n) [0..<32])"

definition RoundUpToPowerOfTwo :: "nat \<Rightarrow> nat" where
  "RoundUpToPowerOfTwo n = 2 ^ CeilLogTwo n"

text \<open>
  Single-precision arithmetic.  A float is the real number it holds, and elsewhere an
  operation on floats is the operation on reals.  Where a float is converted to an
  integer the rounding decides the result, so there every operation rounds:
  \<open>f32 x\<close> is the float nearest to \<open>x\<close>, with a significand of 24 bits and ties
  to the even significand (the exponent range is not limited: \<open>InitTree\<close> stays
  far inside it).  \<open>FloatToInt32\<close> is the conversion of a float to \<open>int32\<close>: it
  truncates, and it is undefined when the truncated value is no \<open>int32\<close>, which is
  the error \<open>FloatToIntOutOfRange\<close>.  \<open>FMath::Log2\<close> on a float is the engine's
  \<open>Loge(Value) * 1.4426950f\<close>, where \<open>Loge\<close> is the C library's \<open>logf\<close>,
  taken here to round its result correctly.
\<close>

definition RoundTiesToEven :: "real \<Rightarrow> int" where
  "RoundTiesToEven y =
     (let f = \<lfloor>y\<rfloor>; r = y - of_int f
      in if r < 1 / 2 then f else if 1 / 2 < r then f + 1 else if even f then f else f + 1)"

definition f32 :: "real \<Rightarrow> real" where
  "f32 x = (if x = 0 then 0
            else let u = 2 powr (of_int \<lfloor>log 2 \<bar>x\<bar>\<rfloor> - 23)
                 in of_int (RoundTiesToEven (x / u)) * u)"

definition FloatToInt32 :: "real \<Rightarrow> error + int" where
  "FloatToInt32 x =
     (if - 2147483649 < x \<and> x < 2147483648 then Inr (if 0 \<le> x then \<lfloor>x\<rfloor> else \<lceil>x\<rceil>)
      else Inl FloatToIntOutOfRange)"

definition LogToLog2 :: real where
  "LogToLog2 = f32 (14426950 / 10000000)"

definition FMath_Loge :: "real \<Rightarrow> real" where
  "FMath_Loge x = f32 (ln x)"

definition FMath_Log2 :: "real \<Rightarrow> real" where
  "FMath_Log2 x = f32 (FMath_Loge x * LogToLog2)"

text \<open>
  \<open>InitTree\<close>.  The four \<open>ensure\<close> lines report and continue, so they are
  no branch of the model.  \<open>RootDim\<close> is a float: the power of two converted from
  \<open>uint32\<close>.  The arena is emptied with room for \<open>Square(RootDim) * 4 / 3.0f\<close>
  nodes, a float expression converted to the \<open>int32\<close> argument of
  \<open>TArray::Empty\<close>; the render data is reset to the one sentinel entry, and the root
  is emplaced at slot 0.  \<open>TreeDepth\<close> is the float \<open>FMath::Log2(RootDim)\<close>
  converted to \<open>int32\<close>; it is never negative, so it is kept as a natural number.
  The product \<open>RootDim * InTileSize\<close> of a float with a power of two is exact.
\<close>

definition InitTree :: "FMeshQuadTree \<Rightarrow> FBox2D \<Rightarrow> real \<Rightarrow> int \<times> int \<Rightarrow> error + FMeshQuadTree" where
  "InitTree t InBounds InTileSize InExtentInTiles =
     (let ex = fst InExtentInTiles; ey = snd InExtentInTiles;
          MaxDim = max (wrap32 (ex * 2)) (wrap32 (ey * 2));
          RootDim = f32 (real (RoundUpToPowerOfTwo (nat (MaxDim mod 4294967296))));
          RootWorldSize = RootDim * InTileSize;
          root = FNode_default\<lparr>Bounds :=
                   Box (Vec3of (Min2D InBounds) float_max)
                       (Vec3of (vadd2 (Min2D InBounds) (Vec2 RootWorldSize RootWorldSize))
                               (- float_max))\<rparr>
      in case FloatToInt32 (f32 (f32 (f32 (RootDim * RootDim) * 4) / 3)) of
           Inl e \<Rightarrow> Inl e
         | Inr Slack \<Rightarrow>
             (case FloatToInt32 (FMath_Log2 RootDim) of
                Inl e \<Rightarrow> Inl e
              | Inr Depth \<Rightarrow>
                  Inr (t\<lparr>MaxLeafCount := wrap32 (wrap32 (ex * ey) * 4),
                         LeafSize := InTileSize,
                         ExtentInTiles := InExtentInTiles,
                         TileRegion := InBounds,
                         NodeData := \<lparr>Nodes = [root],
                                      NodesMax = nat Slack,
                                      QuadMeshRenderData = [FQuadMeshRenderData_default]\<rparr>,
                         TreeDepth := nat Depth,
                         bIsReadOnly := False\<rparr>)))"

section \<open>Insertion\<close>

text \<open>
  Modelled from the spec: \<open>AddQuadtreeMeshRenderData\<close>, declared in the class
  header, which is not part of the sources at hand: it appends a render-data record and
  returns its index, "used for subsequent region insertion".
\<close>

definition AddQuadtreeMeshRenderData ::
  "FMeshQuadTree \<Rightarrow> FQuadMeshRenderData \<Rightarrow> nat \<times> FMeshQuadTree" where
  "AddQuadtreeMeshRenderData t rd =
     (length (QuadMeshRenderData (NodeData t)),
      t\<lparr>NodeData := (NodeData t)\<lparr>QuadMeshRenderData := QuadMeshRenderData (NodeData t) @ [rd]\<rparr>\<rparr>)"

text \<open>
  Modelled from the spec: \<open>CanMerge\<close>, declared in the class header, which is not
  part of the sources at hand: a comparison "limited to the identity-defining attributes",
  the render-data index (current and transition) and the material-bearing status.
\<close>

definition CanMerge :: "FNode \<Rightarrow> FNode \<Rightarrow> bool" where
  "CanMerge a b =
     (QuadMeshIndex b = QuadMeshIndex a \<and> TransitionQuadMeshIndex b = TransitionQuadMeshIndex a \<and>
      HasMaterial b = HasMaterial a)"

definition HalfOffsets :: "FVector2D list" where
  "HalfOffsets = [Vec2 0 0, Vec2 1 0, Vec2 0 1, Vec2 1 1]"

text \<open>
  \<open>AddNodes\<close> runs on the arena node with index \<open>self\<close>; every call of the
  source passes that same index as \<open>InParentIndex\<close>.  The first part, up to the leaf
  test: widen the Z bounds, assign the identity, cache the material flag (reading the
  render-data table, range checked), and set both flags.
\<close>

definition AddNodes_visit :: "FBox \<Rightarrow> nat \<Rightarrow> nat \<Rightarrow> FNodeData \<Rightarrow> error + FNodeData" where
  "AddNodes_visit InQuadMeshBounds InQuadMeshIndex self nd =
     (let n = Nodes nd ! self;
          b = Bounds n;
          b1 = b\<lparr>BoxMax := (BoxMax b)\<lparr>Z := max (Z (BoxMax b)) (Z (BoxMax InQuadMeshBounds))\<rparr>\<rparr>;
          b2 = b1\<lparr>BoxMin := (BoxMin b1)\<lparr>Z := min (Z (BoxMin b1)) (Z (BoxMin InQuadMeshBounds))\<rparr>\<rparr>
      in if InQuadMeshIndex \<ge> length (QuadMeshRenderData nd) then Inl IndexOutOfRange
         else Inr (nd\<lparr>Nodes := (Nodes nd)[self :=
                 n\<lparr>Bounds := b2,
                   TransitionQuadMeshIndex := InQuadMeshIndex mod 65536,
                   QuadMeshIndex := InQuadMeshIndex,
                   HasMaterial := (Material (QuadMeshRenderData nd ! InQuadMeshIndex) \<noteq> None),
                   IsSubtreeSameQuadMesh := True,
                   HasCompleteSubtree := True\<rparr>]\<rparr>))"

text \<open>
  The box of a child that is about to be created in slot \<open>i\<close>: the quadrant of
  this node's XY box, with the Z range of the inserted region.
\<close>

definition AddNodes_ChildBounds :: "FBox \<Rightarrow> FVector2D \<Rightarrow> FBox \<Rightarrow> nat \<Rightarrow> FBox" where
  "AddNodes_ChildBounds b HalfBoundSize InQuadMeshBounds i =
     (let ChildMin = Vec3of (vadd2 (XY (BoxMin b)) (vmul2 HalfBoundSize (HalfOffsets ! i)))
                            (Z (BoxMin InQuadMeshBounds));
          ChildMax = Vec3of (vadd2 (XY ChildMin) HalfBoundSize) (Z (BoxMax InQuadMeshBounds))
      in Box ChildMin ChildMax)"

text \<open>
  The first half of the loop body for child slot \<open>i\<close>: recurse into a live child
  whose box meets the inserted region, or create the child when its box meets both the
  region and the mesh bounds.  \<open>rec\<close> is the recursive call one level down.  The
  capacity check before \<open>Emplace\<close> is the branch \<open>ArenaOverflow\<close>.
\<close>

definition AddNodes_child ::
  "(nat \<Rightarrow> FNodeData \<Rightarrow> error + FNodeData) \<Rightarrow> FBox \<Rightarrow> FBox \<Rightarrow> nat \<Rightarrow> FVector2D \<Rightarrow> nat
     \<Rightarrow> FNodeData \<Rightarrow> error + FNodeData" where
  "AddNodes_child rec InMeshBounds InQuadMeshBounds self HalfBoundSize i nd =
     (let n = Nodes nd ! self; c = Children n ! i
      in if c > 0 then
           (if c \<ge> length (Nodes nd) then Inl IndexOutOfRange
            else if IntersectXY (Bounds (Nodes nd ! c)) InQuadMeshBounds then rec c nd
            else Inr nd)
         else
           let ChildBounds = AddNodes_ChildBounds (Bounds n) HalfBoundSize InQuadMeshBounds i
           in if IntersectXY ChildBounds InQuadMeshBounds \<and> IntersectXY ChildBounds InMeshBounds then
                (if \<not> length (Nodes nd) < NodesMax nd then Inl ArenaOverflow
                 else
                   let new = length (Nodes nd);
                       nodes1 = Nodes nd @ [FNode_default];
                       nodes2 = nodes1[self := (nodes1 ! self)\<lparr>Children := (Children (nodes1 ! self))[i := new]\<rparr>];
                       nodes3 = nodes2[new := (nodes2 ! new)\<lparr>Bounds := ChildBounds\<rparr>];
                       nodes4 = nodes3[new := (nodes3 ! new)\<lparr>ParentIndex := self\<rparr>]
                   in rec new (nd\<lparr>Nodes := nodes4\<rparr>))
              else Inr nd)"

text \<open>
  The second half of the loop body: fold the child's flags into this node's.  The state
  is the arena and the copy \<open>PrevChildNode\<close>.  \<open>ChildNode\<close> is a reference
  into the arena, so it is read again after each write.
\<close>

definition AddNodes_merge :: "nat \<Rightarrow> nat \<Rightarrow> FNode list \<times> FNode \<Rightarrow> FNode list \<times> FNode" where
  "AddNodes_merge self i st =
     (let nodes = fst st; PrevChildNode = snd st; c = Children (nodes ! self) ! i
      in if c > 0 then
           let Prev1 = (if ParentIndex PrevChildNode = INVALID_PARENT then nodes ! c else PrevChildNode);
               nodes1 = (if \<not> IsSubtreeSameQuadMesh (nodes ! c) \<or> \<not> CanMerge (nodes ! c) Prev1
                         then nodes[self := (nodes ! self)\<lparr>IsSubtreeSameQuadMesh := False\<rparr>]
                         else nodes);
               Prev2 = nodes1 ! c;
               nodes2 = (if \<not> HasCompleteSubtree (nodes1 ! c)
                         then nodes1[self := (nodes1 ! self)\<lparr>HasCompleteSubtree := False\<rparr>]
                         else nodes1)
           in (nodes2, Prev2)
         else (nodes[self := (nodes ! self)\<lparr>HasCompleteSubtree := False\<rparr>], PrevChildNode))"

fun AddNodes_children ::
  "(nat \<Rightarrow> FNodeData \<Rightarrow> error + FNodeData) \<Rightarrow> FBox \<Rightarrow> FBox \<Rightarrow> nat \<Rightarrow> FVector2D \<Rightarrow> nat list
     \<Rightarrow> FNodeData \<times> FNode \<Rightarrow> error + FNodeData \<times> FNode" where
  "AddNodes_children rec InMeshBounds InQuadMeshBounds self HalfBoundSize [] st = Inr st"
| "AddNodes_children rec InMeshBounds InQuadMeshBounds self HalfBoundSize (i # rest) st =
     (case AddNodes_child rec InMeshBounds InQuadMeshBounds self HalfBoundSize i (fst st) of
        Inl e \<Rightarrow> Inl e
      | Inr nd1 \<Rightarrow>
          (let m = AddNodes_merge self i (Nodes nd1, snd st)
           in AddNodes_children rec InMeshBounds InQuadMeshBounds self HalfBoundSize rest
                (nd1\<lparr>Nodes := fst m\<rparr>, snd m)))"

text \<open>
  \<open>AddNodes\<close>, by recursion on the level \<open>InLODLevel\<close>, which the source counts
  down to the leaf level 0.
\<close>

primrec AddNodes :: "nat \<Rightarrow> FBox \<Rightarrow> FBox \<Rightarrow> nat \<Rightarrow> nat \<Rightarrow> FNodeData \<Rightarrow> error + FNodeData" where
  "AddNodes 0 InMeshBounds InQuadMeshBounds InQuadMeshIndex self nd =
     AddNodes_visit InQuadMeshBounds InQuadMeshIndex self nd"
| "AddNodes (Suc InLODLevel) InMeshBounds InQuadMeshBounds InQuadMeshIndex self nd =
     (case AddNodes_visit InQuadMeshBounds InQuadMeshIndex self nd of
        Inl e \<Rightarrow> Inl e
      | Inr nd1 \<Rightarrow>
          (let HalfBoundSize = vscale2 (XY (GetSize (Bounds (Nodes nd1 ! self)))) 0.5;
               PrevChildNode = Nodes nd1 ! 0
           in case AddNodes_children (AddNodes InLODLevel InMeshBounds InQuadMeshBounds InQuadMeshIndex)
                     InMeshBounds InQuadMeshBounds self HalfBoundSize [0, 1, 2, 3]
                     (nd1, PrevChildNode) of
                Inl e \<Rightarrow> Inl e
              | Inr st \<Rightarrow> Inr (fst st)))"

definition AddQuadMeshTilesInsideBounds :: "FMeshQuadTree \<Rightarrow> FBox \<Rightarrow> nat \<Rightarrow> error + FMeshQuadTree" where
  "AddQuadMeshTilesInsideBounds t InBounds InWaterBodyIndex =
     (if bIsReadOnly t then Inl CheckFailed
      else if Nodes (NodeData t) = [] then Inl IndexOutOfRange
      else case AddNodes (TreeDepth t)
                  (Box (Vec3of (Min2D (TileRegion t)) 0) (Vec3of (Max2D (TileRegion t)) 0))
                  InBounds InWaterBodyIndex 0 (NodeData t) of
             Inl e \<Rightarrow> Inl e
           | Inr nd \<Rightarrow> Inr (t\<lparr>NodeData := nd\<rparr>))"

section \<open>Locking and pruning\<close>

text \<open>
  The patch loop of the \<open>SwapRemove\<close> lambda.  \<open>MovedNode\<close> is the arena
  entry at \<open>NodeIndex\<close>, \<open>MovedNodeParent\<close> the entry at \<open>pidx\<close>, the
  parent index the moved node held when the reference was taken.
\<close>

fun SwapRemove_patch :: "nat \<Rightarrow> nat \<Rightarrow> nat \<Rightarrow> nat list \<Rightarrow> FNode list \<Rightarrow> error + FNode list" where
  "SwapRemove_patch NodeIndex EndIndex pidx [] nodes = Inr nodes"
| "SwapRemove_patch NodeIndex EndIndex pidx (i # rest) nodes =
     (let c = Children (nodes ! NodeIndex) ! i
      in if c > 0 \<and> c \<ge> length nodes then Inl IndexOutOfRange
         else
           let nodes1 = (if c > 0 then nodes[c := (nodes ! c)\<lparr>ParentIndex := NodeIndex\<rparr>] else nodes);
               nodes2 = (if Children (nodes1 ! pidx) ! i = EndIndex
                         then nodes1[pidx := (nodes1 ! pidx)\<lparr>Children := (Children (nodes1 ! pidx))[i := NodeIndex]\<rparr>]
                         else nodes1)
           in SwapRemove_patch NodeIndex EndIndex pidx rest nodes2)"

definition SwapRemove :: "nat \<Rightarrow> nat \<Rightarrow> FNode list \<Rightarrow> error + FNode list" where
  "SwapRemove NodeIndex EndIndex nodes =
     (if NodeIndex \<noteq> EndIndex then
        (let nodes1 = nodes[NodeIndex := nodes ! EndIndex, EndIndex := nodes ! NodeIndex];
             pidx = ParentIndex (nodes1 ! NodeIndex)
         in if pidx \<ge> length nodes1 then Inl IndexOutOfRange
            else SwapRemove_patch NodeIndex EndIndex pidx [0, 1, 2, 3] nodes1)
      else Inr nodes)"

text \<open>
  Modelled from the spec: the member \<open>IsSubtreeSameWaterBody\<close> that the second
  removal rule reads is declared in the class header, which is not part of the sources at
  hand; the spec reads the rule as "the whole subtree shares one identity", the
  node's identity-uniformity flag.
\<close>

definition IsSubtreeSameWaterBody :: "FNode \<Rightarrow> bool" where
  "IsSubtreeSameWaterBody n = IsSubtreeSameQuadMesh n"

fun ClearChildSlots :: "nat \<Rightarrow> nat list \<Rightarrow> nat list" where
  "ClearChildSlots NodeIndex [] = []"
| "ClearChildSlots NodeIndex (c # cs) = (if c = NodeIndex then 0 else c) # ClearChildSlots NodeIndex cs"

text \<open>One iteration of the pruning loop, on the state of arena and \<open>EndIndex\<close>.\<close>

definition Unlock_step :: "nat \<Rightarrow> FNode list \<times> nat \<Rightarrow> error + FNode list \<times> nat" where
  "Unlock_step NodeIndex st =
     (let nodes = fst st; EndIndex = snd st; p = ParentIndex (nodes ! NodeIndex)
      in if p \<ge> length nodes then Inl IndexOutOfRange
         else if HasCompleteSubtree (nodes ! p) \<and> IsSubtreeSameQuadMesh (nodes ! p) then
           (case SwapRemove NodeIndex EndIndex (nodes[p := (nodes ! p)\<lparr>Children := [0, 0, 0, 0]\<rparr>]) of
              Inl e \<Rightarrow> Inl e
            | Inr nodes1 \<Rightarrow> Inr (nodes1, EndIndex - 1))
         else if \<not> HasMaterial (nodes ! NodeIndex) \<and> HasCompleteSubtree (nodes ! NodeIndex)
                   \<and> IsSubtreeSameWaterBody (nodes ! NodeIndex) then
           (case SwapRemove NodeIndex EndIndex
                   (nodes[p := (nodes ! p)\<lparr>Children := ClearChildSlots NodeIndex (Children (nodes ! p))\<rparr>]) of
              Inl e \<Rightarrow> Inl e
            | Inr nodes1 \<Rightarrow> Inr (nodes1, EndIndex - 1))
         else Inr (nodes, EndIndex))"

fun Unlock_loop :: "nat list \<Rightarrow> FNode list \<times> nat \<Rightarrow> error + FNode list \<times> nat" where
  "Unlock_loop [] st = Inr st"
| "Unlock_loop (NodeIndex # rest) st =
     (case Unlock_step NodeIndex st of Inl e \<Rightarrow> Inl e | Inr st1 \<Rightarrow> Unlock_loop rest st1)"

text \<open>
  \<open>Unlock\<close>.  The loop runs \<open>NodeIndex\<close> from the last index down to 1; on an
  empty arena it does not run and the arena stays empty.
\<close>

definition Unlock :: "FMeshQuadTree \<Rightarrow> bool \<Rightarrow> error + FMeshQuadTree" where
  "Unlock t bPruneRedundantNodes =
     (if bPruneRedundantNodes \<and> Nodes (NodeData t) \<noteq> [] then
        (let nodes = Nodes (NodeData t); EndIndex = length nodes - 1
         in case Unlock_loop (rev [1..<Suc EndIndex]) (nodes, EndIndex) of
              Inl e \<Rightarrow> Inl e
            | Inr st \<Rightarrow>
                Inr (t\<lparr>NodeData := (NodeData t)\<lparr>Nodes := take (snd st + 1) (fst st)\<rparr>,
                       bIsReadOnly := True\<rparr>))
      else Inr (t\<lparr>bIsReadOnly := True\<rparr>))"

section \<open>Point queries\<close>

text \<open>The inline containment test of both queries: min-inclusive, max-exclusive.\<close>

definition ContainsXY :: "FBox \<Rightarrow> FVector2D \<Rightarrow> bool" where
  "ContainsXY b p =
     (X p \<ge> X (BoxMin b) \<and> X p < X (BoxMax b) \<and> Y p \<ge> Y (BoxMin b) \<and> Y p < Y (BoxMax b))"

text \<open>
  The child loop of \<open>QueryBaseHeightAtLocation\<close>: the first live child whose box
  contains the point.  Reading the arena at a child index beyond its end is the array's
  range check failing.
\<close>

fun FindChildAt :: "FNode list \<Rightarrow> nat list \<Rightarrow> FVector2D \<Rightarrow> error + nat option" where
  "FindChildAt nodes [] p = Inr None"
| "FindChildAt nodes (c # cs) p =
     (if c > 0 then
        (if c \<ge> length nodes then Inl IndexOutOfRange
         else if ContainsXY (Bounds (nodes ! c)) p then Inr (Some c)
         else FindChildAt nodes cs p)
      else FindChildAt nodes cs p)"

definition BaseHeightOf :: "FNodeData \<Rightarrow> FNode \<Rightarrow> bool \<Rightarrow> error + bool \<times> real" where
  "BaseHeightOf nd n found =
     (if QuadMeshIndex n < length (QuadMeshRenderData nd)
      then Inr (found, SurfaceBaseHeight (QuadMeshRenderData nd ! QuadMeshIndex n))
      else Inl IndexOutOfRange)"

text \<open>
  \<open>QueryBaseHeightAtLocation\<close>, on the node \<open>n\<close>.  The result is the pair of the
  returned flag and the height written to the output; \<open>None\<close> is a descent that
  never returns.
\<close>

partial_function (option) QueryBaseHeightAtLocation ::
  "FNodeData \<Rightarrow> FNode \<Rightarrow> FVector2D \<Rightarrow> (error + bool \<times> real) option" where
  "QueryBaseHeightAtLocation nd n p =
     (if HasCompleteSubtree n \<and> IsSubtreeSameQuadMesh n then Some (BaseHeightOf nd n True)
      else case FindChildAt (Nodes nd) (Children n) p of
             Inl e \<Rightarrow> Some (Inl e)
           | Inr (Some c) \<Rightarrow> QueryBaseHeightAtLocation nd (Nodes nd ! c) p
           | Inr None \<Rightarrow> Some (BaseHeightOf nd n False))"

text \<open>
  The child loop of \<open>QueryBoundsAtLocation\<close>, which also counts the live children
  it has seen.
\<close>

fun FindChildCount :: "FNode list \<Rightarrow> nat list \<Rightarrow> FVector2D \<Rightarrow> nat \<Rightarrow> error + nat \<times> nat option" where
  "FindChildCount nodes [] p ChildCount = Inr (ChildCount, None)"
| "FindChildCount nodes (c # cs) p ChildCount =
     (if c > 0 then
        (if c \<ge> length nodes then Inl IndexOutOfRange
         else if ContainsXY (Bounds (nodes ! c)) p then Inr (ChildCount + 1, Some c)
         else FindChildCount nodes cs p (ChildCount + 1))
      else FindChildCount nodes cs p ChildCount)"

partial_function (option) QueryBoundsAtLocation ::
  "FNodeData \<Rightarrow> FNode \<Rightarrow> FVector2D \<Rightarrow> (error + bool \<times> FBox) option" where
  "QueryBoundsAtLocation nd n p =
     (case FindChildCount (Nodes nd) (Children n) p 0 of
        Inl e \<Rightarrow> Some (Inl e)
      | Inr (ChildCount, Some c) \<Rightarrow> QueryBoundsAtLocation nd (Nodes nd ! c) p
      | Inr (ChildCount, None) \<Rightarrow> Some (Inr (ChildCount = 0, Bounds n)))"

text \<open>
  Modelled from the spec: \<open>GetNodeCount\<close>, declared in the class header, which is
  not part of the sources at hand: the number of nodes in the arena.
\<close>

definition GetNodeCount :: "FMeshQuadTree \<Rightarrow> int" where
  "GetNodeCount t = int (length (Nodes (NodeData t)))"

definition QueryTileBaseHeightAtLocation ::
  "FMeshQuadTree \<Rightarrow> FVector2D \<Rightarrow> (error + bool \<times> real) option" where
  "QueryTileBaseHeightAtLocation t p =
     (if GetNodeCount t > 0 then
        (if \<not> bIsReadOnly t then Some (Inl CheckFailed)
         else QueryBaseHeightAtLocation (NodeData t) (Nodes (NodeData t) ! 0) p)
      else Some (Inr (False, 0)))"

definition QueryTileBoundsAtLocation ::
  "FMeshQuadTree \<Rightarrow> FVector2D \<Rightarrow> (error + bool \<times> FBox) option" where
  "QueryTileBoundsAtLocation t p =
     (if GetNodeCount t > 0 then
        (if \<not> bIsReadOnly t then Some (Inl CheckFailed)
         else QueryBoundsAtLocation (NodeData t) (Nodes (NodeData t) ! 0) p)
      else Some (Inr (False, FBox_ForceInit)))"

text \<open>A tree object on which \<open>InitTree\<close> has not run: every container is empty.\<close>

definition EmptyTree :: FMeshQuadTree where
  "EmptyTree =
     \<lparr>NodeData = \<lparr>Nodes = [], NodesMax = 0, QuadMeshRenderData = []\<rparr>,
      QuadMeshMaterials = [], TileRegion = Box2D (Vec2 0 0) (Vec2 0 0), TreeDepth = 0,
      bIsReadOnly = False, MaxLeafCount = 0, LeafSize = 0, ExtentInTiles = (0, 0)\<rparr>"

text \<open>
  \<open>QueryInterpolatedTileBaseHeightAtLocation\<close>.  \<open>Lerp\<close> and
  \<open>BiLerp\<close> are the engine's; \<open>GetLeafSize\<close> and \<open>GetTileRegion\<close>
  read the members of the same name.
\<close>

definition Lerp :: "real \<Rightarrow> real \<Rightarrow> real \<Rightarrow> real" where
  "Lerp a b alpha = a + alpha * (b - a)"

definition BiLerp :: "real \<Rightarrow> real \<Rightarrow> real \<Rightarrow> real \<Rightarrow> real \<Rightarrow> real \<Rightarrow> real" where
  "BiLerp P00 P10 P01 P11 FracX FracY = Lerp (Lerp P00 P10 FracX) (Lerp P01 P11 FracX) FracY"

text \<open>The sampling loop: the heights written so far and the number of valid samples.\<close>

fun SampleCorners ::
  "FMeshQuadTree \<Rightarrow> FVector2D list \<Rightarrow> real list \<times> int \<Rightarrow> (error + real list \<times> int) option" where
  "SampleCorners t [] st = Some (Inr st)"
| "SampleCorners t (c # cs) st =
     (case QueryTileBaseHeightAtLocation t c of
        None \<Rightarrow> None
      | Some (Inl e) \<Rightarrow> Some (Inl e)
      | Some (Inr r) \<Rightarrow>
          SampleCorners t cs (fst st @ [snd r], if fst r then snd st + 1 else snd st))"

definition CornerSampleWorldPositions :: "FMeshQuadTree \<Rightarrow> FVector2D \<Rightarrow> FVector2D list" where
  "CornerSampleWorldPositions t InWorldLocationXY =
     (let SampleGridWorldPosition =
            vsub2 (Min2D (TileRegion t)) (Vec2 (LeafSize t * 0.5) (LeafSize t * 0.5));
          CornerSampleGridPosition = vsub2 InWorldLocationXY SampleGridWorldPosition;
          NormalizedGridPosition =
            Vec2 (X CornerSampleGridPosition / LeafSize t) (Y CornerSampleGridPosition / LeafSize t);
          CornerSampleWorldPosition00 =
            vadd2 (vscale2 (Vec2 (real_of_int \<lfloor>X NormalizedGridPosition\<rfloor>)
                                 (real_of_int \<lfloor>Y NormalizedGridPosition\<rfloor>)) (LeafSize t))
                  SampleGridWorldPosition
      in [vadd2 CornerSampleWorldPosition00 (Vec2 0 0),
          vadd2 CornerSampleWorldPosition00 (Vec2 (LeafSize t) 0),
          vadd2 CornerSampleWorldPosition00 (Vec2 0 (LeafSize t)),
          vadd2 CornerSampleWorldPosition00 (Vec2 (LeafSize t) (LeafSize t))])"

definition QueryInterpolatedTileBaseHeightAtLocation ::
  "FMeshQuadTree \<Rightarrow> FVector2D \<Rightarrow> (error + bool \<times> real) option" where
  "QueryInterpolatedTileBaseHeightAtLocation t InWorldLocationXY =
     (let SampleGridWorldPosition =
            vsub2 (Min2D (TileRegion t)) (Vec2 (LeafSize t * 0.5) (LeafSize t * 0.5));
          CornerSampleGridPosition = vsub2 InWorldLocationXY SampleGridWorldPosition;
          NormalizedGridPosition =
            Vec2 (X CornerSampleGridPosition / LeafSize t) (Y CornerSampleGridPosition / LeafSize t)
      in case SampleCorners t (CornerSampleWorldPositions t InWorldLocationXY) ([], 0) of
           None \<Rightarrow> None
         | Some (Inl e) \<Rightarrow> Some (Inl e)
         | Some (Inr st) \<Rightarrow>
             Some (Inr (snd st = 4,
                        BiLerp (fst st ! 0) (fst st ! 1) (fst st ! 2) (fst st ! 3)
                               (frac (X NormalizedGridPosition)) (frac (Y NormalizedGridPosition)))))"

section \<open>Material buckets\<close>

text \<open>
  \<open>BuildMaterialIndices\<close>.  \<open>rp\<close> is \<open>GetRenderProxy\<close> of the material
  (\<open>None\<close> a null proxy, on which the \<open>check\<close> fails).  The map from proxy to
  index is an association list in insertion order, with \<open>NextIdx\<close> beside it.
\<close>

definition GetMatIdx ::
  "(material \<Rightarrow> nat option) \<Rightarrow> material option \<Rightarrow> (nat \<times> int) list \<times> int
     \<Rightarrow> error + int \<times> (nat \<times> int) list \<times> int" where
  "GetMatIdx rp m st =
     (case m of
        None \<Rightarrow> Inr (-1, st)
      | Some mat \<Rightarrow>
          (case rp mat of
             None \<Rightarrow> Inl CheckFailed
           | Some MaterialRenderProxy \<Rightarrow>
               (case map_of (fst st) MaterialRenderProxy of
                  Some Found \<Rightarrow> Inr (Found, st)
                | None \<Rightarrow> Inr (snd st, (fst st @ [(MaterialRenderProxy, snd st)], snd st + 1)))))"

fun AssignMaterialIndices ::
  "(material \<Rightarrow> nat option) \<Rightarrow> FQuadMeshRenderData list \<Rightarrow> (nat \<times> int) list \<times> int
     \<Rightarrow> error + FQuadMeshRenderData list \<times> (nat \<times> int) list \<times> int" where
  "AssignMaterialIndices rp [] st = Inr ([], st)"
| "AssignMaterialIndices rp (Data # rest) st =
     (case GetMatIdx rp (Material Data) st of
        Inl e \<Rightarrow> Inl e
      | Inr r \<Rightarrow>
          (case AssignMaterialIndices rp rest (snd r) of
             Inl e \<Rightarrow> Inl e
           | Inr r2 \<Rightarrow> Inr (Data\<lparr>MaterialIndex := fst r\<rparr> # fst r2, snd r2)))"

definition BuildMaterialIndices ::
  "(material \<Rightarrow> nat option) \<Rightarrow> FMeshQuadTree \<Rightarrow> error + FMeshQuadTree" where
  "BuildMaterialIndices rp t =
     (case AssignMaterialIndices rp (QuadMeshRenderData (NodeData t)) ([], 0) of
        Inl e \<Rightarrow> Inl e
      | Inr r \<Rightarrow>
          (let MatToIdxMap = fst (snd r)
           in Inr (t\<lparr>NodeData := (NodeData t)\<lparr>QuadMeshRenderData := fst r\<rparr>,
                     QuadMeshMaterials :=
                       fold (\<lambda>kv ms. ms[nat (snd kv) := fst kv]) MatToIdxMap
                            (replicate (length MatToIdxMap) 0)\<rparr>)))"

section \<open>LOD selection\<close>

text \<open>
  The traversal functions recurse through arena indices, and through synthesized nodes
  whose level counts down without a lower bound, so they carry a recursion budget: the
  result \<open>None\<close> is a traversal that needs more than the budget.  A node is passed
  by value, as the synthesized children are not in the arena.

  The loop over the live children of a node, threading the output; reading the arena at
  a child index beyond its end is the array's range check failing.
\<close>

fun ForEachLiveChild ::
  "(FNode \<Rightarrow> FTraversalOutput \<Rightarrow> (error + FTraversalOutput) option) \<Rightarrow> FNode list \<Rightarrow> nat list
     \<Rightarrow> FTraversalOutput \<Rightarrow> (error + FTraversalOutput) option" where
  "ForEachLiveChild f nodes [] out = Some (Inr out)"
| "ForEachLiveChild f nodes (ChildIndex # rest) out =
     (if ChildIndex > 0 then
        (if ChildIndex \<ge> length nodes then Some (Inl IndexOutOfRange)
         else case f (nodes ! ChildIndex) out of
                None \<Rightarrow> None
              | Some (Inl e) \<Rightarrow> Some (Inl e)
              | Some (Inr out1) \<Rightarrow> ForEachLiveChild f nodes rest out1)
      else ForEachLiveChild f nodes rest out)"

text \<open>The loop over the four synthesized children.\<close>

fun ForEachNode ::
  "(FNode \<Rightarrow> FTraversalOutput \<Rightarrow> (error + FTraversalOutput) option) \<Rightarrow> FNode list
     \<Rightarrow> FTraversalOutput \<Rightarrow> (error + FTraversalOutput) option" where
  "ForEachNode f [] out = Some (Inr out)"
| "ForEachNode f (ChildNode # rest) out =
     (case f ChildNode out of
        None \<Rightarrow> None
      | Some (Inl e) \<Rightarrow> Some (Inl e)
      | Some (Inr out1) \<Rightarrow> ForEachNode f rest out1)"

definition HalfOffsets3 :: "FVector list" where
  "HalfOffsets3 = [Vec3 0 0 0, Vec3 1 0 0, Vec3 0 1 0, Vec3 1 1 0]"

text \<open>
  The temporary node of iteration \<open>i\<close> in \<open>SelectLOD\<close> and
  \<open>SelectLODWithinBounds\<close>: a default-constructed node with both flags set, the
  two identities of this node, and the \<open>i\<close>-th quadrant as bounds.
\<close>

definition VirtualChild :: "FNode \<Rightarrow> nat \<Rightarrow> FNode" where
  "VirtualChild n i =
     (let Extent = GetExtent (Bounds n);
          HalfBoundSize = Vec3 (X Extent) (Y Extent) (Z Extent * 2);
          ChildMin = vadd (BoxMin (Bounds n)) (vmul HalfBoundSize (HalfOffsets3 ! i));
          ChildMax = vadd ChildMin HalfBoundSize;
          ChildBounds = Box ChildMin ChildMax
      in FNode_default\<lparr>HasCompleteSubtree := True,
                        IsSubtreeSameQuadMesh := True,
                        TransitionQuadMeshIndex := TransitionQuadMeshIndex n,
                        QuadMeshIndex := QuadMeshIndex n,
                        Bounds := ChildBounds\<rparr>)"

definition VirtualChildren :: "FNode \<Rightarrow> FNode list" where
  "VirtualChildren n = map (VirtualChild n) [0, 1, 2, 3]"

primrec SelectLODRefinement ::
  "nat \<Rightarrow> FNodeData \<Rightarrow> FTraversalDesc \<Rightarrow> int \<Rightarrow> int \<Rightarrow> FNode \<Rightarrow> FTraversalOutput
     \<Rightarrow> (error + FTraversalOutput) option" where
  "SelectLODRefinement 0 nd d InLODLevel InDensityLevel n out = None"
| "SelectLODRefinement (Suc budget) nd d InLODLevel InDensityLevel n out =
     (if QuadMeshIndex n \<ge> length (QuadMeshRenderData nd) then Some (Inl IndexOutOfRange)
      else
        let rd = QuadMeshRenderData nd ! QuadMeshIndex n
        in if FrustumIntersectBox d (GetCenter (Bounds n)) (GetExtent (Bounds n)) then
             (if CanRender n InDensityLevel (ForceCollapseDensityLevel d) rd
              then Some (AddNodeForRender n rd InDensityLevel InLODLevel d out)
              else ForEachLiveChild
                     (SelectLODRefinement budget nd d InLODLevel (InDensityLevel + 1))
                     (Nodes nd) (Children n) out)
           else Some (Inr out))"

primrec SelectLOD ::
  "nat \<Rightarrow> FNodeData \<Rightarrow> FTraversalDesc \<Rightarrow> int \<Rightarrow> FNode \<Rightarrow> FTraversalOutput
     \<Rightarrow> (error + FTraversalOutput) option" where
  "SelectLOD 0 nd d InLODLevel n out = None"
| "SelectLOD (Suc budget) nd d InLODLevel n out =
     (if QuadMeshIndex n \<ge> length (QuadMeshRenderData nd) then Some (Inl IndexOutOfRange)
      else
        let rd = QuadMeshRenderData nd ! QuadMeshIndex n;
            Bounds2D = Box2D (XY (BoxMin (Bounds n))) (XY (BoxMax (Bounds n)));
            ClosestDistanceToTile =
              sqrt (ComputeSquaredDistanceToPoint Bounds2D (XY (ObserverPosition d)))
        in if \<not> FrustumIntersectBox d (GetCenter (Bounds n)) (GetExtent (Bounds n)) then Some (Inr out)
           else if ClosestDistanceToTile > LODDistance d InLODLevel then
             (if CanRender n 0 (ForceCollapseDensityLevel d) rd
              then Some (AddNodeForRender n rd 1 (InLODLevel + 1) d out)
              else ForEachLiveChild (SelectLODRefinement budget nd d (InLODLevel + 1) 2)
                     (Nodes nd) (Children n) out)
           else if InLODLevel = 0 then
             (if CanRender n 0 (ForceCollapseDensityLevel d) rd
              then Some (AddNodeForRender n rd 0 InLODLevel d out)
              else Some (Inr out))
           else if ClosestDistanceToTile > LODDistance d (InLODLevel - 1) \<or> InLODLevel = LowestLOD d then
             (if CanRender n 0 (ForceCollapseDensityLevel d) rd
              then Some (AddNodeForRender n rd 0 InLODLevel d out)
              else ForEachLiveChild (SelectLODRefinement budget nd d InLODLevel 1)
                     (Nodes nd) (Children n) out)
           else if HasCompleteSubtree n \<and> IsSubtreeSameQuadMesh n then
             ForEachNode (SelectLOD budget nd d (InLODLevel - 1)) (VirtualChildren n) out
           else
             ForEachLiveChild (SelectLOD budget nd d (InLODLevel - 1)) (Nodes nd) (Children n) out)"

primrec SelectLODWithinBounds ::
  "nat \<Rightarrow> FNodeData \<Rightarrow> FTraversalDesc \<Rightarrow> int \<Rightarrow> FNode \<Rightarrow> FTraversalOutput
     \<Rightarrow> (error + FTraversalOutput) option" where
  "SelectLODWithinBounds 0 nd d InLODLevel n out = None"
| "SelectLODWithinBounds (Suc budget) nd d InLODLevel n out =
     (if QuadMeshIndex n \<ge> length (QuadMeshRenderData nd) then Some (Inl IndexOutOfRange)
      else
        let rd = QuadMeshRenderData nd ! QuadMeshIndex n
        in if \<not> FrustumIntersectBox d (GetCenter (Bounds n)) (GetExtent (Bounds n)) then Some (Inr out)
           else if \<not> bIsValid (TessellatedQuadMeshBounds d) then Some (Inl CheckFailed)
           else if InLODLevel = 0 then
             (if (IsInsideOrOn (TessellatedQuadMeshBounds d) (XY (BoxMin (Bounds n)))
                   \<and> IsInsideOrOn (TessellatedQuadMeshBounds d) (XY (BoxMax (Bounds n))))
                 \<and> CanRender n 0 (ForceCollapseDensityLevel d) rd
              then Some (AddNodeForRender n rd 0 InLODLevel d out)
              else Some (Inr out))
           else if HasCompleteSubtree n \<and> IsSubtreeSameQuadMesh n then
             ForEachNode (SelectLODWithinBounds budget nd d (InLODLevel - 1)) (VirtualChildren n) out
           else
             ForEachLiveChild (SelectLODWithinBounds budget nd d (InLODLevel - 1))
               (Nodes nd) (Children n) out)"

section \<open>A worked example\<close>

text \<open>
  A tree of depth 1 over the region \<open>[0,64] \<times> [0,64]\<close> with leaf tiles of size
  32, and two render-data records with different materials.  The arenas that the
  operations produce on it are written out; the lemmas below check them against the
  operations.
\<close>

definition Example0 :: FMeshQuadTree where
  "Example0 = (case InitTree EmptyTree (Box2D (Vec2 0 0) (Vec2 64 64)) 32 (1, 1) of
                 Inr t \<Rightarrow> t | Inl e \<Rightarrow> EmptyTree)"

definition Example1 :: FMeshQuadTree where
  "Example1 = snd (AddQuadtreeMeshRenderData Example0
                     \<lparr>Material = Some 7, SurfaceBaseHeight = 5, MaterialIndex = 0\<rparr>)"

definition Example2 :: FMeshQuadTree where
  "Example2 = snd (AddQuadtreeMeshRenderData Example1
                     \<lparr>Material = Some 8, SurfaceBaseHeight = 9, MaterialIndex = 0\<rparr>)"

definition ExNode :: "FBox \<Rightarrow> nat list \<Rightarrow> nat \<Rightarrow> nat \<Rightarrow> bool \<Rightarrow> bool \<Rightarrow> FNode" where
  "ExNode b cs p q whole same =
     \<lparr>Bounds = b, Children = cs, ParentIndex = p, QuadMeshIndex = q, TransitionQuadMeshIndex = q,
      HasCompleteSubtree = whole, IsSubtreeSameQuadMesh = same, HasMaterial = True\<rparr>"

definition ExTree :: "FNode list \<Rightarrow> FQuadMeshRenderData list \<Rightarrow> bool \<Rightarrow> FMeshQuadTree" where
  "ExTree ns rds locked =
     \<lparr>NodeData = \<lparr>Nodes = ns, NodesMax = 5, QuadMeshRenderData = rds\<rparr>,
      QuadMeshMaterials = [], TileRegion = Box2D (Vec2 0 0) (Vec2 64 64), TreeDepth = 1,
      bIsReadOnly = locked, MaxLeafCount = 4, LeafSize = 32, ExtentInTiles = (1, 1)\<rparr>"

definition ExRenderData1 :: "FQuadMeshRenderData list" where
  "ExRenderData1 = [\<lparr>Material = None, SurfaceBaseHeight = 0, MaterialIndex = -1\<rparr>,
                    \<lparr>Material = Some 7, SurfaceBaseHeight = 5, MaterialIndex = 0\<rparr>]"

definition ExRenderData2 :: "FQuadMeshRenderData list" where
  "ExRenderData2 = ExRenderData1 @ [\<lparr>Material = Some 8, SurfaceBaseHeight = 9, MaterialIndex = 0\<rparr>]"

text \<open>One region over the whole root box: the full tree of five nodes.\<close>

definition ExFullNodes :: "FNode list" where
  "ExFullNodes =
     [ExNode (Box (Vec3 0 0 0) (Vec3 64 64 10)) [1, 2, 3, 4] INVALID_PARENT 1 True True,
      ExNode (Box (Vec3 0 0 0) (Vec3 32 32 10)) [0, 0, 0, 0] 0 1 True True,
      ExNode (Box (Vec3 32 0 0) (Vec3 64 32 10)) [0, 0, 0, 0] 0 1 True True,
      ExNode (Box (Vec3 0 32 0) (Vec3 32 64 10)) [0, 0, 0, 0] 0 1 True True,
      ExNode (Box (Vec3 32 32 0) (Vec3 64 64 10)) [0, 0, 0, 0] 0 1 True True]"

definition ExFullPrunedNodes :: "FNode list" where
  "ExFullPrunedNodes =
     [ExNode (Box (Vec3 0 0 0) (Vec3 64 64 10)) [0, 0, 0, 0] INVALID_PARENT 1 True True]"

text \<open>One region inside the first quadrant: the root and one leaf.\<close>

definition ExSmallNodes :: "FNode list" where
  "ExSmallNodes =
     [ExNode (Box (Vec3 0 0 0) (Vec3 64 64 10)) [1, 0, 0, 0] INVALID_PARENT 1 False True,
      ExNode (Box (Vec3 0 0 0) (Vec3 32 32 10)) [0, 0, 0, 0] 0 1 True True]"

text \<open>
  Two regions, the left half with the first material and then the right half with the
  second.
\<close>

definition ExLeftNodes :: "FNode list" where
  "ExLeftNodes =
     [ExNode (Box (Vec3 0 0 0) (Vec3 64 64 10)) [1, 0, 2, 0] INVALID_PARENT 1 False True,
      ExNode (Box (Vec3 0 0 0) (Vec3 32 32 10)) [0, 0, 0, 0] 0 1 True True,
      ExNode (Box (Vec3 0 32 0) (Vec3 32 64 10)) [0, 0, 0, 0] 0 1 True True]"

definition ExTwoNodes :: "FNode list" where
  "ExTwoNodes =
     [ExNode (Box (Vec3 0 0 0) (Vec3 64 64 10)) [1, 3, 2, 4] INVALID_PARENT 2 True False,
      ExNode (Box (Vec3 0 0 0) (Vec3 32 32 10)) [0, 0, 0, 0] 0 1 True True,
      ExNode (Box (Vec3 0 32 0) (Vec3 32 64 10)) [0, 0, 0, 0] 0 1 True True,
      ExNode (Box (Vec3 32 0 0) (Vec3 64 32 10)) [0, 0, 0, 0] 0 2 True True,
      ExNode (Box (Vec3 32 32 0) (Vec3 64 64 10)) [0, 0, 0, 0] 0 2 True True]"

definition ExRenderData2Indexed :: "FQuadMeshRenderData list" where
  "ExRenderData2Indexed =
     [\<lparr>Material = None, SurfaceBaseHeight = 0, MaterialIndex = -1\<rparr>,
      \<lparr>Material = Some 7, SurfaceBaseHeight = 5, MaterialIndex = 0\<rparr>,
      \<lparr>Material = Some 8, SurfaceBaseHeight = 9, MaterialIndex = 1\<rparr>]"

text \<open>
  A traversal with an all-accepting frustum, the observer at the centre of the root box,
  every LOD distance 1000, and two density buckets; and an output with four empty
  buckets.
\<close>

definition ExDesc :: FTraversalDesc where
  "ExDesc =
     \<lparr>FrustumIntersectBox = (\<lambda>c e. True), ObserverPosition = Vec3 32 32 0,
      LODDistance = (\<lambda>l. 1000), LowestLOD = 5, ForceCollapseDensityLevel = 0, DensityCount = 2,
      PreViewTranslation = Vec3 0 0 0, bLODMorphingEnabled = True, HeightMorph = 0,
      TessellatedQuadMeshBounds = Box2D (Vec2 0 0) (Vec2 64 64)\<rparr>"

definition ExOut :: FTraversalOutput where
  "ExOut = \<lparr>BucketInstanceCounts = [0, 0, 0, 0], StagingInstanceData = [], InstanceCount = 0\<rparr>"

section \<open>The build phase as a whole\<close>

text \<open>
  What a caller does between \<open>InitTree\<close> and \<open>Unlock\<close>: it appends render-data
  records and inserts regions, in any order.  A failed check ends the build.
\<close>

datatype BuildOp = AddRenderData FQuadMeshRenderData | AddTiles FBox nat

fun BuildOps :: "FMeshQuadTree \<Rightarrow> BuildOp list \<Rightarrow> error + FMeshQuadTree" where
  "BuildOps t [] = Inr t"
| "BuildOps t (AddRenderData rd # ops) = BuildOps (snd (AddQuadtreeMeshRenderData t rd)) ops"
| "BuildOps t (AddTiles b i # ops) =
     (case AddQuadMeshTilesInsideBounds t b i of
        Inl e \<Rightarrow> Inl e
      | Inr t1 \<Rightarrow> BuildOps t1 ops)"

text \<open>
  The shape of an arena built by insertion.  \<open>descend cs i ps\<close> follows the child
  slots \<open>ps\<close> from node \<open>i\<close> in the table \<open>cs\<close> of child lists.  The
  invariant is about the tables of child lists and of parent indices only: in a
  well-formed arena of depth \<open>d\<close> every node has four child slots; a live slot holds an
  index inside the arena, of a node whose parent index points back; the live slots of a
  node are distinct; the parent of a node other than the root has a smaller index; and
  every node is reached from the root by a path of at most \<open>d\<close> slots.
\<close>

fun descend :: "nat list list \<Rightarrow> nat \<Rightarrow> nat list \<Rightarrow> nat option" where
  "descend cs i [] = Some i"
| "descend cs i (s # ps) =
     (if i < length cs \<and> s < length (cs ! i) \<and> 0 < cs ! i ! s then descend cs (cs ! i ! s) ps
      else None)"

definition shape_inv :: "nat \<Rightarrow> nat list list \<Rightarrow> nat list \<Rightarrow> bool" where
  "shape_inv d cs par \<longleftrightarrow>
     cs \<noteq> [] \<and> length par = length cs \<and>
     (\<forall>i<length cs. length (cs ! i) = 4) \<and>
     (\<forall>i<length cs. \<forall>s<4. 0 < cs ! i ! s \<longrightarrow> cs ! i ! s < length cs \<and> par ! (cs ! i ! s) = i) \<and>
     (\<forall>i<length cs. \<forall>s<4. \<forall>s'<4. s \<noteq> s' \<and> 0 < cs ! i ! s \<longrightarrow> cs ! i ! s \<noteq> cs ! i ! s') \<and>
     (\<forall>j<length cs. 0 < j \<longrightarrow> par ! j < j) \<and>
     (\<forall>j<length cs. \<exists>ps. length ps \<le> d \<and> set ps \<subseteq> {0..<4} \<and> descend cs 0 ps = Some j)"

definition arena_inv :: "nat \<Rightarrow> FNode list \<Rightarrow> bool" where
  "arena_inv d nodes \<longleftrightarrow> shape_inv d (map Children nodes) (map ParentIndex nodes)"

text \<open>
  One table of child lists extends another: it is at least as long, and every live slot
  of the shorter one is kept.
\<close>

definition cs_ext :: "nat list list \<Rightarrow> nat list list \<Rightarrow> bool" where
  "cs_ext cs cs' \<longleftrightarrow>
     length cs \<le> length cs' \<and>
     (\<forall>j<length cs. length (cs' ! j) = length (cs ! j) \<and>
        (\<forall>s<length (cs ! j). 0 < cs ! j ! s \<longrightarrow> cs' ! j ! s = cs ! j ! s))"

text \<open>The node count of the full quadtree of depth \<open>d\<close>.\<close>

definition FullTreeNodeCount :: "nat \<Rightarrow> nat" where
  "FullTreeNodeCount d = (\<Sum>i\<le>d. 4 ^ i)"

text \<open>
  What an insertion may change in the node data: the table of child lists is extended,
  the capacity and the render data stay.  \<open>insert_ok d k f\<close> says that the
  insertion step \<open>f\<close>, started on a node at depth \<open>k\<close> of a well-formed arena,
  leaves a well-formed arena, and fails the capacity check only if the capacity is below
  the full-tree node count.
\<close>

definition nd_ext :: "FNodeData \<Rightarrow> FNodeData \<Rightarrow> bool" where
  "nd_ext nd nd' \<longleftrightarrow>
     cs_ext (map Children (Nodes nd)) (map Children (Nodes nd')) \<and>
     NodesMax nd' = NodesMax nd \<and> QuadMeshRenderData nd' = QuadMeshRenderData nd"

definition at_depth :: "FNode list \<Rightarrow> nat \<Rightarrow> nat \<Rightarrow> bool" where
  "at_depth nodes c k \<longleftrightarrow>
     (\<exists>ps. length ps = k \<and> set ps \<subseteq> {0..<4} \<and> descend (map Children nodes) 0 ps = Some c)"

definition insert_pre :: "nat \<Rightarrow> nat \<Rightarrow> nat \<Rightarrow> FNodeData \<Rightarrow> bool" where
  "insert_pre d k c nd \<longleftrightarrow>
     arena_inv d (Nodes nd) \<and> c < length (Nodes nd) \<and> at_depth (Nodes nd) c k"

definition insert_post :: "nat \<Rightarrow> FNodeData \<Rightarrow> error + FNodeData \<Rightarrow> bool" where
  "insert_post d nd r \<longleftrightarrow>
     (case r of Inl e \<Rightarrow> e = ArenaOverflow \<longrightarrow> NodesMax nd < FullTreeNodeCount d
              | Inr nd' \<Rightarrow> arena_inv d (Nodes nd') \<and> nd_ext nd nd')"

definition insert_ok :: "nat \<Rightarrow> nat \<Rightarrow> (nat \<Rightarrow> FNodeData \<Rightarrow> error + FNodeData) \<Rightarrow> bool" where
  "insert_ok d k f \<longleftrightarrow> (\<forall>c nd. insert_pre d k c nd \<longrightarrow> insert_post d nd (f c nd))"

definition tree_inv :: "FMeshQuadTree \<Rightarrow> bool" where
  "tree_inv t \<longleftrightarrow> arena_inv (TreeDepth t) (Nodes (NodeData t))"

text \<open>
  A node is collapsible when its subtree is complete and identity-uniform: the condition
  of the first removal rule on the parent, and of the early return of the height query.
\<close>

definition CompleteUniform :: "FNode \<Rightarrow> bool" where
  "CompleteUniform n \<longleftrightarrow> HasCompleteSubtree n \<and> IsSubtreeSameQuadMesh n"

text \<open>
  What an insertion step does when started on a node without children: it leaves every
  other old node as it was, and if the node ends up collapsible then so is every node
  the step has created.
\<close>

definition fresh_post :: "nat \<Rightarrow> FNodeData \<Rightarrow> FNodeData \<Rightarrow> bool" where
  "fresh_post c nd nd' \<longleftrightarrow>
     length (Nodes nd) \<le> length (Nodes nd') \<and>
     (\<forall>j<length (Nodes nd). j \<noteq> c \<longrightarrow> Nodes nd' ! j = Nodes nd ! j) \<and>
     (CompleteUniform (Nodes nd' ! c) \<longrightarrow>
        (\<forall>j. length (Nodes nd) \<le> j \<and> j < length (Nodes nd') \<longrightarrow> CompleteUniform (Nodes nd' ! j)))"

definition fresh_ok :: "(nat \<Rightarrow> FNodeData \<Rightarrow> error + FNodeData) \<Rightarrow> bool" where
  "fresh_ok f \<longleftrightarrow>
     (\<forall>c nd nd'. c < length (Nodes nd) \<and> Children (Nodes nd ! c) = [0, 0, 0, 0] \<and> f c nd = Inr nd'
        \<longrightarrow> fresh_post c nd nd')"

text \<open>
  Two arenas look the same to the height query from the nodes that \<open>R\<close> relates:
  related nodes agree on the two flags and on the render-data index, and, unless they are
  collapsible, their child slots are live together, with children of equal bounds that
  are related again.
\<close>

definition qsim :: "(nat \<Rightarrow> nat \<Rightarrow> bool) \<Rightarrow> FNode list \<Rightarrow> FNode list \<Rightarrow> bool" where
  "qsim R A B \<longleftrightarrow>
     (\<forall>i i'. R i i' \<longrightarrow>
        HasCompleteSubtree (A ! i) = HasCompleteSubtree (B ! i') \<and>
        IsSubtreeSameQuadMesh (A ! i) = IsSubtreeSameQuadMesh (B ! i') \<and>
        QuadMeshIndex (A ! i) = QuadMeshIndex (B ! i') \<and>
        (\<not> CompleteUniform (A ! i) \<longrightarrow>
           length (Children (A ! i)) = length (Children (B ! i')) \<and>
           (\<forall>s<length (Children (A ! i)).
               (Children (A ! i) ! s = 0 \<longleftrightarrow> Children (B ! i') ! s = 0) \<and>
               (0 < Children (A ! i) ! s \<longrightarrow>
                  Children (A ! i) ! s < length A \<and> Children (B ! i') ! s < length B \<and>
                  Bounds (A ! (Children (A ! i) ! s)) = Bounds (B ! (Children (B ! i') ! s)) \<and>
                  R (Children (A ! i) ! s) (Children (B ! i') ! s)))))"

text \<open>
  The pruning loop of \<open>Unlock\<close>.  \<open>same_but_links a b\<close>: node \<open>b\<close> is node
  \<open>a\<close> up to its child slots and its parent index.  \<open>moved e k\<close> is where a node
  ends up when the last node \<open>e\<close> is moved into the place \<open>k\<close>.
  \<open>patched k e q sl cur res\<close> describes the arena \<open>res\<close> that the patch loop of
  \<open>SwapRemove\<close> leaves after the slots \<open>sl\<close>, started on \<open>cur\<close>: the slots of
  node \<open>q\<close> that held \<open>e\<close> hold \<open>k\<close>, and the live children of node \<open>k\<close>
  have the parent index \<open>k\<close>.
\<close>

definition same_but_links :: "FNode \<Rightarrow> FNode \<Rightarrow> bool" where
  "same_but_links a b \<longleftrightarrow>
     Bounds b = Bounds a \<and> QuadMeshIndex b = QuadMeshIndex a \<and>
     TransitionQuadMeshIndex b = TransitionQuadMeshIndex a \<and>
     HasCompleteSubtree b = HasCompleteSubtree a \<and>
     IsSubtreeSameQuadMesh b = IsSubtreeSameQuadMesh a \<and> HasMaterial b = HasMaterial a"

definition moved :: "nat \<Rightarrow> nat \<Rightarrow> nat \<Rightarrow> nat" where
  "moved e k i = (if i = e then k else i)"

definition patched :: "nat \<Rightarrow> nat \<Rightarrow> nat \<Rightarrow> nat list \<Rightarrow> FNode list \<Rightarrow> FNode list \<Rightarrow> bool" where
  "patched k e q sl cur res \<longleftrightarrow>
     length res = length cur \<and>
     (\<forall>j<length cur.
        same_but_links (cur ! j) (res ! j) \<and>
        length (Children (res ! j)) = 4 \<and>
        (\<forall>s<4. Children (res ! j) ! s =
                 (if j = q \<and> s \<in> set sl \<and> Children (cur ! j) ! s = e then k
                  else Children (cur ! j) ! s)) \<and>
        ParentIndex (res ! j) =
          (if 0 < j \<and> (\<exists>s\<in>set sl. Children (cur ! k) ! s = j) then k
           else ParentIndex (cur ! j)))"

text \<open>
  The state of the pruning loop before it looks at node \<open>k\<close>, with last index
  \<open>e\<close>: every node has four child slots; a live slot of a node up to \<open>e\<close> holds
  an index up to \<open>e\<close>, of another node whose parent index points back; the nodes not
  yet looked at have their parent below them; and every node other than the root has its
  parent index inside the arena and a material.
\<close>

definition prune_inv :: "nat \<Rightarrow> FNode list \<Rightarrow> nat \<Rightarrow> bool" where
  "prune_inv k nodes e \<longleftrightarrow>
     k \<le> e \<and> e < length nodes \<and>
     (\<forall>i<length nodes. length (Children (nodes ! i)) = 4) \<and>
     (\<forall>i\<le>e. \<forall>s<4. 0 < Children (nodes ! i) ! s \<longrightarrow>
        Children (nodes ! i) ! s \<le> e \<and> Children (nodes ! i) ! s \<noteq> i \<and>
        ParentIndex (nodes ! (Children (nodes ! i) ! s)) = i) \<and>
     (\<forall>j\<le>k. 0 < j \<longrightarrow> ParentIndex (nodes ! j) < j) \<and>
     (\<forall>j\<le>e. 0 < j \<longrightarrow> ParentIndex (nodes ! j) < length nodes \<and> HasMaterial (nodes ! j))"

text \<open>
  \<open>relocated k e N N'\<close>: what \<open>SwapRemove k e\<close> makes of the arena \<open>N\<close>.
  Every node up to \<open>e\<close> other than \<open>k\<close> is found at its new place with its child
  slots renamed, and with its parent index renamed if it sat in a slot of the moved node.
  \<open>heights_agree A B\<close>: the height query started at the root gives the same answer
  on both arenas, whatever the render-data table.
\<close>

definition relocated :: "nat \<Rightarrow> nat \<Rightarrow> FNode list \<Rightarrow> FNode list \<Rightarrow> bool" where
  "relocated k e N N' \<longleftrightarrow>
     length N' = length N \<and>
     (\<forall>j<length N. length (Children (N' ! j)) = 4) \<and>
     (\<forall>i\<le>e. i \<noteq> k \<longrightarrow>
        same_but_links (N ! i) (N' ! moved e k i) \<and>
        (\<forall>s<4. Children (N' ! moved e k i) ! s = moved e k (Children (N ! i) ! s)) \<and>
        (0 < i \<longrightarrow> ParentIndex (N' ! moved e k i) =
                     (if \<exists>s<4. Children (N ! e) ! s = i then k else ParentIndex (N ! i))))"

definition heights_agree :: "FNode list \<Rightarrow> FNode list \<Rightarrow> bool" where
  "heights_agree A B \<longleftrightarrow>
     (\<forall>ndA ndB p. Nodes ndA = A \<and> Nodes ndB = B \<and> QuadMeshRenderData ndA = QuadMeshRenderData ndB \<longrightarrow>
        QueryBaseHeightAtLocation ndA (A ! 0) p = QueryBaseHeightAtLocation ndB (B ! 0) p)"

text \<open>
  Material-bearing builds.  Slot 0 of the render-data table is the defaulted record that
  \<open>InitTree\<close> adds, which has no material.  \<open>MaterialOp\<close>: a build step adds a
  record with a material, or inserts a region with an index other than 0.
  \<open>mat_table\<close>: every record but the one in slot 0 has a material.
  \<open>mat_nodes\<close>: every node but the root has the material flag.  \<open>mat_ok f\<close>:
  the insertion step \<open>f\<close>, started on a node \<open>c\<close> of an arena where every other
  node but the root has the flag, leaves an arena where every node but the root has it.
\<close>

definition MaterialOp :: "BuildOp \<Rightarrow> bool" where
  "MaterialOp op = (case op of AddRenderData rd \<Rightarrow> Material rd \<noteq> None | AddTiles b i \<Rightarrow> 0 < i)"

definition mat_table :: "FQuadMeshRenderData list \<Rightarrow> bool" where
  "mat_table rds \<longleftrightarrow> (\<forall>i<length rds. 0 < i \<longrightarrow> Material (rds ! i) \<noteq> None)"

definition mat_nodes :: "FNode list \<Rightarrow> bool" where
  "mat_nodes nodes \<longleftrightarrow> (\<forall>j<length nodes. 0 < j \<longrightarrow> HasMaterial (nodes ! j))"

definition mat_ok :: "(nat \<Rightarrow> FNodeData \<Rightarrow> error + FNodeData) \<Rightarrow> bool" where
  "mat_ok f \<longleftrightarrow>
     (\<forall>c nd nd'. mat_table (QuadMeshRenderData nd) \<and> c < length (Nodes nd) \<and>
                 (\<forall>j<length (Nodes nd). 0 < j \<and> j \<noteq> c \<longrightarrow> HasMaterial (Nodes nd ! j)) \<and>
                 f c nd = Inr nd'
        \<longrightarrow> QuadMeshRenderData nd' = QuadMeshRenderData nd \<and>
            length (Nodes nd) \<le> length (Nodes nd') \<and> mat_nodes (Nodes nd'))"

text \<open>
  One region inside the first quadrant, inserted with the defaulted render data of slot
  0: the root and one leaf, both without a material; and the same arena after pruning.
\<close>

definition ExBareNodes :: "FNode list" where
  "ExBareNodes =
     [(ExNode (Box (Vec3 0 0 0) (Vec3 64 64 10)) [1, 0, 0, 0] INVALID_PARENT 0 False True)\<lparr>HasMaterial := False\<rparr>,
      (ExNode (Box (Vec3 0 0 0) (Vec3 32 32 10)) [0, 0, 0, 0] 0 0 True True)\<lparr>HasMaterial := False\<rparr>]"

definition ExBarePrunedNodes :: "FNode list" where
  "ExBarePrunedNodes =
     [(ExNode (Box (Vec3 0 0 0) (Vec3 64 64 10)) [0, 0, 0, 0] INVALID_PARENT 0 False True)\<lparr>HasMaterial := False\<rparr>]"

section \<open>Properties\<close>

text \<open>
  C3.  A node can render as one instance exactly when its render data has a material,
  its subtree is identity-uniform, and the density level exceeds the force-collapse
  threshold or the subtree is complete.
\<close>

theorem CanRender_iff:
  "CanRender n density force rd \<longleftrightarrow>
     (\<exists>m. Material rd = Some m) \<and> IsSubtreeSameQuadMesh n \<and>
     (force < density \<or> HasCompleteSubtree n)"
  by (cases "Material rd") (simp_all add: CanRender_def)

subsection \<open>Single precision in \<open>InitTree\<close>\<close>

lemma RoundTiesToEven_eq:
  assumes "of_int m - 1 / 2 < y" and "y < of_int m + 1 / 2"
  shows "RoundTiesToEven y = m"
proof (cases "of_int m \<le> y")
  case True
  then have f: "\<lfloor>y\<rfloor> = m" using assms(2) by linarith
  then show ?thesis using assms(2) by (simp add: RoundTiesToEven_def Let_def)
next
  case False
  then have f: "\<lfloor>y\<rfloor> = m - 1" using assms(1) by linarith
  have "1 / 2 < y - of_int (m - 1)" using assms(1) by simp
  then show ?thesis using f by (simp add: RoundTiesToEven_def Let_def)
qed

lemma RoundTiesToEven_of_int: "RoundTiesToEven (of_int m) = m"
  by (rule RoundTiesToEven_eq) simp_all

lemma f32_binade:
  assumes B: "B = 2 powr of_int e" and lo: "B \<le> x" and hi: "x < 2 * B"
  shows "f32 x = of_int (RoundTiesToEven (x * 8388608 / B)) * B / 8388608"
proof -
  have Bpos: "0 < B" using B by simp
  then have xpos: "0 < x" using lo by simp
  have "2 powr (of_int e + 1) = 2 * B" using B by (simp add: powr_add)
  then have "\<lfloor>log 2 x\<rfloor> = e"
    using floor_log_eq_powr_iff[of x 2 e] xpos lo hi B by simp
  then have fl: "\<lfloor>log 2 \<bar>x\<bar>\<rfloor> = e" using xpos by simp
  have u: "2 powr (of_int e - 23) = B / 8388608"
    using B by (simp add: powr_diff)
  have "f32 x = of_int (RoundTiesToEven (x / (B / 8388608))) * (B / 8388608)"
    using xpos unfolding f32_def Let_def fl u by simp
  then show ?thesis by simp
qed

lemma f32_interval:
  assumes B: "B = 2 powr of_int e" and "B \<le> lo" and "lo \<le> x" and "x \<le> hi" and "hi < 2 * B"
    and "of_int m - 1 / 2 < lo * 8388608 / B" and "hi * 8388608 / B < of_int m + 1 / 2"
  shows "f32 x = of_int m * B / 8388608"
proof -
  have Bpos: "0 < B" using B by simp
  have a: "lo * 8388608 / B \<le> x * 8388608 / B" using assms(3) Bpos by (simp add: divide_right_mono)
  have b: "x * 8388608 / B \<le> hi * 8388608 / B" using assms(4) Bpos by (simp add: divide_right_mono)
  have "RoundTiesToEven (x * 8388608 / B) = m"
    by (rule RoundTiesToEven_eq) (use a b assms(6,7) in linarith)+
  moreover have "f32 x = of_int (RoundTiesToEven (x * 8388608 / B)) * B / 8388608"
    by (rule f32_binade[OF B]) (use assms in linarith)+
  ultimately show ?thesis by simp
qed

lemma pow2_powr: "(2::real) ^ k = 2 powr of_int (int k)"
  by (simp add: powr_realpow)

lemma f32_pow2: "f32 (2 ^ k) = 2 ^ k"
proof -
  note B = pow2_powr[of k]
  have "f32 (2 ^ k) = of_int (RoundTiesToEven ((2::real) ^ k * 8388608 / 2 ^ k)) * 2 ^ k / 8388608"
    by (rule f32_binade[OF B]) simp_all
  moreover have "(2::real) ^ k * 8388608 / 2 ^ k = of_int 8388608" by simp
  ultimately show ?thesis by (simp only: RoundTiesToEven_of_int)
qed

lemma LogToLog2_value: "LogToLog2 = 12102203 / 8388608"
proof -
  have B: "(1::real) = 2 powr of_int 0" by simp
  have "f32 (14426950 / 10000000) = of_int (RoundTiesToEven (14426950 / 10000000 * 8388608 / 1)) * 1 / 8388608"
    by (rule f32_binade[OF B]) simp_all
  moreover have "RoundTiesToEven (14426950 / 10000000 * 8388608 / 1) = 12102203"
    by (rule RoundTiesToEven_eq) simp_all
  ultimately show ?thesis by (simp add: LogToLog2_def)
qed

lemma exp_lower_sum:
  fixes x :: real
  assumes "0 \<le> x"
  shows "(\<Sum>m<n. x ^ m / fact m) \<le> exp x"
proof -
  obtain t where t: "exp x = (\<Sum>m<n. x ^ m / fact m) + exp t / fact n * x ^ n"
    using Maclaurin_exp_le[of x n] by blast
  have "0 \<le> exp t / fact n * x ^ n" using assms by simp
  then show ?thesis using t by linarith
qed

lemma exp_upper_sum:
  fixes x :: real
  assumes "0 \<le> x" and "x \<le> 1"
  shows "exp x \<le> (\<Sum>m<n. x ^ m / fact m) + 3 * x ^ n / fact n"
proof -
  obtain t where t: "\<bar>t\<bar> \<le> \<bar>x\<bar>" "exp x = (\<Sum>m<n. x ^ m / fact m) + exp t / fact n * x ^ n"
    using Maclaurin_exp_le[of x n] by blast
  have "t \<le> 1" using t(1) assms by linarith
  then have "exp t \<le> exp 1" by simp
  also have "\<dots> \<le> 3" by (rule exp_le)
  finally have "exp t \<le> 3" .
  then have "exp t / fact n * x ^ n \<le> 3 / fact n * x ^ n"
    using assms(1) by (intro mult_right_mono divide_right_mono) simp_all
  then show ?thesis using t(2) by simp
qed

lemma ln2_bounds: "693147180 / 1000000000 < ln (2::real)" "ln (2::real) < 693147181 / 1000000000"
proof -
  let ?L = "693147180 / 1000000000 :: real" and ?U = "693147181 / 1000000000 :: real"
  have "exp ?L \<le> (\<Sum>m<13. ?L ^ m / fact m) + 3 * ?L ^ 13 / fact 13"
    by (rule exp_upper_sum) simp_all
  also have "\<dots> < 2"
    by (simp add: lessThan_nat_numeral lessThan_Suc fact_numeral power_divide)
  finally have "exp ?L < exp (ln 2)" by simp
  then show "?L < ln (2::real)" by (simp only: exp_less_cancel_iff)
  have "2 < (\<Sum>m<13. ?U ^ m / fact m)"
    by (simp add: lessThan_nat_numeral lessThan_Suc fact_numeral power_divide)
  also have "\<dots> \<le> exp ?U" by (rule exp_lower_sum) simp
  finally have "exp (ln 2) < exp ?U" by simp
  then show "ln (2::real) < ?U" by (simp only: exp_less_cancel_iff)
qed

lemma FMath_Log2_2: "FMath_Log2 2 = 1"
proof -
  have "f32 (ln 2) = of_int 11629080 * (1 / 2) / 8388608"
  proof (rule f32_interval[where e = "-1" and lo = "693147180 / 1000000000"
                              and hi = "693147181 / 1000000000"])
    show "(1 / 2 :: real) = 2 powr of_int (-1)" by (simp add: powr_minus)
    show "693147180 / 1000000000 \<le> ln (2::real)" using ln2_bounds(1) by simp
    show "ln (2::real) \<le> 693147181 / 1000000000" using ln2_bounds(2) by simp
  qed simp_all
  then have a: "FMath_Loge 2 = 1453635 / 2097152" by (simp add: FMath_Loge_def)
  have "f32 (1453635 / 2097152 * (12102203 / 8388608)) =
          of_int (RoundTiesToEven (1453635 / 2097152 * (12102203 / 8388608) * 8388608 / (1 / 2))) * (1 / 2) / 8388608"
    by (rule f32_binade[where e = "-1"]) (simp_all add: powr_minus)
  moreover have "RoundTiesToEven (1453635 / 2097152 * (12102203 / 8388608) * 8388608 / (1 / 2)) = 16777216"
    by (rule RoundTiesToEven_eq) simp_all
  ultimately show ?thesis by (simp add: FMath_Log2_def a LogToLog2_value)
qed

lemma FMath_Log2_4: "FMath_Log2 4 = 2"
proof -
  have l: "ln (4::real) = 2 * ln 2" using ln_realpow[of 2 2] by simp
  have "f32 (2 * ln 2) = of_int 11629080 * (1) / 8388608"
  proof (rule f32_interval[where e = "0" and lo = "2 * (693147180 / 1000000000)"
                              and hi = "2 * (693147181 / 1000000000)"])
    show "(1 :: real) = 2 powr of_int (0)" by (simp add: powr_minus)
    show "2 * (693147180 / 1000000000) \<le> 2 * ln (2::real)" using ln2_bounds(1) by simp
    show "2 * ln (2::real) \<le> 2 * (693147181 / 1000000000)" using ln2_bounds(2) by simp
  qed simp_all
  then have a: "FMath_Loge 4 = 1453635 / 1048576" by (simp add: FMath_Loge_def l)
  have "f32 (1453635 / 1048576 * (12102203 / 8388608)) =
          of_int (RoundTiesToEven (1453635 / 1048576 * (12102203 / 8388608) * 8388608 / (1))) * (1) / 8388608"
    by (rule f32_binade[where e = "0"]) (simp_all add: powr_minus)
  moreover have "RoundTiesToEven (1453635 / 1048576 * (12102203 / 8388608) * 8388608 / (1)) = 16777216"
    by (rule RoundTiesToEven_eq) simp_all
  ultimately show ?thesis by (simp add: FMath_Log2_def a LogToLog2_value)
qed

lemma FMath_Log2_8: "FMath_Log2 8 = 3"
proof -
  have l: "ln (8::real) = 3 * ln 2" using ln_realpow[of 2 3] by simp
  have "f32 (3 * ln 2) = of_int 8721810 * (2) / 8388608"
  proof (rule f32_interval[where e = "1" and lo = "3 * (693147180 / 1000000000)"
                              and hi = "3 * (693147181 / 1000000000)"])
    show "(2 :: real) = 2 powr of_int (1)" by (simp add: powr_minus)
    show "3 * (693147180 / 1000000000) \<le> 3 * ln (2::real)" using ln2_bounds(1) by simp
    show "3 * ln (2::real) \<le> 3 * (693147181 / 1000000000)" using ln2_bounds(2) by simp
  qed simp_all
  then have a: "FMath_Loge 8 = 4360905 / 2097152" by (simp add: FMath_Loge_def l)
  have "f32 (4360905 / 2097152 * (12102203 / 8388608)) =
          of_int (RoundTiesToEven (4360905 / 2097152 * (12102203 / 8388608) * 8388608 / (2))) * (2) / 8388608"
    by (rule f32_binade[where e = "1"]) (simp_all add: powr_minus)
  moreover have "RoundTiesToEven (4360905 / 2097152 * (12102203 / 8388608) * 8388608 / (2)) = 12582912"
    by (rule RoundTiesToEven_eq) simp_all
  ultimately show ?thesis by (simp add: FMath_Log2_def a LogToLog2_value)
qed

lemma FMath_Log2_16: "FMath_Log2 16 = 4"
proof -
  have l: "ln (16::real) = 4 * ln 2" using ln_realpow[of 2 4] by simp
  have "f32 (4 * ln 2) = of_int 11629080 * (2) / 8388608"
  proof (rule f32_interval[where e = "1" and lo = "4 * (693147180 / 1000000000)"
                              and hi = "4 * (693147181 / 1000000000)"])
    show "(2 :: real) = 2 powr of_int (1)" by (simp add: powr_minus)
    show "4 * (693147180 / 1000000000) \<le> 4 * ln (2::real)" using ln2_bounds(1) by simp
    show "4 * ln (2::real) \<le> 4 * (693147181 / 1000000000)" using ln2_bounds(2) by simp
  qed simp_all
  then have a: "FMath_Loge 16 = 1453635 / 524288" by (simp add: FMath_Loge_def l)
  have "f32 (1453635 / 524288 * (12102203 / 8388608)) =
          of_int (RoundTiesToEven (1453635 / 524288 * (12102203 / 8388608) * 8388608 / (2))) * (2) / 8388608"
    by (rule f32_binade[where e = "1"]) (simp_all add: powr_minus)
  moreover have "RoundTiesToEven (1453635 / 524288 * (12102203 / 8388608) * 8388608 / (2)) = 16777216"
    by (rule RoundTiesToEven_eq) simp_all
  ultimately show ?thesis by (simp add: FMath_Log2_def a LogToLog2_value)
qed

lemma FMath_Log2_32: "FMath_Log2 32 = 5"
proof -
  have l: "ln (32::real) = 5 * ln 2" using ln_realpow[of 2 5] by simp
  have "f32 (5 * ln 2) = of_int 14536350 * (2) / 8388608"
  proof (rule f32_interval[where e = "1" and lo = "5 * (693147180 / 1000000000)"
                              and hi = "5 * (693147181 / 1000000000)"])
    show "(2 :: real) = 2 powr of_int (1)" by (simp add: powr_minus)
    show "5 * (693147180 / 1000000000) \<le> 5 * ln (2::real)" using ln2_bounds(1) by simp
    show "5 * ln (2::real) \<le> 5 * (693147181 / 1000000000)" using ln2_bounds(2) by simp
  qed simp_all
  then have a: "FMath_Loge 32 = 7268175 / 2097152" by (simp add: FMath_Loge_def l)
  have "f32 (7268175 / 2097152 * (12102203 / 8388608)) =
          of_int (RoundTiesToEven (7268175 / 2097152 * (12102203 / 8388608) * 8388608 / (4))) * (4) / 8388608"
    by (rule f32_binade[where e = "2"]) (simp_all add: powr_minus)
  moreover have "RoundTiesToEven (7268175 / 2097152 * (12102203 / 8388608) * 8388608 / (4)) = 10485760"
    by (rule RoundTiesToEven_eq) simp_all
  ultimately show ?thesis by (simp add: FMath_Log2_def a LogToLog2_value)
qed

lemma FMath_Log2_64: "FMath_Log2 64 = 6"
proof -
  have l: "ln (64::real) = 6 * ln 2" using ln_realpow[of 2 6] by simp
  have "f32 (6 * ln 2) = of_int 8721810 * (4) / 8388608"
  proof (rule f32_interval[where e = "2" and lo = "6 * (693147180 / 1000000000)"
                              and hi = "6 * (693147181 / 1000000000)"])
    show "(4 :: real) = 2 powr of_int (2)" by (simp add: powr_minus)
    show "6 * (693147180 / 1000000000) \<le> 6 * ln (2::real)" using ln2_bounds(1) by simp
    show "6 * ln (2::real) \<le> 6 * (693147181 / 1000000000)" using ln2_bounds(2) by simp
  qed simp_all
  then have a: "FMath_Loge 64 = 4360905 / 1048576" by (simp add: FMath_Loge_def l)
  have "f32 (4360905 / 1048576 * (12102203 / 8388608)) =
          of_int (RoundTiesToEven (4360905 / 1048576 * (12102203 / 8388608) * 8388608 / (4))) * (4) / 8388608"
    by (rule f32_binade[where e = "2"]) (simp_all add: powr_minus)
  moreover have "RoundTiesToEven (4360905 / 1048576 * (12102203 / 8388608) * 8388608 / (4)) = 12582912"
    by (rule RoundTiesToEven_eq) simp_all
  ultimately show ?thesis by (simp add: FMath_Log2_def a LogToLog2_value)
qed

lemma FMath_Log2_128: "FMath_Log2 128 = 7"
proof -
  have l: "ln (128::real) = 7 * ln 2" using ln_realpow[of 2 7] by simp
  have "f32 (7 * ln 2) = of_int 10175445 * (4) / 8388608"
  proof (rule f32_interval[where e = "2" and lo = "7 * (693147180 / 1000000000)"
                              and hi = "7 * (693147181 / 1000000000)"])
    show "(4 :: real) = 2 powr of_int (2)" by (simp add: powr_minus)
    show "7 * (693147180 / 1000000000) \<le> 7 * ln (2::real)" using ln2_bounds(1) by simp
    show "7 * ln (2::real) \<le> 7 * (693147181 / 1000000000)" using ln2_bounds(2) by simp
  qed simp_all
  then have a: "FMath_Loge 128 = 10175445 / 2097152" by (simp add: FMath_Loge_def l)
  have "f32 (10175445 / 2097152 * (12102203 / 8388608)) =
          of_int (RoundTiesToEven (10175445 / 2097152 * (12102203 / 8388608) * 8388608 / (4))) * (4) / 8388608"
    by (rule f32_binade[where e = "2"]) (simp_all add: powr_minus)
  moreover have "RoundTiesToEven (10175445 / 2097152 * (12102203 / 8388608) * 8388608 / (4)) = 14680064"
    by (rule RoundTiesToEven_eq) simp_all
  ultimately show ?thesis by (simp add: FMath_Log2_def a LogToLog2_value)
qed

lemma FMath_Log2_256: "FMath_Log2 256 = 8"
proof -
  have l: "ln (256::real) = 8 * ln 2" using ln_realpow[of 2 8] by simp
  have "f32 (8 * ln 2) = of_int 11629080 * (4) / 8388608"
  proof (rule f32_interval[where e = "2" and lo = "8 * (693147180 / 1000000000)"
                              and hi = "8 * (693147181 / 1000000000)"])
    show "(4 :: real) = 2 powr of_int (2)" by (simp add: powr_minus)
    show "8 * (693147180 / 1000000000) \<le> 8 * ln (2::real)" using ln2_bounds(1) by simp
    show "8 * ln (2::real) \<le> 8 * (693147181 / 1000000000)" using ln2_bounds(2) by simp
  qed simp_all
  then have a: "FMath_Loge 256 = 1453635 / 262144" by (simp add: FMath_Loge_def l)
  have "f32 (1453635 / 262144 * (12102203 / 8388608)) =
          of_int (RoundTiesToEven (1453635 / 262144 * (12102203 / 8388608) * 8388608 / (4))) * (4) / 8388608"
    by (rule f32_binade[where e = "2"]) (simp_all add: powr_minus)
  moreover have "RoundTiesToEven (1453635 / 262144 * (12102203 / 8388608) * 8388608 / (4)) = 16777216"
    by (rule RoundTiesToEven_eq) simp_all
  ultimately show ?thesis by (simp add: FMath_Log2_def a LogToLog2_value)
qed

lemma FMath_Log2_512: "FMath_Log2 512 = 9"
proof -
  have l: "ln (512::real) = 9 * ln 2" using ln_realpow[of 2 9] by simp
  have "f32 (9 * ln 2) = of_int 13082715 * (4) / 8388608"
  proof (rule f32_interval[where e = "2" and lo = "9 * (693147180 / 1000000000)"
                              and hi = "9 * (693147181 / 1000000000)"])
    show "(4 :: real) = 2 powr of_int (2)" by (simp add: powr_minus)
    show "9 * (693147180 / 1000000000) \<le> 9 * ln (2::real)" using ln2_bounds(1) by simp
    show "9 * ln (2::real) \<le> 9 * (693147181 / 1000000000)" using ln2_bounds(2) by simp
  qed simp_all
  then have a: "FMath_Loge 512 = 13082715 / 2097152" by (simp add: FMath_Loge_def l)
  have "f32 (13082715 / 2097152 * (12102203 / 8388608)) =
          of_int (RoundTiesToEven (13082715 / 2097152 * (12102203 / 8388608) * 8388608 / (8))) * (8) / 8388608"
    by (rule f32_binade[where e = "3"]) (simp_all add: powr_minus)
  moreover have "RoundTiesToEven (13082715 / 2097152 * (12102203 / 8388608) * 8388608 / (8)) = 9437184"
    by (rule RoundTiesToEven_eq) simp_all
  ultimately show ?thesis by (simp add: FMath_Log2_def a LogToLog2_value)
qed

lemma FMath_Log2_1024: "FMath_Log2 1024 = 10"
proof -
  have l: "ln (1024::real) = 10 * ln 2" using ln_realpow[of 2 10] by simp
  have "f32 (10 * ln 2) = of_int 14536350 * (4) / 8388608"
  proof (rule f32_interval[where e = "2" and lo = "10 * (693147180 / 1000000000)"
                              and hi = "10 * (693147181 / 1000000000)"])
    show "(4 :: real) = 2 powr of_int (2)" by (simp add: powr_minus)
    show "10 * (693147180 / 1000000000) \<le> 10 * ln (2::real)" using ln2_bounds(1) by simp
    show "10 * ln (2::real) \<le> 10 * (693147181 / 1000000000)" using ln2_bounds(2) by simp
  qed simp_all
  then have a: "FMath_Loge 1024 = 7268175 / 1048576" by (simp add: FMath_Loge_def l)
  have "f32 (7268175 / 1048576 * (12102203 / 8388608)) =
          of_int (RoundTiesToEven (7268175 / 1048576 * (12102203 / 8388608) * 8388608 / (8))) * (8) / 8388608"
    by (rule f32_binade[where e = "3"]) (simp_all add: powr_minus)
  moreover have "RoundTiesToEven (7268175 / 1048576 * (12102203 / 8388608) * 8388608 / (8)) = 10485760"
    by (rule RoundTiesToEven_eq) simp_all
  ultimately show ?thesis by (simp add: FMath_Log2_def a LogToLog2_value)
qed

lemma FMath_Log2_2048: "FMath_Log2 2048 = 11"
proof -
  have l: "ln (2048::real) = 11 * ln 2" using ln_realpow[of 2 11] by simp
  have "f32 (11 * ln 2) = of_int 15989985 * (4) / 8388608"
  proof (rule f32_interval[where e = "2" and lo = "11 * (693147180 / 1000000000)"
                              and hi = "11 * (693147181 / 1000000000)"])
    show "(4 :: real) = 2 powr of_int (2)" by (simp add: powr_minus)
    show "11 * (693147180 / 1000000000) \<le> 11 * ln (2::real)" using ln2_bounds(1) by simp
    show "11 * ln (2::real) \<le> 11 * (693147181 / 1000000000)" using ln2_bounds(2) by simp
  qed simp_all
  then have a: "FMath_Loge 2048 = 15989985 / 2097152" by (simp add: FMath_Loge_def l)
  have "f32 (15989985 / 2097152 * (12102203 / 8388608)) =
          of_int (RoundTiesToEven (15989985 / 2097152 * (12102203 / 8388608) * 8388608 / (8))) * (8) / 8388608"
    by (rule f32_binade[where e = "3"]) (simp_all add: powr_minus)
  moreover have "RoundTiesToEven (15989985 / 2097152 * (12102203 / 8388608) * 8388608 / (8)) = 11534336"
    by (rule RoundTiesToEven_eq) simp_all
  ultimately show ?thesis by (simp add: FMath_Log2_def a LogToLog2_value)
qed

lemma FMath_Log2_4096: "FMath_Log2 4096 = 12"
proof -
  have l: "ln (4096::real) = 12 * ln 2" using ln_realpow[of 2 12] by simp
  have "f32 (12 * ln 2) = of_int 8721810 * (8) / 8388608"
  proof (rule f32_interval[where e = "3" and lo = "12 * (693147180 / 1000000000)"
                              and hi = "12 * (693147181 / 1000000000)"])
    show "(8 :: real) = 2 powr of_int (3)" by (simp add: powr_minus)
    show "12 * (693147180 / 1000000000) \<le> 12 * ln (2::real)" using ln2_bounds(1) by simp
    show "12 * ln (2::real) \<le> 12 * (693147181 / 1000000000)" using ln2_bounds(2) by simp
  qed simp_all
  then have a: "FMath_Loge 4096 = 4360905 / 524288" by (simp add: FMath_Loge_def l)
  have "f32 (4360905 / 524288 * (12102203 / 8388608)) =
          of_int (RoundTiesToEven (4360905 / 524288 * (12102203 / 8388608) * 8388608 / (8))) * (8) / 8388608"
    by (rule f32_binade[where e = "3"]) (simp_all add: powr_minus)
  moreover have "RoundTiesToEven (4360905 / 524288 * (12102203 / 8388608) * 8388608 / (8)) = 12582912"
    by (rule RoundTiesToEven_eq) simp_all
  ultimately show ?thesis by (simp add: FMath_Log2_def a LogToLog2_value)
qed

lemma FMath_Log2_8192: "FMath_Log2 8192 = 13631487 / 1048576"
proof -
  have l: "ln (8192::real) = 13 * ln 2" using ln_realpow[of 2 13] by simp
  have "f32 (13 * ln 2) = of_int 9448627 * (8) / 8388608"
  proof (rule f32_interval[where e = "3" and lo = "13 * (693147180 / 1000000000)"
                              and hi = "13 * (693147181 / 1000000000)"])
    show "(8 :: real) = 2 powr of_int (3)" by (simp add: powr_minus)
    show "13 * (693147180 / 1000000000) \<le> 13 * ln (2::real)" using ln2_bounds(1) by simp
    show "13 * ln (2::real) \<le> 13 * (693147181 / 1000000000)" using ln2_bounds(2) by simp
  qed simp_all
  then have a: "FMath_Loge 8192 = 9448627 / 1048576" by (simp add: FMath_Loge_def l)
  have "f32 (9448627 / 1048576 * (12102203 / 8388608)) =
          of_int (RoundTiesToEven (9448627 / 1048576 * (12102203 / 8388608) * 8388608 / (8))) * (8) / 8388608"
    by (rule f32_binade[where e = "3"]) (simp_all add: powr_minus)
  moreover have "RoundTiesToEven (9448627 / 1048576 * (12102203 / 8388608) * 8388608 / (8)) = 13631487"
    by (rule RoundTiesToEven_eq) simp_all
  ultimately show ?thesis by (simp add: FMath_Log2_def a LogToLog2_value)
qed

lemma FMath_Log2_16384: "FMath_Log2 16384 = 14"
proof -
  have l: "ln (16384::real) = 14 * ln 2" using ln_realpow[of 2 14] by simp
  have "f32 (14 * ln 2) = of_int 10175445 * (8) / 8388608"
  proof (rule f32_interval[where e = "3" and lo = "14 * (693147180 / 1000000000)"
                              and hi = "14 * (693147181 / 1000000000)"])
    show "(8 :: real) = 2 powr of_int (3)" by (simp add: powr_minus)
    show "14 * (693147180 / 1000000000) \<le> 14 * ln (2::real)" using ln2_bounds(1) by simp
    show "14 * ln (2::real) \<le> 14 * (693147181 / 1000000000)" using ln2_bounds(2) by simp
  qed simp_all
  then have a: "FMath_Loge 16384 = 10175445 / 1048576" by (simp add: FMath_Loge_def l)
  have "f32 (10175445 / 1048576 * (12102203 / 8388608)) =
          of_int (RoundTiesToEven (10175445 / 1048576 * (12102203 / 8388608) * 8388608 / (8))) * (8) / 8388608"
    by (rule f32_binade[where e = "3"]) (simp_all add: powr_minus)
  moreover have "RoundTiesToEven (10175445 / 1048576 * (12102203 / 8388608) * 8388608 / (8)) = 14680064"
    by (rule RoundTiesToEven_eq) simp_all
  ultimately show ?thesis by (simp add: FMath_Log2_def a LogToLog2_value)
qed

lemma FMath_Log2_32768: "FMath_Log2 32768 = 15728639 / 1048576"
proof -
  have l: "ln (32768::real) = 15 * ln 2" using ln_realpow[of 2 15] by simp
  have "f32 (15 * ln 2) = of_int 10902262 * (8) / 8388608"
  proof (rule f32_interval[where e = "3" and lo = "15 * (693147180 / 1000000000)"
                              and hi = "15 * (693147181 / 1000000000)"])
    show "(8 :: real) = 2 powr of_int (3)" by (simp add: powr_minus)
    show "15 * (693147180 / 1000000000) \<le> 15 * ln (2::real)" using ln2_bounds(1) by simp
    show "15 * ln (2::real) \<le> 15 * (693147181 / 1000000000)" using ln2_bounds(2) by simp
  qed simp_all
  then have a: "FMath_Loge 32768 = 5451131 / 524288" by (simp add: FMath_Loge_def l)
  have "f32 (5451131 / 524288 * (12102203 / 8388608)) =
          of_int (RoundTiesToEven (5451131 / 524288 * (12102203 / 8388608) * 8388608 / (8))) * (8) / 8388608"
    by (rule f32_binade[where e = "3"]) (simp_all add: powr_minus)
  moreover have "RoundTiesToEven (5451131 / 524288 * (12102203 / 8388608) * 8388608 / (8)) = 15728639"
    by (rule RoundTiesToEven_eq) simp_all
  ultimately show ?thesis by (simp add: FMath_Log2_def a LogToLog2_value)
qed

lemma FMath_Log2_1: "FMath_Log2 1 = 0"
  by (simp add: FMath_Log2_def FMath_Loge_def f32_def)

lemmas FMath_Log2_table =
  FMath_Log2_1 FMath_Log2_2 FMath_Log2_4 FMath_Log2_8 FMath_Log2_16 FMath_Log2_32 FMath_Log2_64 FMath_Log2_128 FMath_Log2_256 FMath_Log2_512 FMath_Log2_1024 FMath_Log2_2048 FMath_Log2_4096 FMath_Log2_8192 FMath_Log2_16384 FMath_Log2_32768

lemma FloatToInt32_nonneg: "0 \<le> x \<Longrightarrow> x < 2147483648 \<Longrightarrow> FloatToInt32 x = Inr \<lfloor>x\<rfloor>"
  by (simp add: FloatToInt32_def)

lemma FloatToInt32_above: "2147483648 \<le> x \<Longrightarrow> FloatToInt32 x = Inl FloatToIntOutOfRange"
  by (simp add: FloatToInt32_def)

lemma TreeDepth_float:
  assumes "k \<le> 15"
  shows "FloatToInt32 (FMath_Log2 (2 ^ k)) = Inr (int (if k = 13 \<or> k = 15 then k - 1 else k))"
proof -
  consider "k = 0" | "k = 1" | "k = 2" | "k = 3" | "k = 4" | "k = 5" | "k = 6" | "k = 7" | "k = 8" | "k = 9" | "k = 10" | "k = 11" | "k = 12" | "k = 13" | "k = 14" | "k = 15"
    using assms by atomize_elim arith
  then show ?thesis
    by cases (simp_all add: FloatToInt32_nonneg FMath_Log2_table)
qed

lemma Slack_float: "f32 (f32 (f32 (2 ^ k * 2 ^ k) * 4) / 3) = 11184811 * 4 ^ k / 8388608"
proof -
  have sq: "(2::real) ^ k * 2 ^ k = 2 ^ (2 * k)" by (simp add: power_add[symmetric] mult_2)
  have a: "f32 ((2::real) ^ k * 2 ^ k) = 2 ^ (2 * k)" unfolding sq by (rule f32_pow2)
  have e: "(2::real) ^ (2 * k) * 4 = 2 ^ (2 * k + 2)" by simp
  have b: "f32 ((2::real) ^ (2 * k) * 4) = 2 ^ (2 * k + 2)" unfolding e by (rule f32_pow2)
  note B = pow2_powr[of "2 * k"]
  have f: "f32 (2 ^ (2 * k + 2) / 3) =
          of_int (RoundTiesToEven (2 ^ (2 * k + 2) / 3 * 8388608 / 2 ^ (2 * k))) * 2 ^ (2 * k) / 8388608"
    by (rule f32_binade[OF B]) simp_all
  have q: "(2::real) ^ (2 * k + 2) / 3 * 8388608 / 2 ^ (2 * k) = 33554432 / 3" by simp
  have r: "RoundTiesToEven (33554432 / 3) = 11184811" by (rule RoundTiesToEven_eq) simp_all
  have c: "f32 (2 ^ (2 * k + 2) / 3) = of_int 11184811 * 2 ^ (2 * k) / 8388608"
    using f by (simp only: q r)
  have "f32 (f32 (f32 (2 ^ k * 2 ^ k) * 4) / 3) = of_int 11184811 * 2 ^ (2 * k) / 8388608"
    by (simp only: a b c)
  also have "\<dots> = 11184811 * 4 ^ k / 8388608" by (simp add: power_mult)
  finally show ?thesis .
qed

lemma Slack_in_range:
  assumes "k \<le> 15"
  shows "FloatToInt32 (11184811 * 4 ^ k / 8388608) = Inr \<lfloor>11184811 * 4 ^ k / 8388608 :: real\<rfloor>"
proof -
  have "(4::real) ^ k \<le> 4 ^ 15" using assms by (intro power_increasing) simp_all
  then have "11184811 * (4::real) ^ k / 8388608 < 2147483648" by simp
  moreover have "0 \<le> 11184811 * (4::real) ^ k / 8388608" by simp
  ultimately show ?thesis by (intro FloatToInt32_nonneg)
qed

lemma Slack_out_of_range:
  assumes "16 \<le> k"
  shows "FloatToInt32 (11184811 * 4 ^ k / 8388608) = Inl FloatToIntOutOfRange"
proof -
  have "(4::real) ^ 16 \<le> 4 ^ k" using assms by (intro power_increasing) simp_all
  then have "2147483648 \<le> 11184811 * (4::real) ^ k / 8388608" by simp
  then show ?thesis by (rule FloatToInt32_above)
qed

lemma InitTree_eval:
  fixes ex ey :: int
  defines "k \<equiv> CeilLogTwo (nat (max (wrap32 (ex * 2)) (wrap32 (ey * 2)) mod 4294967296))"
  shows "InitTree t InBounds InTileSize (ex, ey) =
     (if k \<le> 15 then
        Inr (t\<lparr>MaxLeafCount := wrap32 (wrap32 (ex * ey) * 4),
               LeafSize := InTileSize,
               ExtentInTiles := (ex, ey),
               TileRegion := InBounds,
               NodeData := \<lparr>Nodes = [FNode_default\<lparr>Bounds :=
                                Box (Vec3of (Min2D InBounds) float_max)
                                    (Vec3of (vadd2 (Min2D InBounds) (Vec2 (2 ^ k * InTileSize) (2 ^ k * InTileSize)))
                                            (- float_max))\<rparr>],
                            NodesMax = nat \<lfloor>11184811 * 4 ^ k / 8388608 :: real\<rfloor>,
                            QuadMeshRenderData = [FQuadMeshRenderData_default]\<rparr>,
               TreeDepth := (if k = 13 \<or> k = 15 then k - 1 else k),
               bIsReadOnly := False\<rparr>)
      else Inl FloatToIntOutOfRange)"
proof -
  have rd: "f32 (real (RoundUpToPowerOfTwo (nat (max (wrap32 (ex * 2)) (wrap32 (ey * 2)) mod 4294967296)))) = 2 ^ k"
    by (simp add: RoundUpToPowerOfTwo_def k_def f32_pow2)
  show ?thesis
  proof (cases "k \<le> 15")
    case True
    then show ?thesis
      unfolding InitTree_def Let_def fst_conv snd_conv rd Slack_float
      by (simp add: Slack_in_range TreeDepth_float del: of_nat_diff)
  next
    case False
    then have "16 \<le> k" by simp
    then show ?thesis
      unfolding InitTree_def Let_def fst_conv snd_conv rd Slack_float
      by (simp add: Slack_out_of_range)
  qed
qed

lemma InitTree_Inr:
  assumes "InitTree t InBounds InTileSize InExtentInTiles = Inr t0"
  shows "\<exists>b. Nodes (NodeData t0) = [FNode_default\<lparr>Bounds := b\<rparr>]"
    and "QuadMeshRenderData (NodeData t0) = [FQuadMeshRenderData_default]"
    and "\<not> bIsReadOnly t0"
    and "TileRegion t0 = InBounds"
proof -
  obtain ex ey where e: "InExtentInTiles = (ex, ey)" by (cases InExtentInTiles)
  note ev = InitTree_eval[of t InBounds InTileSize ex ey]
  let ?k = "CeilLogTwo (nat (max (wrap32 (ex * 2)) (wrap32 (ey * 2)) mod 4294967296))"
  have k: "?k \<le> 15" using assms ev unfolding e by (auto split: if_splits)
  have t0: "InitTree t InBounds InTileSize (ex, ey) = Inr t0" using assms e by simp
  show "\<exists>b. Nodes (NodeData t0) = [FNode_default\<lparr>Bounds := b\<rparr>]"
    using t0 k unfolding ev by auto
  show "QuadMeshRenderData (NodeData t0) = [FQuadMeshRenderData_default]"
    using t0 k unfolding ev by auto
  show "\<not> bIsReadOnly t0" using t0 k unfolding ev by auto
  show "TileRegion t0 = InBounds" using t0 k unfolding ev by auto
qed

subsection \<open>The worked example\<close>

lemma CeilLogTwo_2: "CeilLogTwo 2 = 1"
  by code_simp

lemma Example0_init:
  "InitTree EmptyTree (Box2D (Vec2 0 0) (Vec2 64 64)) 32 (1, 1) =
     Inr (ExTree [FNode_default\<lparr>Bounds := Box (Vec3 0 0 float_max) (Vec3 64 64 (- float_max))\<rparr>]
                 [FQuadMeshRenderData_default] False)"
proof -
  have k: "CeilLogTwo (nat (max (wrap32 (1 * 2)) (wrap32 (1 * 2)) mod 4294967296)) = 1"
    by (simp add: wrap32_def CeilLogTwo_2)
  show ?thesis
    unfolding InitTree_eval k
    by (simp add: ExTree_def EmptyTree_def wrap32_def Box_def Box2D_def Vec2_def Vec3_def
          Vec3of_def vadd2_def)
qed

lemma Example0_eq:
  "Example0 = ExTree [FNode_default\<lparr>Bounds := Box (Vec3 0 0 float_max) (Vec3 64 64 (- float_max))\<rparr>]
                     [FQuadMeshRenderData_default] False"
  by (simp add: Example0_def Example0_init)

lemmas example_defs =
  Example0_eq Example1_def Example2_def ExNode_def ExTree_def ExRenderData1_def ExRenderData2_def
  EmptyTree_def AddQuadtreeMeshRenderData_def FNode_default_def
  FQuadMeshRenderData_default_def FBox_ForceInit_def INVALID_PARENT_def float_max_def wrap32_def
  RoundUpToPowerOfTwo_def CeilLogTwo_2 Let_def
  Box_def Box2D_def Vec2_def Vec3_def Vec3of_def XY_def vadd2_def vmul2_def vscale2_def GetSize_def

lemmas insert_defs =
  AddQuadMeshTilesInsideBounds_def AddNodes_visit_def AddNodes_child_def AddNodes_merge_def
  AddNodes_ChildBounds_def IntersectXY_def HalfOffsets_def CanMerge_def

lemmas unlock_defs =
  Unlock_def Unlock_step_def SwapRemove_def IsSubtreeSameWaterBody_def upt_rec

lemma Example1_eq: "Example1 = ExTree [FNode_default\<lparr>Bounds := Box (Vec3 0 0 float_max) (Vec3 64 64 (- float_max))\<rparr>] ExRenderData1 False"
  by (simp add: example_defs)

lemma Example2_eq: "Example2 = ExTree [FNode_default\<lparr>Bounds := Box (Vec3 0 0 float_max) (Vec3 64 64 (- float_max))\<rparr>] ExRenderData2 False"
  by (simp add: example_defs)

lemma ExFull_built:
  "AddQuadMeshTilesInsideBounds Example1 (Box (Vec3 0 0 0) (Vec3 64 64 10)) 1 =
     Inr (ExTree ExFullNodes ExRenderData1 False)"
  by (simp add: example_defs insert_defs ExFullNodes_def)

lemma ExFull_pruned:
  "Unlock (ExTree ExFullNodes ExRenderData1 False) True = Inr (ExTree ExFullPrunedNodes ExRenderData1 True)"
  by (simp add: example_defs unlock_defs ExFullNodes_def ExFullPrunedNodes_def)

lemma ExFull_unpruned:
  "Unlock (ExTree ExFullNodes ExRenderData1 False) False = Inr (ExTree ExFullNodes ExRenderData1 True)"
  by (simp add: example_defs unlock_defs ExFullNodes_def)

lemma ExSmall_built:
  "AddQuadMeshTilesInsideBounds Example1 (Box (Vec3 4 4 0) (Vec3 20 20 10)) 1 =
     Inr (ExTree ExSmallNodes ExRenderData1 False)"
  by (simp add: example_defs insert_defs ExSmallNodes_def)

lemma ExSmall_pruned:
  "Unlock (ExTree ExSmallNodes ExRenderData1 False) True = Inr (ExTree ExSmallNodes ExRenderData1 True)"
  by (simp add: example_defs unlock_defs ExSmallNodes_def)

lemma ExLeft_built:
  "AddQuadMeshTilesInsideBounds Example2 (Box (Vec3 4 4 0) (Vec3 20 60 10)) 1 =
     Inr (ExTree ExLeftNodes ExRenderData2 False)"
  by (simp add: example_defs insert_defs ExLeftNodes_def)

lemma ExTwo_built:
  "AddQuadMeshTilesInsideBounds (ExTree ExLeftNodes ExRenderData2 False)
     (Box (Vec3 40 4 0) (Vec3 60 60 10)) 2 =
     Inr (ExTree ExTwoNodes ExRenderData2 False)"
  by (simp add: example_defs insert_defs ExLeftNodes_def ExTwoNodes_def)

lemma ExTwo_pruned:
  "Unlock (ExTree ExTwoNodes ExRenderData2 False) True = Inr (ExTree ExTwoNodes ExRenderData2 True)"
  by (simp add: example_defs unlock_defs ExTwoNodes_def)

lemma ExTwo_indexed:
  "BuildMaterialIndices Some (ExTree ExTwoNodes ExRenderData2 True) =
     Inr ((ExTree ExTwoNodes ExRenderData2Indexed True)\<lparr>QuadMeshMaterials := [7, 8]\<rparr>)"
  by (simp add: example_defs BuildMaterialIndices_def GetMatIdx_def ExRenderData2Indexed_def)

subsection \<open>Initialisation\<close>

lemma takeWhile_upt_len_P:
  assumes "j < length (takeWhile P [0..<m])"
  shows "P j"
proof -
  have "takeWhile P [0..<m] ! j = [0..<m] ! j"
    using assms by (rule takeWhile_nth)
  moreover have "j < m"
    using assms length_takeWhile_le[of P "[0..<m]"] by simp
  moreover have "P (takeWhile P [0..<m] ! j)"
    using assms nth_mem set_takeWhileD by metis
  ultimately show ?thesis by simp
qed

lemma takeWhile_upt_len_stop:
  assumes "length (takeWhile P [0..<m]) < m"
  shows "\<not> P (length (takeWhile P [0..<m]))"
  using nth_length_takeWhile[of P "[0..<m]"] assms by simp

lemma CeilLogTwo_below: "k < CeilLogTwo n \<Longrightarrow> 2 ^ k < n"
  unfolding CeilLogTwo_def by (rule takeWhile_upt_len_P)

lemma CeilLogTwo_le31:
  assumes "n \<le> 2 ^ 31"
  shows "CeilLogTwo n \<le> 31"
proof (rule ccontr)
  assume "\<not> CeilLogTwo n \<le> 31"
  then have "31 < CeilLogTwo n" by simp
  then have "(2::nat) ^ 31 < n" by (rule CeilLogTwo_below)
  with assms show False by simp
qed

lemma CeilLogTwo_above:
  assumes "n \<le> 2 ^ 31"
  shows "n \<le> 2 ^ CeilLogTwo n"
proof -
  have "CeilLogTwo n < 32"
    using CeilLogTwo_le31[OF assms] by simp
  then have "\<not> 2 ^ CeilLogTwo n < n"
    unfolding CeilLogTwo_def using takeWhile_upt_len_stop[of "\<lambda>k. 2 ^ k < n" 32] by simp
  then show ?thesis by simp
qed

lemma CeilLogTwo_least:
  assumes "n \<le> 2 ^ k"
  shows "CeilLogTwo n \<le> k"
proof (rule ccontr)
  assume "\<not> CeilLogTwo n \<le> k"
  then have "k < CeilLogTwo n" by simp
  then have "2 ^ k < n" by (rule CeilLogTwo_below)
  with assms show False by simp
qed

lemma wrap32_id: "- 2147483648 \<le> v \<Longrightarrow> v < 2147483648 \<Longrightarrow> wrap32 v = v"
  by (simp add: wrap32_def)

lemma CeilLogTwo_eq:
  assumes "2 ^ k < n" and "n \<le> 2 ^ Suc k" and "k < 31"
  shows "CeilLogTwo n = Suc k"
proof -
  have "CeilLogTwo n \<le> Suc k" using assms(2) by (rule CeilLogTwo_least)
  moreover have "\<not> CeilLogTwo n \<le> k"
  proof
    assume a: "CeilLogTwo n \<le> k"
    have "(2::nat) ^ Suc k \<le> 2 ^ 31" using assms(3) by (intro power_increasing) simp_all
    then have "n \<le> 2 ^ 31" using assms(2) by simp
    then have "n \<le> 2 ^ CeilLogTwo n" by (rule CeilLogTwo_above)
    also have "\<dots> \<le> 2 ^ k" using a by (intro power_increasing) simp_all
    finally show False using assms(1) by simp
  qed
  ultimately show ?thesis by simp
qed





subsection \<open>Queries on an empty arena\<close>

text \<open>
  C10.  On a tree whose arena is empty, the height query returns "not found" with
  height 0 and the bounds query returns "not found" with the force-initialised box,
  which is marked invalid; neither takes the asserting branch or reads the arena.
\<close>

theorem queries_on_empty_arena:
  "Nodes (NodeData t) = [] \<Longrightarrow>
     QueryTileBaseHeightAtLocation t p = Some (Inr (False, 0)) \<and>
     QueryTileBoundsAtLocation t p = Some (Inr (False, FBox_ForceInit)) \<and>
     \<not> IsValid FBox_ForceInit"
  by (simp add: QueryTileBaseHeightAtLocation_def QueryTileBoundsAtLocation_def GetNodeCount_def
        FBox_ForceInit_def)

theorem queries_on_empty_arena_witness:
  "Nodes (NodeData EmptyTree) = [] \<and>
   QueryTileBaseHeightAtLocation EmptyTree (Vec2 3 4) = Some (Inr (False, 0)) \<and>
   QueryTileBoundsAtLocation EmptyTree (Vec2 3 4) = Some (Inr (False, FBox_ForceInit))"
  using queries_on_empty_arena[of EmptyTree "Vec2 3 4"] by (simp add: EmptyTree_def)

subsection \<open>Virtual children\<close>

lemma lt4: "(i::nat) < 4 \<longleftrightarrow> i = 0 \<or> i = 1 \<or> i = 2 \<or> i = 3"
  by auto

lemma VirtualChildren_nth: "i < 4 \<Longrightarrow> VirtualChildren n ! i = VirtualChild n i"
  by (auto simp: lt4 VirtualChildren_def)

lemma VirtualChild_ContainsXY:
  "i < 4 \<Longrightarrow> ContainsXY (Bounds (VirtualChild n i)) p \<longleftrightarrow>
     (let lx = X (BoxMin (Bounds n)); ly = Y (BoxMin (Bounds n));
          hx = (X (BoxMax (Bounds n)) - lx) / 2; hy = (Y (BoxMax (Bounds n)) - ly) / 2;
          ox = real (i mod 2); oy = real (i div 2)
      in lx + hx * ox \<le> X p \<and> X p < lx + hx * ox + hx \<and> ly + hy * oy \<le> Y p \<and> Y p < ly + hy * oy + hy)"
  by (auto simp: lt4 VirtualChild_def ContainsXY_def GetExtent_def Box_def Vec3_def vadd_def vmul_def
        HalfOffsets3_def Let_def field_simps)

lemma quadrant_partition:
  "ContainsXY (Bounds n) p \<longleftrightarrow> (\<exists>!i. i < 4 \<and> ContainsXY (Bounds (VirtualChildren n ! i)) p)"
proof -
  define lx where "lx = X (BoxMin (Bounds n))"
  define ly where "ly = Y (BoxMin (Bounds n))"
  define hx where "hx = (X (BoxMax (Bounds n)) - lx) / 2"
  define hy where "hy = (Y (BoxMax (Bounds n)) - ly) / 2"
  define X0 where "X0 \<longleftrightarrow> lx \<le> X p \<and> X p < lx + hx"
  define X1 where "X1 \<longleftrightarrow> lx + hx \<le> X p \<and> X p < lx + hx + hx"
  define Y0 where "Y0 \<longleftrightarrow> ly \<le> Y p \<and> Y p < ly + hy"
  define Y1 where "Y1 \<longleftrightarrow> ly + hy \<le> Y p \<and> Y p < ly + hy + hy"
  have c: "ContainsXY (Bounds (VirtualChildren n ! 0)) p \<longleftrightarrow> X0 \<and> Y0"
          "ContainsXY (Bounds (VirtualChildren n ! 1)) p \<longleftrightarrow> X1 \<and> Y0"
          "ContainsXY (Bounds (VirtualChildren n ! 2)) p \<longleftrightarrow> X0 \<and> Y1"
          "ContainsXY (Bounds (VirtualChildren n ! 3)) p \<longleftrightarrow> X1 \<and> Y1"
    by (simp_all add: VirtualChildren_nth VirtualChild_ContainsXY Let_def X0_def X1_def Y0_def Y1_def
          lx_def ly_def hx_def hy_def; argo)+
  have par: "ContainsXY (Bounds n) p \<longleftrightarrow> (X0 \<or> X1) \<and> (Y0 \<or> Y1)"
    unfolding ContainsXY_def X0_def X1_def Y0_def Y1_def hx_def hy_def lx_def ly_def
    by (auto simp: field_simps)
  have ex: "\<not> (X0 \<and> X1)" "\<not> (Y0 \<and> Y1)"
    unfolding X0_def X1_def Y0_def Y1_def by auto
  show ?thesis
  proof
    assume "ContainsXY (Bounds n) p"
    then have "(X0 \<or> X1) \<and> (Y0 \<or> Y1)" using par by simp
    then consider "X0 \<and> Y0" | "X1 \<and> Y0" | "X0 \<and> Y1" | "X1 \<and> Y1" by blast
    then obtain i where i: "i < 4" "ContainsXY (Bounds (VirtualChildren n ! i)) p"
    proof cases
      case 1 then show ?thesis using c(1) that[of 0] by simp
    next
      case 2 then show ?thesis using c(2) that[of 1] by simp
    next
      case 3 then show ?thesis using c(3) that[of 2] by simp
    next
      case 4 then show ?thesis using c(4) that[of 3] by simp
    qed
    moreover have "j = i" if "j < 4" "ContainsXY (Bounds (VirtualChildren n ! j)) p" for j
      using that i c ex unfolding lt4 by auto
    ultimately show "\<exists>!i. i < 4 \<and> ContainsXY (Bounds (VirtualChildren n ! i)) p" by blast
  next
    assume "\<exists>!i. i < 4 \<and> ContainsXY (Bounds (VirtualChildren n ! i)) p"
    then obtain i where "i < 4" "ContainsXY (Bounds (VirtualChildren n ! i)) p" by blast
    then show "ContainsXY (Bounds n) p" using c par unfolding lt4 by auto
  qed
qed

lemma VirtualChild_halving:
  "i < 4 \<Longrightarrow>
   XY (BoxMin (Bounds (VirtualChild n i))) =
     XY (BoxMin (AddNodes_ChildBounds (Bounds n) (vscale2 (XY (GetSize (Bounds n))) 0.5) qb i)) \<and>
   XY (BoxMax (Bounds (VirtualChild n i))) =
     XY (BoxMax (AddNodes_ChildBounds (Bounds n) (vscale2 (XY (GetSize (Bounds n))) 0.5) qb i))"
  by (auto simp: lt4 VirtualChild_def AddNodes_ChildBounds_def GetExtent_def GetSize_def Box_def Vec3_def
        Vec2_def Vec3of_def XY_def vadd_def vmul_def vadd2_def vmul2_def vscale2_def HalfOffsets3_def
        HalfOffsets_def Let_def)

lemma VirtualChild_fields:
  "QuadMeshIndex (VirtualChild n i) = QuadMeshIndex n \<and>
   TransitionQuadMeshIndex (VirtualChild n i) = TransitionQuadMeshIndex n \<and>
   HasCompleteSubtree (VirtualChild n i) \<and> IsSubtreeSameQuadMesh (VirtualChild n i)"
  by (simp add: VirtualChild_def Let_def)

text \<open>
  C6.  Let a node be complete and identity-uniform, inside the frustum, with a render
  data index in range, at a LOD level other than 0.  When \<open>SelectLOD\<close> reaches its
  last branch (the node is within the distance of its level and of the level below, and
  is not at the lowest LOD), and whenever \<open>SelectLODWithinBounds\<close> passes its
  validity check, the traversal is the loop over the four synthesized children at the
  level below, by the same function, on the same node data.  There are four such
  children; each has the node's render-data and transition index and its two flags; its
  XY box is the one \<open>AddNodes\<close> gives a real child in the same slot; and the four
  XY boxes partition the node's XY box (under the half-open containment test).
\<close>

theorem virtual_child_synthesis:
  assumes "HasCompleteSubtree n" and "IsSubtreeSameQuadMesh n"
    and "QuadMeshIndex n < length (QuadMeshRenderData nd)"
    and "FrustumIntersectBox d (GetCenter (Bounds n)) (GetExtent (Bounds n))"
    and "InLODLevel \<noteq> 0"
  shows
    "(let dist = sqrt (ComputeSquaredDistanceToPoint
                         (Box2D (XY (BoxMin (Bounds n))) (XY (BoxMax (Bounds n))))
                         (XY (ObserverPosition d)))
      in dist \<le> LODDistance d InLODLevel \<and> dist \<le> LODDistance d (InLODLevel - 1) \<and>
         InLODLevel \<noteq> LowestLOD d \<longrightarrow>
         SelectLOD (Suc budget) nd d InLODLevel n out =
           ForEachNode (SelectLOD budget nd d (InLODLevel - 1)) (VirtualChildren n) out) \<and>
     (bIsValid (TessellatedQuadMeshBounds d) \<longrightarrow>
         SelectLODWithinBounds (Suc budget) nd d InLODLevel n out =
           ForEachNode (SelectLODWithinBounds budget nd d (InLODLevel - 1)) (VirtualChildren n) out) \<and>
     length (VirtualChildren n) = 4 \<and>
     (\<forall>i<4. let c = VirtualChildren n ! i
            in QuadMeshIndex c = QuadMeshIndex n \<and>
               TransitionQuadMeshIndex c = TransitionQuadMeshIndex n \<and>
               HasCompleteSubtree c = HasCompleteSubtree n \<and>
               IsSubtreeSameQuadMesh c = IsSubtreeSameQuadMesh n \<and>
               (\<forall>qb. XY (BoxMin (Bounds c)) =
                       XY (BoxMin (AddNodes_ChildBounds (Bounds n) (vscale2 (XY (GetSize (Bounds n))) 0.5) qb i)) \<and>
                     XY (BoxMax (Bounds c)) =
                       XY (BoxMax (AddNodes_ChildBounds (Bounds n) (vscale2 (XY (GetSize (Bounds n))) 0.5) qb i)))) \<and>
     (\<forall>p. ContainsXY (Bounds n) p \<longleftrightarrow> (\<exists>!i. i < 4 \<and> ContainsXY (Bounds (VirtualChildren n ! i)) p))"
proof -
  have A: "let dist = sqrt (ComputeSquaredDistanceToPoint
                         (Box2D (XY (BoxMin (Bounds n))) (XY (BoxMax (Bounds n))))
                         (XY (ObserverPosition d)))
      in dist \<le> LODDistance d InLODLevel \<and> dist \<le> LODDistance d (InLODLevel - 1) \<and>
         InLODLevel \<noteq> LowestLOD d \<longrightarrow>
         SelectLOD (Suc budget) nd d InLODLevel n out =
           ForEachNode (SelectLOD budget nd d (InLODLevel - 1)) (VirtualChildren n) out"
    using assms by (simp add: Let_def not_less[symmetric])
  have B: "bIsValid (TessellatedQuadMeshBounds d) \<longrightarrow>
         SelectLODWithinBounds (Suc budget) nd d InLODLevel n out =
           ForEachNode (SelectLODWithinBounds budget nd d (InLODLevel - 1)) (VirtualChildren n) out"
    using assms by (simp add: Let_def)
  have C: "length (VirtualChildren n) = 4" by (simp add: VirtualChildren_def)
  have D: "\<forall>i<4. let c = VirtualChildren n ! i
            in QuadMeshIndex c = QuadMeshIndex n \<and>
               TransitionQuadMeshIndex c = TransitionQuadMeshIndex n \<and>
               HasCompleteSubtree c = HasCompleteSubtree n \<and>
               IsSubtreeSameQuadMesh c = IsSubtreeSameQuadMesh n \<and>
               (\<forall>qb. XY (BoxMin (Bounds c)) =
                       XY (BoxMin (AddNodes_ChildBounds (Bounds n) (vscale2 (XY (GetSize (Bounds n))) 0.5) qb i)) \<and>
                     XY (BoxMax (Bounds c)) =
                       XY (BoxMax (AddNodes_ChildBounds (Bounds n) (vscale2 (XY (GetSize (Bounds n))) 0.5) qb i)))"
    using assms(1,2) VirtualChild_fields[of n] VirtualChild_halving[of _ n]
    by (simp add: VirtualChildren_nth Let_def)
  have E: "\<forall>p. ContainsXY (Bounds n) p \<longleftrightarrow> (\<exists>!i. i < 4 \<and> ContainsXY (Bounds (VirtualChildren n ! i)) p)"
    using quadrant_partition by blast
  show ?thesis using A B C D E by blast
qed

text \<open>
  On the pruned full tree of the example, at LOD level 1: the root has no children in
  the arena, and the traversal emits four instances, one per synthesized quadrant.
\<close>

theorem virtual_child_synthesis_witness:
  "HasCompleteSubtree (ExFullPrunedNodes ! 0) \<and> IsSubtreeSameQuadMesh (ExFullPrunedNodes ! 0) \<and>
   Children (ExFullPrunedNodes ! 0) = [0, 0, 0, 0] \<and>
   SelectLOD (Suc (Suc 0)) (NodeData (ExTree ExFullPrunedNodes ExRenderData1 True)) ExDesc 1
       (ExFullPrunedNodes ! 0) ExOut =
     ForEachNode (SelectLOD (Suc 0) (NodeData (ExTree ExFullPrunedNodes ExRenderData1 True)) ExDesc 0)
       (VirtualChildren (ExFullPrunedNodes ! 0)) ExOut \<and>
   map_option (map_sum id InstanceCount)
     (SelectLOD (Suc (Suc 0)) (NodeData (ExTree ExFullPrunedNodes ExRenderData1 True)) ExDesc 1
        (ExFullPrunedNodes ! 0) ExOut) = Some (Inr 4) \<and>
   map_option (map_sum id InstanceCount)
     (SelectLODWithinBounds (Suc (Suc 0)) (NodeData (ExTree ExFullPrunedNodes ExRenderData1 True)) ExDesc 1
        (ExFullPrunedNodes ! 0) ExOut) = Some (Inr 4)"
proof -
  let ?n = "ExFullPrunedNodes ! 0"
  let ?nd = "NodeData (ExTree ExFullPrunedNodes ExRenderData1 True)"
  have h1: "HasCompleteSubtree ?n" and h2: "IsSubtreeSameQuadMesh ?n"
    and h0: "Children ?n = [0, 0, 0, 0]"
    by (simp_all add: ExFullPrunedNodes_def ExNode_def)
  have h3: "QuadMeshIndex ?n < length (QuadMeshRenderData ?nd)"
    by (simp add: ExFullPrunedNodes_def ExNode_def ExTree_def ExRenderData1_def)
  have h4: "FrustumIntersectBox ExDesc (GetCenter (Bounds ?n)) (GetExtent (Bounds ?n))"
    by (simp add: ExDesc_def)
  have h5: "(1::int) \<noteq> 0" by simp
  note th = virtual_child_synthesis[OF h1 h2 h3 h4 h5, of "Suc 0" ExOut]
  have dist: "sqrt (ComputeSquaredDistanceToPoint
                (Box2D (XY (BoxMin (Bounds ?n))) (XY (BoxMax (Bounds ?n))))
                (XY (ObserverPosition ExDesc))) = 0"
    by (simp add: ExFullPrunedNodes_def ExNode_def ExDesc_def ComputeSquaredDistanceToPoint_def
          Box_def Box2D_def Vec2_def Vec3_def XY_def Let_def)
  have a: "SelectLOD (Suc (Suc 0)) ?nd ExDesc 1 ?n ExOut =
             ForEachNode (SelectLOD (Suc 0) ?nd ExDesc 0) (VirtualChildren ?n) ExOut"
    using th dist by (simp add: Let_def ExDesc_def)
  have b: "SelectLODWithinBounds (Suc (Suc 0)) ?nd ExDesc 1 ?n ExOut =
             ForEachNode (SelectLODWithinBounds (Suc 0) ?nd ExDesc 0) (VirtualChildren ?n) ExOut"
    using th by (simp add: Let_def ExDesc_def Box2D_def)
  have c: "map_option (map_sum id InstanceCount)
             (ForEachNode (SelectLOD (Suc 0) ?nd ExDesc 0) (VirtualChildren ?n) ExOut) = Some (Inr 4)"
    by (simp add: VirtualChildren_def VirtualChild_def ExFullPrunedNodes_def ExNode_def ExTree_def
          ExRenderData1_def ExDesc_def ExOut_def FNode_default_def ComputeSquaredDistanceToPoint_def
          CanRender_def AddNodeForRender_def GetExtent_def GetCenter_def GetSize_def HalfOffsets3_def
          Box_def Box2D_def Vec2_def Vec3_def XY_def vadd_def vmul_def Let_def)
  have e: "map_option (map_sum id InstanceCount)
             (ForEachNode (SelectLODWithinBounds (Suc 0) ?nd ExDesc 0) (VirtualChildren ?n) ExOut) = Some (Inr 4)"
    by (simp add: VirtualChildren_def VirtualChild_def ExFullPrunedNodes_def ExNode_def ExTree_def
          ExRenderData1_def ExDesc_def ExOut_def FNode_default_def IsInsideOrOn_def
          CanRender_def AddNodeForRender_def GetExtent_def GetCenter_def GetSize_def HalfOffsets3_def
          Box_def Box2D_def Vec2_def Vec3_def XY_def vadd_def vmul_def Let_def)
  show ?thesis using h0 h1 h2 a b c e by simp
qed

subsection \<open>The height query\<close>

lemma FindChildAt_first:
  "k < length cs \<Longrightarrow> cs ! k > 0 \<Longrightarrow> cs ! k < length nodes \<Longrightarrow>
   ContainsXY (Bounds (nodes ! (cs ! k))) p \<Longrightarrow>
   \<forall>j<k. cs ! j = 0 \<or> (cs ! j < length nodes \<and> \<not> ContainsXY (Bounds (nodes ! (cs ! j))) p) \<Longrightarrow>
   FindChildAt nodes cs p = Inr (Some (cs ! k))"
proof (induction cs arbitrary: k)
  case Nil
  then show ?case by simp
next
  case (Cons c cs)
  show ?case
  proof (cases k)
    case 0
    with Cons.prems show ?thesis by simp
  next
    case (Suc k')
    have hd: "c = 0 \<or> (c < length nodes \<and> \<not> ContainsXY (Bounds (nodes ! c)) p)"
      using Cons.prems(5) Suc by (auto dest: spec[of _ 0])
    have tl: "\<forall>j<k'. cs ! j = 0 \<or> (cs ! j < length nodes \<and> \<not> ContainsXY (Bounds (nodes ! (cs ! j))) p)"
      using Cons.prems(5) Suc by (auto dest: spec[of _ "Suc j" for j])
    have "FindChildAt nodes cs p = Inr (Some (cs ! k'))"
      using Cons.IH[of k'] Cons.prems Suc tl by simp
    with hd Suc show ?thesis by auto
  qed
qed

lemma FindChildAt_none:
  "\<forall>c\<in>set cs. c = 0 \<or> (c < length nodes \<and> \<not> ContainsXY (Bounds (nodes ! c)) p) \<Longrightarrow>
   FindChildAt nodes cs p = Inr None"
  by (induction cs) auto

text \<open>
  C7.  On a locked, non-empty tree the height query is the descent from the root.  At a
  node whose render-data index is in range: if the node is complete and
  identity-uniform, the descent returns its base height with "found"; otherwise, if
  slot \<open>k\<close> holds the first live child whose box contains the point (min-inclusive,
  max-exclusive), the descent continues in that child; and if no live child contains the
  point, it returns this node's own base height with "not found".
\<close>

theorem QueryBaseHeight_descent:
  assumes "QuadMeshIndex n < length (QuadMeshRenderData nd)"
  shows
    "(bIsReadOnly t \<and> Nodes (NodeData t) \<noteq> [] \<longrightarrow>
        QueryTileBaseHeightAtLocation t p =
          QueryBaseHeightAtLocation (NodeData t) (Nodes (NodeData t) ! 0) p) \<and>
     (HasCompleteSubtree n \<and> IsSubtreeSameQuadMesh n \<longrightarrow>
        QueryBaseHeightAtLocation nd n p =
          Some (Inr (True, SurfaceBaseHeight (QuadMeshRenderData nd ! QuadMeshIndex n)))) \<and>
     (\<not> (HasCompleteSubtree n \<and> IsSubtreeSameQuadMesh n) \<longrightarrow>
        (\<forall>k<length (Children n).
            0 < Children n ! k \<and> Children n ! k < length (Nodes nd) \<and>
            ContainsXY (Bounds (Nodes nd ! (Children n ! k))) p \<and>
            (\<forall>j<k. Children n ! j = 0 \<or>
                    (Children n ! j < length (Nodes nd) \<and>
                     \<not> ContainsXY (Bounds (Nodes nd ! (Children n ! j))) p)) \<longrightarrow>
            QueryBaseHeightAtLocation nd n p =
              QueryBaseHeightAtLocation nd (Nodes nd ! (Children n ! k)) p) \<and>
        ((\<forall>c\<in>set (Children n). c = 0 \<or>
                (c < length (Nodes nd) \<and> \<not> ContainsXY (Bounds (Nodes nd ! c)) p)) \<longrightarrow>
            QueryBaseHeightAtLocation nd n p =
              Some (Inr (False, SurfaceBaseHeight (QuadMeshRenderData nd ! QuadMeshIndex n)))))"
proof -
  have top: "bIsReadOnly t \<and> Nodes (NodeData t) \<noteq> [] \<longrightarrow>
        QueryTileBaseHeightAtLocation t p =
          QueryBaseHeightAtLocation (NodeData t) (Nodes (NodeData t) ! 0) p"
    by (simp add: QueryTileBaseHeightAtLocation_def GetNodeCount_def)
  have flagged: "HasCompleteSubtree n \<and> IsSubtreeSameQuadMesh n \<longrightarrow>
        QueryBaseHeightAtLocation nd n p =
          Some (Inr (True, SurfaceBaseHeight (QuadMeshRenderData nd ! QuadMeshIndex n)))"
    using assms by (subst QueryBaseHeightAtLocation.simps) (simp add: BaseHeightOf_def)
  have descend: "QueryBaseHeightAtLocation nd n p =
                   QueryBaseHeightAtLocation nd (Nodes nd ! (Children n ! k)) p"
    if "\<not> (HasCompleteSubtree n \<and> IsSubtreeSameQuadMesh n)" "k < length (Children n)"
       "0 < Children n ! k" "Children n ! k < length (Nodes nd)"
       "ContainsXY (Bounds (Nodes nd ! (Children n ! k))) p"
       "\<forall>j<k. Children n ! j = 0 \<or>
                    (Children n ! j < length (Nodes nd) \<and>
                     \<not> ContainsXY (Bounds (Nodes nd ! (Children n ! j))) p)" for k
  proof -
    have "FindChildAt (Nodes nd) (Children n) p = Inr (Some (Children n ! k))"
      using that(2-6) by (rule FindChildAt_first)
    then show ?thesis
      using that(1) by (subst QueryBaseHeightAtLocation.simps) auto
  qed
  have fallback: "QueryBaseHeightAtLocation nd n p =
              Some (Inr (False, SurfaceBaseHeight (QuadMeshRenderData nd ! QuadMeshIndex n)))"
    if "\<not> (HasCompleteSubtree n \<and> IsSubtreeSameQuadMesh n)"
       "\<forall>c\<in>set (Children n). c = 0 \<or>
                (c < length (Nodes nd) \<and> \<not> ContainsXY (Bounds (Nodes nd ! c)) p)"
  proof -
    have "FindChildAt (Nodes nd) (Children n) p = Inr None"
      using that(2) by (rule FindChildAt_none)
    then show ?thesis
      using that(1) assms by (subst QueryBaseHeightAtLocation.simps) (auto simp: BaseHeightOf_def)
  qed
  show ?thesis using top flagged descend fallback by blast
qed

text \<open>
  On the tree with one leaf in the first quadrant: a point in the leaf descends into it
  and is found; a point in another quadrant falls back to the root's height.
\<close>

theorem QueryBaseHeight_descent_witness:
  "QuadMeshIndex (ExSmallNodes ! 0) < length ExRenderData1 \<and>
   \<not> HasCompleteSubtree (ExSmallNodes ! 0) \<and>
   ContainsXY (Bounds (ExSmallNodes ! 1)) (Vec2 10 10) \<and>
   QueryTileBaseHeightAtLocation (ExTree ExSmallNodes ExRenderData1 True) (Vec2 10 10) =
     QueryBaseHeightAtLocation (NodeData (ExTree ExSmallNodes ExRenderData1 True)) (ExSmallNodes ! 1) (Vec2 10 10) \<and>
   QueryTileBaseHeightAtLocation (ExTree ExSmallNodes ExRenderData1 True) (Vec2 10 10) = Some (Inr (True, 5)) \<and>
   QueryTileBaseHeightAtLocation (ExTree ExSmallNodes ExRenderData1 True) (Vec2 40 40) = Some (Inr (False, 5))"
proof -
  let ?t = "ExTree ExSmallNodes ExRenderData1 True"
  let ?nd = "NodeData ?t"
  let ?r = "ExSmallNodes ! 0"
  let ?c = "ExSmallNodes ! 1"
  have nd: "Nodes ?nd = ExSmallNodes" "QuadMeshRenderData ?nd = ExRenderData1"
    "bIsReadOnly ?t" "ExSmallNodes \<noteq> []" "length ExSmallNodes = 2" "length ExRenderData1 = 2"
    by (simp_all add: ExTree_def ExSmallNodes_def ExRenderData1_def)
  have r: "QuadMeshIndex ?r = 1" "\<not> HasCompleteSubtree ?r" "Children ?r = [1, 0, 0, 0]"
    and c: "QuadMeshIndex ?c = 1" "HasCompleteSubtree ?c" "IsSubtreeSameQuadMesh ?c"
    and h: "SurfaceBaseHeight (ExRenderData1 ! 1) = 5"
    and inside: "ContainsXY (Bounds ?c) (Vec2 10 10)"
    and outside: "\<not> ContainsXY (Bounds ?c) (Vec2 40 40)"
    by (simp_all add: ExSmallNodes_def ExNode_def ExRenderData1_def ContainsXY_def Box_def Vec2_def Vec3_def)
  have hr: "QuadMeshIndex ?r < length (QuadMeshRenderData ?nd)"
    and hc: "QuadMeshIndex ?c < length (QuadMeshRenderData ?nd)"
    using nd r c by simp_all
  note root10 = QueryBaseHeight_descent[OF hr, of ?t "Vec2 10 10"]
  note root40 = QueryBaseHeight_descent[OF hr, of ?t "Vec2 40 40"]
  note leaf10 = QueryBaseHeight_descent[OF hc, of ?t "Vec2 10 10"]
  have top10: "QueryTileBaseHeightAtLocation ?t (Vec2 10 10) = QueryBaseHeightAtLocation ?nd ?r (Vec2 10 10)"
    using root10 nd by simp
  have top40: "QueryTileBaseHeightAtLocation ?t (Vec2 40 40) = QueryBaseHeightAtLocation ?nd ?r (Vec2 40 40)"
    using root40 nd by simp
  have step: "QueryBaseHeightAtLocation ?nd ?r (Vec2 10 10) = QueryBaseHeightAtLocation ?nd ?c (Vec2 10 10)"
    using root10 nd r inside by (auto dest!: conjunct2 spec[of _ 0])
  have found: "QueryBaseHeightAtLocation ?nd ?c (Vec2 10 10) = Some (Inr (True, 5))"
    using leaf10 nd c h by simp
  have missed: "QueryBaseHeightAtLocation ?nd ?r (Vec2 40 40) = Some (Inr (False, 5))"
    using root40 nd r h outside by simp
  show ?thesis using nd r inside top10 top40 step found missed by simp
qed

subsection \<open>The interpolated height query\<close>

lemma SampleCorners_four:
  assumes "QueryTileBaseHeightAtLocation t c0 = Some (Inr (f0, h0))"
    and "QueryTileBaseHeightAtLocation t c1 = Some (Inr (f1, h1))"
    and "QueryTileBaseHeightAtLocation t c2 = Some (Inr (f2, h2))"
    and "QueryTileBaseHeightAtLocation t c3 = Some (Inr (f3, h3))"
  shows "SampleCorners t [c0, c1, c2, c3] ([], 0) =
           Some (Inr ([h0, h1, h2, h3], of_bool f0 + of_bool f1 + of_bool f2 + of_bool f3))"
  using assms by simp

lemma of_bool_sum4: "((of_bool f0 + of_bool f1 + of_bool f2 + of_bool f3 :: int) = 4) = (f0 \<and> f1 \<and> f2 \<and> f3)"
  by (cases f0; cases f1; cases f2; cases f3) simp_all

text \<open>
  C8.  Let \<open>g\<close> be the region minimum moved back by half a leaf size in X and Y, and
  \<open>c\<close> the grid point \<open>g + LeafSize * \<lfloor>(p - g) / LeafSize\<rfloor>\<close>.  The four sample
  positions are \<open>c\<close>, \<open>c + (LeafSize, 0)\<close>, \<open>c + (0, LeafSize)\<close> and
  \<open>c + (LeafSize, LeafSize)\<close>; for a positive leaf size they are the corners of the
  grid cell that contains \<open>p\<close>.  When the four height queries return, the interpolated
  query returns the bilinear interpolation of the four heights at the fractional position
  of \<open>p\<close> in the cell, and it reports success exactly when all four samples were found.
\<close>

theorem QueryInterpolated_samples:
  fixes t :: FMeshQuadTree and p :: FVector2D
  defines "L \<equiv> LeafSize t"
  defines "gx \<equiv> X (Min2D (TileRegion t)) - L * 0.5"
  defines "gy \<equiv> Y (Min2D (TileRegion t)) - L * 0.5"
  defines "cx \<equiv> gx + real_of_int \<lfloor>(X p - gx) / L\<rfloor> * L"
  defines "cy \<equiv> gy + real_of_int \<lfloor>(Y p - gy) / L\<rfloor> * L"
  defines "fx \<equiv> frac ((X p - gx) / L)"
  defines "fy \<equiv> frac ((Y p - gy) / L)"
  assumes "QueryTileBaseHeightAtLocation t (Vec2 cx cy) = Some (Inr (f0, h0))"
    and "QueryTileBaseHeightAtLocation t (Vec2 (cx + L) cy) = Some (Inr (f1, h1))"
    and "QueryTileBaseHeightAtLocation t (Vec2 cx (cy + L)) = Some (Inr (f2, h2))"
    and "QueryTileBaseHeightAtLocation t (Vec2 (cx + L) (cy + L)) = Some (Inr (f3, h3))"
  shows "CornerSampleWorldPositions t p =
           [Vec2 cx cy, Vec2 (cx + L) cy, Vec2 cx (cy + L), Vec2 (cx + L) (cy + L)] \<and>
         (0 < L \<longrightarrow> cx \<le> X p \<and> X p < cx + L \<and> cy \<le> Y p \<and> Y p < cy + L) \<and>
         QueryInterpolatedTileBaseHeightAtLocation t p =
           Some (Inr (f0 \<and> f1 \<and> f2 \<and> f3,
                      (1 - fy) * ((1 - fx) * h0 + fx * h1) + fy * ((1 - fx) * h2 + fx * h3)))"
proof -
  have corners: "CornerSampleWorldPositions t p =
           [Vec2 cx cy, Vec2 (cx + L) cy, Vec2 cx (cy + L), Vec2 (cx + L) (cy + L)]"
    by (simp add: CornerSampleWorldPositions_def Let_def vadd2_def vsub2_def vscale2_def Vec2_def
          cx_def cy_def gx_def gy_def L_def algebra_simps)
  have cell: "cx \<le> X p \<and> X p < cx + L \<and> cy \<le> Y p \<and> Y p < cy + L" if "0 < L"
  proof -
    have fl: "real_of_int \<lfloor>a / L\<rfloor> * L \<le> a \<and> a < real_of_int \<lfloor>a / L\<rfloor> * L + L" for a :: real
    proof -
      have "real_of_int \<lfloor>a / L\<rfloor> * L \<le> a / L * L"
        using that by (intro mult_right_mono) simp_all
      moreover have "a / L * L < (real_of_int \<lfloor>a / L\<rfloor> + 1) * L"
        using that by (intro mult_strict_right_mono) linarith+
      moreover have "a / L * L = a" using that by simp
      ultimately have "real_of_int \<lfloor>a / L\<rfloor> * L \<le> a" and "a < (real_of_int \<lfloor>a / L\<rfloor> + 1) * L"
        by simp_all
      then show ?thesis by (simp add: algebra_simps)
    qed
    show ?thesis
      using fl[of "X p - gx"] fl[of "Y p - gy"] unfolding cx_def cy_def by linarith
  qed
  have samples: "SampleCorners t (CornerSampleWorldPositions t p) ([], 0) =
           Some (Inr ([h0, h1, h2, h3], of_bool f0 + of_bool f1 + of_bool f2 + of_bool f3))"
    unfolding corners using assms(8-11) by (rule SampleCorners_four)
  have "QueryInterpolatedTileBaseHeightAtLocation t p =
           Some (Inr (f0 \<and> f1 \<and> f2 \<and> f3, BiLerp h0 h1 h2 h3 fx fy))"
    unfolding QueryInterpolatedTileBaseHeightAtLocation_def Let_def samples
    by (simp add: of_bool_sum4 fx_def fy_def gx_def gy_def L_def vsub2_def Vec2_def)
  moreover have "BiLerp h0 h1 h2 h3 fx fy =
                   (1 - fy) * ((1 - fx) * h0 + fx * h1) + fy * ((1 - fx) * h2 + fx * h3)"
    by (simp add: BiLerp_def Lerp_def algebra_simps)
  ultimately show ?thesis using corners cell by simp
qed

text \<open>
  On the tree with two materials, at \<open>(30, 30)\<close>: the four samples are the centres
  of the four leaf tiles, all found, with heights 5, 9, 5, 9.
\<close>

theorem QueryInterpolated_samples_witness:
  "CornerSampleWorldPositions (ExTree ExTwoNodes ExRenderData2 True) (Vec2 30 30) =
     [Vec2 16 16, Vec2 48 16, Vec2 16 48, Vec2 48 48] \<and>
   map (QueryTileBaseHeightAtLocation (ExTree ExTwoNodes ExRenderData2 True))
     [Vec2 16 16, Vec2 48 16, Vec2 16 48, Vec2 48 48] =
     [Some (Inr (True, 5)), Some (Inr (True, 9)), Some (Inr (True, 5)), Some (Inr (True, 9))] \<and>
   QueryInterpolatedTileBaseHeightAtLocation (ExTree ExTwoNodes ExRenderData2 True) (Vec2 30 30) =
     Some (Inr (True, 27 / 4))"
proof -
  let ?t = "ExTree ExTwoNodes ExRenderData2 True"
  have q: "QueryTileBaseHeightAtLocation ?t (Vec2 16 16) = Some (Inr (True, 5))"
          "QueryTileBaseHeightAtLocation ?t (Vec2 48 16) = Some (Inr (True, 9))"
          "QueryTileBaseHeightAtLocation ?t (Vec2 16 48) = Some (Inr (True, 5))"
          "QueryTileBaseHeightAtLocation ?t (Vec2 48 48) = Some (Inr (True, 9))"
    by (simp_all add: QueryTileBaseHeightAtLocation_def GetNodeCount_def
          QueryBaseHeightAtLocation.simps BaseHeightOf_def ContainsXY_def ExTree_def ExTwoNodes_def
          ExNode_def ExRenderData2_def ExRenderData1_def Box_def Vec2_def Vec3_def)
  have g: "LeafSize ?t = 32" "X (Min2D (TileRegion ?t)) = 0" "Y (Min2D (TileRegion ?t)) = 0"
    by (simp_all add: ExTree_def Box2D_def Vec2_def)
  have fl: "\<lfloor>(46::real) / 32\<rfloor> = 1" by simp
  have x: "X (Vec2 30 30) = 30" "Y (Vec2 30 30) = 30" by (simp_all add: Vec2_def)
  have fr: "frac ((23::real) / 16) = 7 / 16" by (simp add: frac_def)
  show ?thesis
    using QueryInterpolated_samples[of ?t "Vec2 30 30" True 5 True 9 True 5 True 9] q
    by (simp add: g x fl fr)
qed

subsection \<open>The bucket index of an emitted instance\<close>

text \<open>
  C1.  The claim does not hold of the code: \<open>AddNodeForRender\<close> takes the material
  part of the bucket index from a constant 0, not from the render data.  On the tree
  with two materials, after \<open>BuildMaterialIndices\<close> the second material has bucket
  index 1.  The traversal at LOD level 1 emits the four leaves; with two density buckets
  the leaves of the second material belong to bucket \<open>1 * 2 + 0 = 2\<close>, but all four
  instances are stored with bucket index 0 and counted in bucket 0.
\<close>

theorem bucket_index_ignores_material:
  "BuildMaterialIndices Some (ExTree ExTwoNodes ExRenderData2 True) =
     Inr ((ExTree ExTwoNodes ExRenderData2Indexed True)\<lparr>QuadMeshMaterials := [7, 8]\<rparr>) \<and>
   map (\<lambda>c. MaterialIndex (ExRenderData2Indexed ! QuadMeshIndex (ExTwoNodes ! c)) * DensityCount ExDesc
             + min 0 (DensityCount ExDesc - 1))
       (Children (ExTwoNodes ! 0)) = [0, 2, 0, 2] \<and>
   map_option (map_sum id (\<lambda>out. (map BucketIndex (StagingInstanceData out), BucketInstanceCounts out)))
     (SelectLOD (Suc (Suc 0))
        (NodeData ((ExTree ExTwoNodes ExRenderData2Indexed True)\<lparr>QuadMeshMaterials := [7, 8]\<rparr>))
        ExDesc 1 (ExTwoNodes ! 0) ExOut) =
     Some (Inr ([0, 0, 0, 0], [4, 0, 0, 0]))"
proof -
  have a: "BuildMaterialIndices Some (ExTree ExTwoNodes ExRenderData2 True) =
     Inr ((ExTree ExTwoNodes ExRenderData2Indexed True)\<lparr>QuadMeshMaterials := [7, 8]\<rparr>)"
    by (rule ExTwo_indexed)
  have b: "map (\<lambda>c. MaterialIndex (ExRenderData2Indexed ! QuadMeshIndex (ExTwoNodes ! c)) * DensityCount ExDesc
             + min 0 (DensityCount ExDesc - 1))
       (Children (ExTwoNodes ! 0)) = [0, 2, 0, 2]"
    by (simp add: ExTwoNodes_def ExNode_def ExRenderData2Indexed_def ExDesc_def)
  have c: "map_option (map_sum id (\<lambda>out. (map BucketIndex (StagingInstanceData out), BucketInstanceCounts out)))
     (SelectLOD (Suc (Suc 0))
        (NodeData ((ExTree ExTwoNodes ExRenderData2Indexed True)\<lparr>QuadMeshMaterials := [7, 8]\<rparr>))
        ExDesc 1 (ExTwoNodes ! 0) ExOut) =
     Some (Inr ([0, 0, 0, 0], [4, 0, 0, 0]))"
    by (simp add: ExTwoNodes_def ExNode_def ExTree_def ExRenderData2Indexed_def ExDesc_def ExOut_def
          ComputeSquaredDistanceToPoint_def CanRender_def AddNodeForRender_def GetExtent_def
          GetCenter_def GetSize_def Box_def Box2D_def Vec2_def Vec3_def XY_def vadd_def Let_def)
  show ?thesis using a b c by simp
qed

subsection \<open>Pruning and the point queries\<close>

text \<open>
  C4 fails as stated.  One region over the whole root box gives the full tree of five
  nodes.  Locked without pruning, the bounds query at \<open>(10, 10)\<close> returns the leaf
  tile \<open>[0,32] \<times> [0,32]\<close>; locked with pruning, the arena is the root alone and the
  same query returns the root box \<open>[0,64] \<times> [0,64]\<close>.
\<close>

theorem pruning_changes_QueryBounds:
  "AddQuadMeshTilesInsideBounds Example1 (Box (Vec3 0 0 0) (Vec3 64 64 10)) 1 =
     Inr (ExTree ExFullNodes ExRenderData1 False) \<and>
   Unlock (ExTree ExFullNodes ExRenderData1 False) True = Inr (ExTree ExFullPrunedNodes ExRenderData1 True) \<and>
   Unlock (ExTree ExFullNodes ExRenderData1 False) False = Inr (ExTree ExFullNodes ExRenderData1 True) \<and>
   QueryTileBoundsAtLocation (ExTree ExFullPrunedNodes ExRenderData1 True) (Vec2 10 10) =
     Some (Inr (True, Box (Vec3 0 0 0) (Vec3 64 64 10))) \<and>
   QueryTileBoundsAtLocation (ExTree ExFullNodes ExRenderData1 True) (Vec2 10 10) =
     Some (Inr (True, Box (Vec3 0 0 0) (Vec3 32 32 10))) \<and>
   QueryTileBoundsAtLocation (ExTree ExFullPrunedNodes ExRenderData1 True) (Vec2 10 10) \<noteq>
     QueryTileBoundsAtLocation (ExTree ExFullNodes ExRenderData1 True) (Vec2 10 10)"
proof -
  have p: "QueryTileBoundsAtLocation (ExTree ExFullPrunedNodes ExRenderData1 True) (Vec2 10 10) =
     Some (Inr (True, Box (Vec3 0 0 0) (Vec3 64 64 10)))"
    by (simp add: QueryTileBoundsAtLocation_def GetNodeCount_def QueryBoundsAtLocation.simps
          ContainsXY_def ExTree_def ExFullPrunedNodes_def ExNode_def Box_def Vec2_def Vec3_def)
  have u: "QueryTileBoundsAtLocation (ExTree ExFullNodes ExRenderData1 True) (Vec2 10 10) =
     Some (Inr (True, Box (Vec3 0 0 0) (Vec3 32 32 10)))"
    by (simp add: QueryTileBoundsAtLocation_def GetNodeCount_def QueryBoundsAtLocation.simps
          ContainsXY_def ExTree_def ExFullNodes_def ExNode_def Box_def Vec2_def Vec3_def)
  have "Box (Vec3 0 0 0) (Vec3 64 64 10) \<noteq> Box (Vec3 0 0 0) (Vec3 32 32 10)"
    by (simp add: Box_def Vec3_def)
  then show ?thesis
    using ExFull_built ExFull_pruned ExFull_unpruned p u by simp
qed

subsection \<open>Pruning after a single insertion\<close>

text \<open>
  C5 fails as stated.  One region inside the first quadrant creates the root and one
  leaf.  The root's subtree is not complete and the leaf has a material, so neither
  removal rule applies and the pruned arena still has two nodes.
\<close>

theorem single_region_not_collapsed:
  "AddQuadMeshTilesInsideBounds Example1 (Box (Vec3 4 4 0) (Vec3 20 20 10)) 1 =
     Inr (ExTree ExSmallNodes ExRenderData1 False) \<and>
   Unlock (ExTree ExSmallNodes ExRenderData1 False) True = Inr (ExTree ExSmallNodes ExRenderData1 True) \<and>
   length (Nodes (NodeData (ExTree ExSmallNodes ExRenderData1 True))) = 2"
  using ExSmall_built ExSmall_pruned by (simp add: ExTree_def ExSmallNodes_def)

subsection \<open>Counting\<close>

lemma FullTreeNodeCount_closed: "3 * FullTreeNodeCount d + 1 = 4 ^ (d + 1)"
  by (induction d) (simp_all add: FullTreeNodeCount_def)

lemma descend_in_range:
  "descend cs i ps = Some j \<Longrightarrow> i < n \<Longrightarrow> length cs = n \<Longrightarrow>
   (\<forall>i<n. \<forall>s<length (cs ! i). 0 < cs ! i ! s \<longrightarrow> cs ! i ! s < n) \<Longrightarrow> j < n"
  by (induction cs i ps rule: descend.induct) (auto split: if_splits)

lemma arena_inv_count:
  assumes "arena_inv d nodes"
  shows "length nodes \<le> FullTreeNodeCount d"
proof -
  let ?P = "{ps. set ps \<subseteq> {0..<4::nat} \<and> length ps \<le> d}"
  let ?f = "\<lambda>ps. the (descend (map Children nodes) 0 ps)"
  have fin: "finite ?P" by (rule finite_lists_length_le) simp
  have "{0..<length nodes} \<subseteq> ?f ` ?P"
  proof
    fix j assume "j \<in> {0..<length nodes}"
    then have "j < length (map Children nodes)" by simp
    then obtain ps where "length ps \<le> d" "set ps \<subseteq> {0..<4}"
      "descend (map Children nodes) 0 ps = Some j"
      using assms unfolding arena_inv_def shape_inv_def by blast
    then show "j \<in> ?f ` ?P" by force
  qed
  then have "card {0..<length nodes} \<le> card (?f ` ?P)"
    using fin by (intro card_mono) auto
  also have "\<dots> \<le> card ?P" using fin by (rule card_image_le)
  also have "\<dots> = FullTreeNodeCount d"
    using card_lists_length_le[of "{0..<4::nat}" d] by (simp add: FullTreeNodeCount_def)
  finally show ?thesis by simp
qed

subsection \<open>Insertion keeps the arena well-formed\<close>

lemma lt4_nat: "(i::nat) < 4 \<longleftrightarrow> i = 0 \<or> i = 1 \<or> i = 2 \<or> i = 3"
  by auto

lemma map_upd_same: "f y = f (xs ! i) \<Longrightarrow> map f (xs[i := y]) = map f xs"
  by (induction xs arbitrary: i) (auto split: nat.splits)

lemma cs_ext_refl: "cs_ext cs cs"
  by (simp add: cs_ext_def)

lemma cs_ext_trans:
  assumes "cs_ext a b" and "cs_ext b c"
  shows "cs_ext a c"
proof -
  have len: "length a \<le> length b" "length b \<le> length c"
    using assms by (simp_all add: cs_ext_def)
  have "length (c ! j) = length (a ! j) \<and> (\<forall>s<length (a ! j). 0 < a ! j ! s \<longrightarrow> c ! j ! s = a ! j ! s)"
    if j: "j < length a" for j
  proof -
    have jb: "j < length b" using j len by simp
    have ab: "length (b ! j) = length (a ! j)" "\<And>s. s < length (a ! j) \<Longrightarrow> 0 < a ! j ! s \<Longrightarrow> b ! j ! s = a ! j ! s"
      using assms(1) j by (simp_all add: cs_ext_def)
    have bc: "length (c ! j) = length (b ! j)" "\<And>s. s < length (b ! j) \<Longrightarrow> 0 < b ! j ! s \<Longrightarrow> c ! j ! s = b ! j ! s"
      using assms(2) jb by (simp_all add: cs_ext_def)
    show ?thesis using ab bc by simp
  qed
  then show ?thesis using len by (simp add: cs_ext_def)
qed

lemma descend_mono:
  "descend cs i ps = Some j \<Longrightarrow> cs_ext cs cs' \<Longrightarrow> descend cs' i ps = Some j"
proof (induction cs i ps rule: descend.induct)
  case (1 cs i)
  then show ?case by simp
next
  case (2 cs i s ps)
  from "2.prems"(1) have a: "i < length cs" "s < length (cs ! i)" "0 < cs ! i ! s"
    and b: "descend cs (cs ! i ! s) ps = Some j"
    by (auto split: if_splits)
  have "i < length cs'" "s < length (cs' ! i)" "cs' ! i ! s = cs ! i ! s"
    using a "2.prems"(2) unfolding cs_ext_def by auto
  moreover have "descend cs' (cs ! i ! s) ps = Some j"
    using "2.IH" a b "2.prems"(2) by simp
  ultimately show ?case using a by simp
qed

lemma descend_snoc:
  "descend cs i ps = Some j \<Longrightarrow> j < length cs \<Longrightarrow> s < length (cs ! j) \<Longrightarrow> 0 < cs ! j ! s \<Longrightarrow>
   descend cs i (ps @ [s]) = Some (cs ! j ! s)"
  by (induction cs i ps rule: descend.induct) (auto split: if_splits)

lemma shape_inv_emplace:
  assumes inv: "shape_inv d cs par" and self: "self < length cs" and i: "i < 4"
    and free: "cs ! self ! i = 0"
    and path: "descend cs 0 ps = Some self" "length ps < d" "set ps \<subseteq> {0..<4}"
  shows "shape_inv d (cs[self := (cs ! self)[i := length cs]] @ [[0, 0, 0, 0]]) (par @ [self])"
    and "cs_ext cs (cs[self := (cs ! self)[i := length cs]] @ [[0, 0, 0, 0]])"
    and "descend (cs[self := (cs ! self)[i := length cs]] @ [[0, 0, 0, 0]]) 0 (ps @ [i]) = Some (length cs)"
proof -
  let ?n = "length cs"
  let ?u = "cs[self := (cs ! self)[i := ?n]]"
  let ?cs' = "?u @ [[0, 0, 0, 0]]"
  let ?par' = "par @ [self]"
  have ne: "cs \<noteq> []" and lp: "length par = ?n"
    and l4: "\<And>j. j < ?n \<Longrightarrow> length (cs ! j) = 4"
    and ptr: "\<And>j s. j < ?n \<Longrightarrow> s < 4 \<Longrightarrow> 0 < cs ! j ! s \<Longrightarrow> cs ! j ! s < ?n \<and> par ! (cs ! j ! s) = j"
    and dis: "\<And>j s s'. j < ?n \<Longrightarrow> s < 4 \<Longrightarrow> s' < 4 \<Longrightarrow> s \<noteq> s' \<Longrightarrow> 0 < cs ! j ! s \<Longrightarrow> cs ! j ! s \<noteq> cs ! j ! s'"
    and par: "\<And>j. j < ?n \<Longrightarrow> 0 < j \<Longrightarrow> par ! j < j"
    and reach: "\<And>j. j < ?n \<Longrightarrow> \<exists>qs. length qs \<le> d \<and> set qs \<subseteq> {0..<4} \<and> descend cs 0 qs = Some j"
    using inv unfolding shape_inv_def by blast+
  have npos: "0 < ?n" using ne by simp
  have old: "?cs' ! j = ?u ! j" if "j < ?n" for j
    using that by (simp add: nth_append)
  have new: "?cs' ! ?n = [0, 0, 0, 0]"
    by (simp add: nth_append)
  have uj: "?u ! j = (if j = self then (cs ! self)[i := ?n] else cs ! j)" if "j < ?n" for j
    using that by (simp add: nth_list_update)
  have slot: "?cs' ! j ! s = (if j = self \<and> s = i then ?n else cs ! j ! s)" if "j < ?n" "s < 4" for j s
    using that l4[of self] self by (simp add: old uj nth_list_update)
  have len': "length (?cs' ! j) = 4" if "j < Suc ?n" for j
  proof (cases "j < ?n")
    case True
    then show ?thesis using l4 by (simp add: old uj)
  next
    case False
    then have "j = ?n" using that by simp
    then show ?thesis using new by simp
  qed
  show ext: "cs_ext cs ?cs'"
    unfolding cs_ext_def
  proof (intro conjI allI impI)
    show "length cs \<le> length ?cs'" by simp
  next
    fix j assume "j < length cs"
    then show "length (?cs' ! j) = length (cs ! j)" using l4 len' by simp
  next
    fix j s assume j: "j < length cs" and s: "s < length (cs ! j)" and pos: "0 < cs ! j ! s"
    have s4: "s < 4" using s l4[OF j] by simp
    have "\<not> (j = self \<and> s = i)" using pos free by auto
    then show "?cs' ! j ! s = cs ! j ! s" using slot[OF j s4] by auto
  qed
  have pself: "descend ?cs' 0 ps = Some self"
    using path(1) ext by (rule descend_mono)
  have "descend ?cs' 0 (ps @ [i]) = Some (?cs' ! self ! i)"
  proof (rule descend_snoc[OF pself])
    show "self < length ?cs'" using self by simp
    show "i < length (?cs' ! self)" using len'[of self] self i by simp
    show "0 < ?cs' ! self ! i" using slot[OF self i] npos by simp
  qed
  then show pnew: "descend ?cs' 0 (ps @ [i]) = Some ?n"
    using slot[OF self i] by simp
  show "shape_inv d ?cs' ?par'"
    unfolding shape_inv_def
  proof (intro conjI allI impI)
    show "?cs' \<noteq> []" by simp
    show "length ?par' = length ?cs'" using lp by simp
  next
    fix j assume "j < length ?cs'"
    then show "length (?cs' ! j) = 4" using len' by simp
  next
    fix j s assume j: "j < length ?cs'" and s: "s < 4" and pos: "0 < ?cs' ! j ! s"
    show "?cs' ! j ! s < length ?cs'"
    proof (cases "j < ?n")
      case True
      then show ?thesis using slot[OF True s] ptr[OF True s] pos by (auto split: if_splits)
    next
      case False
      then have "j = ?n" using j by simp
      then show ?thesis using pos new s by (auto simp: lt4_nat nth_Cons')
    qed
    show "?par' ! (?cs' ! j ! s) = j"
    proof (cases "j < ?n")
      case True
      show ?thesis
      proof (cases "j = self \<and> s = i")
        case True
        then show ?thesis using slot[OF \<open>j < ?n\<close> s] lp by (simp add: nth_append)
      next
        case False
        then have eq: "?cs' ! j ! s = cs ! j ! s" using slot[OF \<open>j < ?n\<close> s] by auto
        then have "cs ! j ! s < ?n \<and> par ! (cs ! j ! s) = j"
          using ptr[OF \<open>j < ?n\<close> s] pos by simp
        then show ?thesis using eq lp by (simp add: nth_append)
      qed
    next
      case False
      then have "j = ?n" using j by simp
      then show ?thesis using pos new s by (auto simp: lt4_nat nth_Cons')
    qed
  next
    fix j s s' assume j: "j < length ?cs'" and s: "s < 4" and s': "s' < 4"
      and h: "s \<noteq> s' \<and> 0 < ?cs' ! j ! s"
    show "?cs' ! j ! s \<noteq> ?cs' ! j ! s'"
    proof (cases "j < ?n")
      case True
      have b: "cs ! j ! t = 0 \<or> cs ! j ! t < ?n" if "t < 4" for t
        using ptr[OF True that] by auto
      show ?thesis
        using slot[OF True s] slot[OF True s'] h dis[OF True s s'] b[OF s] b[OF s'] free
        by (auto split: if_splits)
    next
      case False
      then have "j = ?n" using j by simp
      then show ?thesis using h new s by (auto simp: lt4_nat nth_Cons')
    qed
  next
    fix j assume j: "j < length ?cs'" and pos: "0 < j"
    show "?par' ! j < j"
    proof (cases "j < ?n")
      case True
      then show ?thesis using par[OF True pos] lp by (simp add: nth_append)
    next
      case False
      then have "j = ?n" using j by simp
      then show ?thesis using self lp by (simp add: nth_append)
    qed
  next
    fix j assume j: "j < length ?cs'"
    show "\<exists>qs. length qs \<le> d \<and> set qs \<subseteq> {0..<4} \<and> descend ?cs' 0 qs = Some j"
    proof (cases "j < ?n")
      case True
      then obtain qs where "length qs \<le> d" "set qs \<subseteq> {0..<4}" "descend cs 0 qs = Some j"
        using reach by blast
      then show ?thesis using descend_mono[OF _ ext] by blast
    next
      case False
      then have "j = ?n" using j by simp
      moreover have "length (ps @ [i]) \<le> d" "set (ps @ [i]) \<subseteq> {0..<4}"
        using path i by auto
      ultimately show ?thesis using pnew by blast
    qed
  qed
qed

lemma nd_ext_refl: "nd_ext nd nd"
  by (simp add: nd_ext_def cs_ext_refl)

lemma nd_ext_trans: "nd_ext a b \<Longrightarrow> nd_ext b c \<Longrightarrow> nd_ext a c"
  unfolding nd_ext_def using cs_ext_trans by auto

lemma nd_ext_tables:
  "map Children (Nodes nd') = map Children (Nodes nd) \<Longrightarrow> NodesMax nd' = NodesMax nd \<Longrightarrow>
   QuadMeshRenderData nd' = QuadMeshRenderData nd \<Longrightarrow> nd_ext nd nd'"
  by (simp add: nd_ext_def cs_ext_refl)

lemma insert_post_trans:
  assumes "nd_ext nd nd1" and "insert_post d nd1 r"
  shows "insert_post d nd r"
proof -
  have "NodesMax nd1 = NodesMax nd" using assms(1) by (simp add: nd_ext_def)
  then show ?thesis
    using assms nd_ext_trans[OF assms(1)] unfolding insert_post_def by (auto split: sum.splits)
qed

lemma AddNodes_visit_tables:
  assumes "AddNodes_visit qb idx self nd = Inr nd1"
  shows "map Children (Nodes nd1) = map Children (Nodes nd)"
    and "map ParentIndex (Nodes nd1) = map ParentIndex (Nodes nd)"
    and "NodesMax nd1 = NodesMax nd"
    and "QuadMeshRenderData nd1 = QuadMeshRenderData nd"
  using assms
  by (auto simp: AddNodes_visit_def Let_def map_upd_same split: if_splits)

lemma AddNodes_visit_not_overflow: "AddNodes_visit qb idx self nd \<noteq> Inl ArenaOverflow"
  by (simp add: AddNodes_visit_def Let_def)

lemma AddNodes_merge_tables:
  "map Children (fst (AddNodes_merge self i (nodes, prev))) = map Children nodes"
  "map ParentIndex (fst (AddNodes_merge self i (nodes, prev))) = map ParentIndex nodes"
  by (simp_all add: AddNodes_merge_def Let_def map_upd_same)

lemma insert_pre_tables:
  assumes "insert_pre d k c nd"
    and "map Children (Nodes nd') = map Children (Nodes nd)"
    and "map ParentIndex (Nodes nd') = map ParentIndex (Nodes nd)"
    and "NodesMax nd' = NodesMax nd"
  shows "insert_pre d k c nd'"
proof -
  have "length (Nodes nd') = length (Nodes nd)"
    using assms(2) by (metis length_map)
  then show ?thesis
    using assms unfolding insert_pre_def arena_inv_def at_depth_def by simp
qed

lemma insert_pre_ext:
  assumes "insert_pre d k c nd" and "arena_inv d (Nodes nd')" and "nd_ext nd nd'"
  shows "insert_pre d k c nd'"
proof -
  have e: "cs_ext (map Children (Nodes nd)) (map Children (Nodes nd'))"
    and m: "NodesMax nd' = NodesMax nd"
    using assms(3) by (simp_all add: nd_ext_def)
  have "length (Nodes nd) \<le> length (Nodes nd')"
    using e by (simp add: cs_ext_def)
  moreover have "at_depth (Nodes nd') c k"
    using assms(1) descend_mono[OF _ e] unfolding insert_pre_def at_depth_def by blast
  ultimately show ?thesis
    using assms(1,2) m unfolding insert_pre_def by simp
qed

lemma emplace_tables:
  fixes nodes :: "FNode list" and self i :: nat and cb :: FBox
  assumes "self < length nodes"
  defines "new \<equiv> length nodes"
  defines "nodes1 \<equiv> nodes @ [FNode_default]"
  defines "nodes2 \<equiv> nodes1[self := (nodes1 ! self)\<lparr>Children := (Children (nodes1 ! self))[i := new]\<rparr>]"
  defines "nodes3 \<equiv> nodes2[new := (nodes2 ! new)\<lparr>Bounds := cb\<rparr>]"
  defines "nodes4 \<equiv> nodes3[new := (nodes3 ! new)\<lparr>ParentIndex := self\<rparr>]"
  shows "map Children nodes4 =
           (map Children nodes)[self := (map Children nodes ! self)[i := length nodes]] @ [[0, 0, 0, 0]]"
    and "map ParentIndex nodes4 = map ParentIndex nodes @ [self]"
proof -
  let ?u = "nodes[self := (nodes ! self)\<lparr>Children := (Children (nodes ! self))[i := new]\<rparr>]"
  have n2: "nodes2 = ?u @ [FNode_default]"
    using assms(1) by (simp add: nodes2_def nodes1_def list_update_append1 nth_append)
  have lu: "length ?u = new" by (simp add: new_def)
  have n3: "nodes3 = ?u @ [FNode_default\<lparr>Bounds := cb\<rparr>]"
    unfolding nodes3_def n2 using lu by (metis list_update_length nth_append_length)
  have n4: "nodes4 = ?u @ [FNode_default\<lparr>Bounds := cb, ParentIndex := self\<rparr>]"
    unfolding nodes4_def n3 using lu by (metis list_update_length nth_append_length)
  show "map Children nodes4 =
           (map Children nodes)[self := (map Children nodes ! self)[i := length nodes]] @ [[0, 0, 0, 0]]"
    using assms(1) by (simp add: n4 map_update new_def FNode_default_def)
  show "map ParentIndex nodes4 = map ParentIndex nodes @ [self]"
    by (simp add: n4 map_upd_same)
qed

lemma AddNodes_child_ok:
  assumes rec: "insert_ok d (Suc k) rec" and kd: "Suc k \<le> d" and i: "i < 4"
    and pre: "insert_pre d k self nd"
  shows "insert_post d nd (AddNodes_child rec mb qb self half i nd)"
proof -
  let ?nodes = "Nodes nd"
  let ?cs = "map Children ?nodes"
  let ?par = "map ParentIndex ?nodes"
  let ?n = "length ?nodes"
  let ?c = "Children (?nodes ! self) ! i"
  have inv: "arena_inv d ?nodes"
    and self: "self < ?n" and dep: "at_depth ?nodes self k"
    using pre by (simp_all add: insert_pre_def)
  have sh: "shape_inv d ?cs ?par" using inv by (simp add: arena_inv_def)
  obtain ps where ps: "length ps = k" "set ps \<subseteq> {0..<4}" "descend ?cs 0 ps = Some self"
    using dep unfolding at_depth_def by blast
  have csi: "?cs ! self ! i = ?c" using self by simp
  have l4: "length (?cs ! self) = 4" using sh self unfolding shape_inv_def by simp
  have keep: "insert_post d nd (Inr nd)"
    using inv by (simp add: insert_post_def nd_ext_refl)
  show ?thesis
  proof (cases "0 < ?c")
    case True
    show ?thesis
    proof (cases "?c \<ge> ?n")
      case True
      then show ?thesis using \<open>0 < ?c\<close>
        by (simp add: AddNodes_child_def Let_def insert_post_def)
    next
      case False
      then have cn: "?c < ?n" by simp
      have "descend ?cs 0 (ps @ [i]) = Some (?cs ! self ! i)"
        using ps(3) self l4 i True csi by (intro descend_snoc) simp_all
      then have "at_depth ?nodes ?c (Suc k)"
        unfolding at_depth_def using ps i csi by (intro exI[of _ "ps @ [i]"]) auto
      then have "insert_pre d (Suc k) ?c nd"
        using inv cn by (simp add: insert_pre_def)
      then have "insert_post d nd (rec ?c nd)"
        using rec by (simp add: insert_ok_def)
      then show ?thesis using True cn keep
        by (simp add: AddNodes_child_def Let_def)
    qed
  next
    case False
    then have free: "?c = 0" by simp
    let ?cb = "AddNodes_ChildBounds (Bounds (?nodes ! self)) half qb i"
    show ?thesis
    proof (cases "IntersectXY ?cb qb \<and> IntersectXY ?cb mb")
      case False
      then show ?thesis using free keep
        by (auto simp: AddNodes_child_def Let_def)
    next
      case True
      define nodes1 where "nodes1 = ?nodes @ [FNode_default]"
      define nodes2 where "nodes2 = nodes1[self := (nodes1 ! self)\<lparr>Children := (Children (nodes1 ! self))[i := ?n]\<rparr>]"
      define nodes3 where "nodes3 = nodes2[?n := (nodes2 ! ?n)\<lparr>Bounds := ?cb\<rparr>]"
      define nodes4 where "nodes4 = nodes3[?n := (nodes3 ! ?n)\<lparr>ParentIndex := self\<rparr>]"
      have tabs: "map Children nodes4 = ?cs[self := (?cs ! self)[i := ?n]] @ [[0, 0, 0, 0]]"
                 "map ParentIndex nodes4 = ?par @ [self]"
        using emplace_tables[OF self, of i ?cb]
        unfolding nodes4_def nodes3_def nodes2_def nodes1_def by simp_all
      have kd': "length ps < d" using ps(1) kd by simp
      have free': "?cs ! self ! i = 0" using free csi by simp
      have len_cs: "length ?cs = ?n" by simp
      note em = shape_inv_emplace[OF sh _ i free' ps(3) kd' ps(2), unfolded len_cs, OF self]
      have inv4: "arena_inv d nodes4"
        using em(1) by (simp add: arena_inv_def tabs)
      have len4: "length nodes4 = Suc ?n"
        by (simp add: nodes4_def nodes3_def nodes2_def nodes1_def)
      have full: "Suc ?n \<le> FullTreeNodeCount d"
        using arena_inv_count[OF inv4] len4 by simp
      have ext4: "nd_ext nd (nd\<lparr>Nodes := nodes4\<rparr>)"
        using em(2) by (simp add: nd_ext_def tabs)
      have "at_depth nodes4 ?n (Suc k)"
        unfolding at_depth_def using em(3) ps i by (intro exI[of _ "ps @ [i]"]) (auto simp: tabs)
      then have "insert_pre d (Suc k) ?n (nd\<lparr>Nodes := nodes4\<rparr>)"
        using inv4 len4 by (simp add: insert_pre_def)
      then have "insert_post d (nd\<lparr>Nodes := nodes4\<rparr>) (rec ?n (nd\<lparr>Nodes := nodes4\<rparr>))"
        using rec by (simp add: insert_ok_def)
      then have recpost: "insert_post d nd (rec ?n (nd\<lparr>Nodes := nodes4\<rparr>))"
        using ext4 by (rule insert_post_trans[rotated])
      show ?thesis
      proof (cases "?n < NodesMax nd")
        case room: True
        have "AddNodes_child rec mb qb self half i nd = rec ?n (nd\<lparr>Nodes := nodes4\<rparr>)"
          using free True room
          by (simp add: AddNodes_child_def Let_def nodes4_def nodes3_def nodes2_def nodes1_def)
        then show ?thesis using recpost by simp
      next
        case False
        then have "AddNodes_child rec mb qb self half i nd = Inl ArenaOverflow"
          using free True by (simp add: AddNodes_child_def Let_def)
        moreover have "NodesMax nd < FullTreeNodeCount d" using False full by simp
        ultimately show ?thesis by (simp add: insert_post_def)
      qed
    qed
  qed
qed

lemma AddNodes_children_ok:
  assumes rec: "insert_ok d (Suc k) rec" and kd: "Suc k \<le> d"
  shows "set slots \<subseteq> {0..<4} \<Longrightarrow> insert_pre d k self nd \<Longrightarrow>
         (case AddNodes_children rec mb qb self half slots (nd, prev) of
            Inl e \<Rightarrow> e = ArenaOverflow \<longrightarrow> NodesMax nd < FullTreeNodeCount d
          | Inr st \<Rightarrow> arena_inv d (Nodes (fst st)) \<and> nd_ext nd (fst st))"
proof (induction slots arbitrary: nd prev)
  case Nil
  then show ?case by (simp add: insert_pre_def nd_ext_refl)
next
  case (Cons i rest)
  have i: "i < 4" and rest: "set rest \<subseteq> {0..<4}" using Cons.prems(1) by auto
  have post: "insert_post d nd (AddNodes_child rec mb qb self half i nd)"
    using rec kd i Cons.prems(2) by (rule AddNodes_child_ok)
  show ?case
  proof (cases "AddNodes_child rec mb qb self half i nd")
    case (Inl e)
    then show ?thesis using post by (simp add: insert_post_def)
  next
    case (Inr nd1)
    have inv1: "arena_inv d (Nodes nd1)" and ext1: "nd_ext nd nd1"
      using post Inr by (simp_all add: insert_post_def)
    have pre1: "insert_pre d k self nd1"
      using Cons.prems(2) inv1 ext1 by (rule insert_pre_ext)
    let ?m = "AddNodes_merge self i (Nodes nd1, prev)"
    let ?nd2 = "nd1\<lparr>Nodes := fst ?m\<rparr>"
    have pre2: "insert_pre d k self ?nd2"
      using pre1 by (rule insert_pre_tables) (simp_all add: AddNodes_merge_tables)
    have ext2: "nd_ext nd1 ?nd2"
      by (rule nd_ext_tables) (simp_all add: AddNodes_merge_tables)
    have IH: "case AddNodes_children rec mb qb self half rest (?nd2, snd ?m) of
                Inl e \<Rightarrow> e = ArenaOverflow \<longrightarrow> NodesMax ?nd2 < FullTreeNodeCount d
              | Inr st \<Rightarrow> arena_inv d (Nodes (fst st)) \<and> nd_ext ?nd2 (fst st)"
      using Cons.IH[OF rest pre2] .
    have ext: "nd_ext nd ?nd2" using ext1 ext2 by (rule nd_ext_trans)
    have cap: "NodesMax ?nd2 = NodesMax nd" using ext by (simp add: nd_ext_def)
    show ?thesis
      using IH Inr nd_ext_trans[OF ext] cap by (auto simp: Let_def split: sum.splits)
  qed
qed

lemma AddNodes_ok: "k + l \<le> d \<Longrightarrow> insert_ok d k (AddNodes l mb qb idx)"
proof (induction l arbitrary: k)
  case 0
  show ?case
    unfolding insert_ok_def
  proof (intro allI impI)
    fix c nd assume pre: "insert_pre d k c nd"
    show "insert_post d nd (AddNodes 0 mb qb idx c nd)"
    proof (cases "AddNodes_visit qb idx c nd")
      case (Inl e)
      then show ?thesis using AddNodes_visit_not_overflow[of qb idx c nd]
        by (auto simp: insert_post_def)
    next
      case (Inr nd1)
      note t = AddNodes_visit_tables[OF Inr]
      have "insert_pre d k c nd1" using pre t(1,2,3) by (rule insert_pre_tables)
      then show ?thesis using Inr nd_ext_tables[OF t(1,3,4)]
        by (simp add: insert_post_def insert_pre_def)
    qed
  qed
next
  case (Suc l)
  have rec: "insert_ok d (Suc k) (AddNodes l mb qb idx)"
    using Suc.IH[of "Suc k"] Suc.prems by simp
  have kd: "Suc k \<le> d" using Suc.prems by simp
  show ?case
    unfolding insert_ok_def
  proof (intro allI impI)
    fix c nd assume pre: "insert_pre d k c nd"
    show "insert_post d nd (AddNodes (Suc l) mb qb idx c nd)"
    proof (cases "AddNodes_visit qb idx c nd")
      case (Inl e)
      then show ?thesis using AddNodes_visit_not_overflow[of qb idx c nd]
        by (auto simp: insert_post_def)
    next
      case (Inr nd1)
      note t = AddNodes_visit_tables[OF Inr]
      have pre1: "insert_pre d k c nd1" using pre t(1,2,3) by (rule insert_pre_tables)
      have ext1: "nd_ext nd nd1" using t(1,3,4) by (rule nd_ext_tables)
      let ?half = "vscale2 (XY (GetSize (Bounds (Nodes nd1 ! c)))) 0.5"
      have loop: "case AddNodes_children (AddNodes l mb qb idx) mb qb c ?half [0, 1, 2, 3]
                         (nd1, Nodes nd1 ! 0) of
                    Inl e \<Rightarrow> e = ArenaOverflow \<longrightarrow> NodesMax nd1 < FullTreeNodeCount d
                  | Inr st \<Rightarrow> arena_inv d (Nodes (fst st)) \<and> nd_ext nd1 (fst st)"
        using AddNodes_children_ok[OF rec kd _ pre1, of "[0, 1, 2, 3]"] by simp
      show ?thesis
        using loop Inr nd_ext_trans[OF ext1] t(3)
        by (auto simp: insert_post_def Let_def split: sum.splits)
    qed
  qed
qed

subsection \<open>The arena never overflows\<close>

lemma arena_inv_root: "arena_inv d [FNode_default\<lparr>Bounds := b\<rparr>]"
proof -
  have "descend [[0, 0, 0, 0]] 0 [] = Some 0" by simp
  then have "\<exists>ps. length ps \<le> d \<and> set ps \<subseteq> {0..<4} \<and> descend [[0, 0, 0, 0]] 0 ps = Some 0"
    by (intro exI[of _ "[]"]) simp
  then show ?thesis
    by (simp add: arena_inv_def shape_inv_def FNode_default_def lt4_nat nth_Cons')
qed

lemma InitTree_tree_inv:
  assumes "InitTree t InBounds InTileSize InExtentInTiles = Inr t0"
  shows "tree_inv t0"
  using InitTree_Inr(1)[OF assms] arena_inv_root by (auto simp: tree_inv_def)

lemma AddTiles_tree_inv:
  assumes "tree_inv t"
  shows "AddQuadMeshTilesInsideBounds t b i = Inl ArenaOverflow \<Longrightarrow>
           NodesMax (NodeData t) < FullTreeNodeCount (TreeDepth t)"
    and "AddQuadMeshTilesInsideBounds t b i = Inr t' \<Longrightarrow>
           tree_inv t' \<and> TreeDepth t' = TreeDepth t \<and> NodesMax (NodeData t') = NodesMax (NodeData t)"
proof -
  let ?d = "TreeDepth t"
  let ?nd = "NodeData t"
  let ?mb = "Box (Vec3of (Min2D (TileRegion t)) 0) (Vec3of (Max2D (TileRegion t)) 0)"
  have inv: "arena_inv ?d (Nodes ?nd)"
    using assms by (simp_all add: tree_inv_def)
  have ne: "Nodes ?nd \<noteq> []" using inv by (simp add: arena_inv_def shape_inv_def)
  have "at_depth (Nodes ?nd) 0 0"
    unfolding at_depth_def by (intro exI[of _ "[]"]) simp
  then have pre: "insert_pre ?d 0 0 ?nd"
    using inv ne by (simp add: insert_pre_def)
  have "insert_ok ?d 0 (AddNodes ?d ?mb b i)" by (rule AddNodes_ok) simp
  then have post: "insert_post ?d ?nd (AddNodes ?d ?mb b i 0 ?nd)"
    using pre by (simp add: insert_ok_def)
  show "NodesMax (NodeData t) < FullTreeNodeCount (TreeDepth t)"
    if "AddQuadMeshTilesInsideBounds t b i = Inl ArenaOverflow"
    using that post ne
    by (auto simp: AddQuadMeshTilesInsideBounds_def insert_post_def split: sum.splits if_splits)
  show "tree_inv t' \<and> TreeDepth t' = TreeDepth t \<and> NodesMax (NodeData t') = NodesMax (NodeData t)"
    if "AddQuadMeshTilesInsideBounds t b i = Inr t'"
    using that post
    by (auto simp: AddQuadMeshTilesInsideBounds_def insert_post_def tree_inv_def nd_ext_def
             split: sum.splits if_splits)
qed

lemma AddRenderData_tree_inv:
  "tree_inv t \<Longrightarrow> tree_inv (snd (AddQuadtreeMeshRenderData t rd))"
  by (simp add: tree_inv_def AddQuadtreeMeshRenderData_def)

lemma AddRenderData_fields:
  "TreeDepth (snd (AddQuadtreeMeshRenderData t rd)) = TreeDepth t"
  "NodesMax (NodeData (snd (AddQuadtreeMeshRenderData t rd))) = NodesMax (NodeData t)"
  "Nodes (NodeData (snd (AddQuadtreeMeshRenderData t rd))) = Nodes (NodeData t)"
  "bIsReadOnly (snd (AddQuadtreeMeshRenderData t rd)) = bIsReadOnly t"
  by (simp_all add: AddQuadtreeMeshRenderData_def)

lemma BuildOps_tree_inv:
  "tree_inv t \<Longrightarrow>
     (BuildOps t ops = Inl ArenaOverflow \<longrightarrow> NodesMax (NodeData t) < FullTreeNodeCount (TreeDepth t)) \<and>
     (\<forall>t'. BuildOps t ops = Inr t' \<longrightarrow>
        tree_inv t' \<and> TreeDepth t' = TreeDepth t \<and> NodesMax (NodeData t') = NodesMax (NodeData t))"
proof (induction t ops rule: BuildOps.induct)
  case (1 t)
  then show ?case by simp
next
  case (2 t rd ops)
  then show ?case
    using AddRenderData_tree_inv[of t rd] by (simp add: AddRenderData_fields)
next
  case (3 t b i ops)
  show ?case
  proof (cases "AddQuadMeshTilesInsideBounds t b i")
    case (Inl e)
    then show ?thesis using AddTiles_tree_inv(1)[OF "3.prems", of b i] by auto
  next
    case (Inr t1)
    note s = AddTiles_tree_inv(2)[OF "3.prems" Inr]
    then show ?thesis using "3.IH"[OF Inr] Inr by simp
  qed
qed

lemma FullTreeNodeCount_mono: "d \<le> k \<Longrightarrow> FullTreeNodeCount d \<le> FullTreeNodeCount k"
  unfolding FullTreeNodeCount_def by (intro sum_mono2) auto

lemma Slack_covers: "FullTreeNodeCount k \<le> nat \<lfloor>11184811 * 4 ^ k / 8388608 :: real\<rfloor>"
proof -
  have "real (3 * FullTreeNodeCount k + 1) = real (4 ^ (k + 1))"
    using FullTreeNodeCount_closed[of k] by simp
  then have "3 * real (FullTreeNodeCount k) = 4 * 4 ^ k - 1" by simp
  moreover have "0 \<le> (4::real) ^ k" by simp
  ultimately have "real (FullTreeNodeCount k) \<le> 11184811 * 4 ^ k / 8388608" by linarith
  then have "real_of_int (int (FullTreeNodeCount k)) \<le> 11184811 * 4 ^ k / 8388608" by simp
  then have "int (FullTreeNodeCount k) \<le> \<lfloor>11184811 * 4 ^ k / 8388608 :: real\<rfloor>"
    by (simp only: le_floor_iff)
  then show ?thesis by linarith
qed

lemma InitTree_capacity:
  assumes "InitTree t InBounds InTileSize InExtentInTiles = Inr t0"
  shows "FullTreeNodeCount (TreeDepth t0) \<le> NodesMax (NodeData t0)"
proof -
  obtain ex ey where e: "InExtentInTiles = (ex, ey)" by (cases InExtentInTiles)
  let ?k = "CeilLogTwo (nat (max (wrap32 (ex * 2)) (wrap32 (ey * 2)) mod 4294967296))"
  note ev = InitTree_eval[of t InBounds InTileSize ex ey]
  have k: "?k \<le> 15" using assms ev unfolding e by (auto split: if_splits)
  have t0: "InitTree t InBounds InTileSize (ex, ey) = Inr t0" using assms e by simp
  have d: "TreeDepth t0 \<le> ?k" using t0 k unfolding ev by auto
  have m: "NodesMax (NodeData t0) = nat \<lfloor>11184811 * 4 ^ ?k / 8388608 :: real\<rfloor>"
    using t0 k unfolding ev by auto
  show ?thesis
    using FullTreeNodeCount_mono[OF d] Slack_covers[of ?k] m by simp
qed

lemma CeilLogTwo_32770: "CeilLogTwo 32770 = 16"
  using CeilLogTwo_eq[of 15 32770] by simp

text \<open>
  C9 fails as stated.  With extent \<open>(16385, 1)\<close> the root dimension is \<open>65536\<close>.  The
  full tree of depth 16 has 5726623061 nodes; the float expression for the capacity
  evaluates to 5726623232, which is no \<open>int32\<close>, so its conversion to the argument of
  \<open>TArray::Empty\<close> is undefined and \<open>InitTree\<close> pre-sizes no such capacity.
\<close>

theorem InitTree_capacity_out_of_range:
  "RoundUpToPowerOfTwo (nat (2 * max 16385 1)) = 65536 \<and>
   FullTreeNodeCount 16 = 5726623061 \<and>
   f32 (f32 (f32 (65536 * 65536) * 4) / 3) = 5726623232 \<and>
   InitTree EmptyTree (Box2D (Vec2 0 0) (Vec2 524320 32)) 32 (16385, 1) = Inl FloatToIntOutOfRange"
proof -
  have k: "CeilLogTwo (nat (max (wrap32 (16385 * 2)) (wrap32 (1 * 2)) mod 4294967296)) = 16"
    by (simp add: wrap32_def CeilLogTwo_32770)
  have a: "RoundUpToPowerOfTwo (nat (2 * max 16385 1)) = 65536"
    by (simp add: RoundUpToPowerOfTwo_def CeilLogTwo_32770)
  have b: "FullTreeNodeCount 16 = 5726623061"
    using FullTreeNodeCount_closed[of 16] by simp
  have c: "f32 (f32 (f32 (65536 * 65536) * 4) / 3) = 5726623232"
    using Slack_float[of 16] by simp
  have d: "InitTree EmptyTree (Box2D (Vec2 0 0) (Vec2 524320 32)) 32 (16385, 1) = Inl FloatToIntOutOfRange"
    unfolding InitTree_eval k by simp
  show ?thesis using a b c d by simp
qed

text \<open>
  C9, amended.  For positive extents with \<open>2 * max ex ey \<le> 32768\<close>, \<open>InitTree\<close>
  succeeds and the capacity of the arena is at least the node count of the full
  quadtree of depth \<open>TreeDepth\<close>.  Whatever render data is added and whatever regions
  are inserted afterwards, the capacity check in \<open>AddNodes\<close> never fails, the capacity
  never changes, and the number of nodes stays within it.
\<close>

theorem arena_never_overflows:
  fixes t :: FMeshQuadTree and InBounds :: FBox2D and InTileSize :: real and ex ey :: int
  assumes "0 < ex" and "0 < ey" and "2 * max ex ey \<le> 32768"
  shows "\<exists>t0. InitTree t InBounds InTileSize (ex, ey) = Inr t0 \<and>
           FullTreeNodeCount (TreeDepth t0) \<le> NodesMax (NodeData t0) \<and>
           BuildOps t0 ops \<noteq> Inl ArenaOverflow \<and>
           (\<forall>t'. BuildOps t0 ops = Inr t' \<longrightarrow>
              NodesMax (NodeData t') = NodesMax (NodeData t0) \<and>
              length (Nodes (NodeData t')) \<le> NodesMax (NodeData t'))"
proof -
  define M where "M = nat (2 * max ex ey)"
  have wx: "wrap32 (ex * 2) = ex * 2" using assms by (intro wrap32_id) auto
  have wy: "wrap32 (ey * 2) = ey * 2" using assms by (intro wrap32_id) auto
  have mx: "max (ex * 2) (ey * 2) = 2 * max ex ey" by auto
  have Mpos: "0 < 2 * max ex ey" using assms by auto
  have Mmod: "nat ((2 * max ex ey) mod 4294967296) = M"
    using Mpos assms(3) by (simp add: M_def)
  have "M \<le> 32768" using assms(3) unfolding M_def by linarith
  then have "M \<le> 2 ^ 15" by simp
  then have k15: "CeilLogTwo M \<le> 15" by (rule CeilLogTwo_least)
  have kk: "CeilLogTwo (nat (max (wrap32 (ex * 2)) (wrap32 (ey * 2)) mod 4294967296)) = CeilLogTwo M"
    by (simp add: wx wy mx Mmod)
  have "\<exists>t0. InitTree t InBounds InTileSize (ex, ey) = Inr t0"
    unfolding InitTree_eval kk using k15 by simp
  then obtain t0 where t0: "InitTree t InBounds InTileSize (ex, ey) = Inr t0" by blast
  note cap = InitTree_capacity[OF t0]
  note b = BuildOps_tree_inv[OF InitTree_tree_inv[OF t0], of ops]
  have over: "BuildOps t0 ops \<noteq> Inl ArenaOverflow" using b cap by auto
  have "NodesMax (NodeData t') = NodesMax (NodeData t0) \<and>
        length (Nodes (NodeData t')) \<le> NodesMax (NodeData t')" if r: "BuildOps t0 ops = Inr t'" for t'
  proof -
    have i: "tree_inv t'" "TreeDepth t' = TreeDepth t0" "NodesMax (NodeData t') = NodesMax (NodeData t0)"
      using b r by blast+
    have "length (Nodes (NodeData t')) \<le> FullTreeNodeCount (TreeDepth t')"
      using i(1) arena_inv_count[of "TreeDepth t'" "Nodes (NodeData t')"] by (simp add: tree_inv_def)
    then show ?thesis using i(2,3) cap by simp
  qed
  then show ?thesis using t0 cap over by blast
qed

text \<open>
  On the example: the capacity is 5, and the full tree built by one region over the
  whole root box uses all of it.
\<close>

theorem arena_never_overflows_witness:
  "(0::int) < 1 \<and> 2 * max 1 1 \<le> (32768::int) \<and>
   InitTree EmptyTree (Box2D (Vec2 0 0) (Vec2 64 64)) 32 (1, 1) = Inr Example0 \<and>
   FullTreeNodeCount (TreeDepth Example0) = 5 \<and>
   NodesMax (NodeData Example0) = 5 \<and>
   BuildOps Example0
     [AddRenderData \<lparr>Material = Some 7, SurfaceBaseHeight = 5, MaterialIndex = 0\<rparr>,
      AddTiles (Box (Vec3 0 0 0) (Vec3 64 64 10)) 1] = Inr (ExTree ExFullNodes ExRenderData1 False) \<and>
   length (Nodes (NodeData (ExTree ExFullNodes ExRenderData1 False))) = 5"
proof -
  let ?ops = "[AddRenderData \<lparr>Material = Some 7, SurfaceBaseHeight = 5, MaterialIndex = 0\<rparr>,
               AddTiles (Box (Vec3 0 0 0) (Vec3 64 64 10)) 1]"
  have h: "(0::int) < 1" "2 * max 1 1 \<le> (32768::int)" by simp_all
  have i: "InitTree EmptyTree (Box2D (Vec2 0 0) (Vec2 64 64)) 32 (1, 1) = Inr Example0"
    by (simp add: Example0_init Example0_eq)
  have b: "BuildOps Example0 ?ops = Inr (ExTree ExFullNodes ExRenderData1 False)"
    using ExFull_built by (simp add: Example1_def)
  have five: "NodesMax (NodeData Example0) = 5" "FullTreeNodeCount (TreeDepth Example0) = 5"
    by (simp_all add: Example0_eq ExTree_def FullTreeNodeCount_def)
  have len: "length (Nodes (NodeData (ExTree ExFullNodes ExRenderData1 False))) = 5"
    by (simp add: ExTree_def ExFullNodes_def)
  from arena_never_overflows[OF h(1) h(1) h(2), of EmptyTree "Box2D (Vec2 0 0) (Vec2 64 64)" 32 ?ops]
  obtain t0 where t0: "InitTree EmptyTree (Box2D (Vec2 0 0) (Vec2 64 64)) 32 (1, 1) = Inr t0"
    "FullTreeNodeCount (TreeDepth t0) \<le> NodesMax (NodeData t0)"
    "\<forall>t'. BuildOps t0 ?ops = Inr t' \<longrightarrow>
        NodesMax (NodeData t') = NodesMax (NodeData t0) \<and>
        length (Nodes (NodeData t')) \<le> NodesMax (NodeData t')"
    by blast
  have "t0 = Example0" using t0(1) i by simp
  then have "length (Nodes (NodeData (ExTree ExFullNodes ExRenderData1 False))) \<le> NodesMax (NodeData Example0)"
    using t0(3) b by (auto simp: ExTree_def)
  then show ?thesis using h i five b len by simp
qed

subsection \<open>Pruning a tree that is collapsible throughout\<close>

lemma Unlock_loop_all_redundant:
  "k < length nodes \<Longrightarrow>
   (\<forall>j. 0 < j \<and> j \<le> k \<longrightarrow>
      ParentIndex (nodes ! j) < length nodes \<and> CompleteUniform (nodes ! ParentIndex (nodes ! j))) \<Longrightarrow>
   \<exists>nodes'. Unlock_loop (rev [1..<Suc k]) (nodes, k) = Inr (nodes', 0) \<and>
            length nodes' = length nodes \<and>
            (\<forall>j<length nodes. \<exists>cs. nodes' ! j = (nodes ! j)\<lparr>Children := cs\<rparr>)"
proof (induction k arbitrary: nodes)
  case 0
  have "\<exists>cs. nodes ! j = (nodes ! j)\<lparr>Children := cs\<rparr>" for j
    by (intro exI[of _ "Children (nodes ! j)"]) simp
  then show ?case by simp
next
  case (Suc k)
  let ?p = "ParentIndex (nodes ! Suc k)"
  let ?nodes1 = "nodes[?p := (nodes ! ?p)\<lparr>Children := [0, 0, 0, 0]\<rparr>]"
  have p: "?p < length nodes" "CompleteUniform (nodes ! ?p)"
    using Suc.prems(2) by auto
  have step: "Unlock_step (Suc k) (nodes, Suc k) = Inr (?nodes1, k)"
    using p by (simp add: Unlock_step_def SwapRemove_def CompleteUniform_def Let_def)
  have same: "\<exists>cs. ?nodes1 ! j = (nodes ! j)\<lparr>Children := cs\<rparr>" if "j < length nodes" for j
  proof (cases "j = ?p")
    case True
    then show ?thesis using that by (intro exI[of _ "[0, 0, 0, 0]"]) simp
  next
    case False
    then show ?thesis by (intro exI[of _ "Children (nodes ! j)"]) simp
  qed
  have fields: "ParentIndex (?nodes1 ! j) = ParentIndex (nodes ! j) \<and>
                CompleteUniform (?nodes1 ! j) = CompleteUniform (nodes ! j)" if "j < length nodes" for j
    using same[OF that] by (auto simp: CompleteUniform_def)
  have pre: "\<forall>j. 0 < j \<and> j \<le> k \<longrightarrow>
      ParentIndex (?nodes1 ! j) < length ?nodes1 \<and> CompleteUniform (?nodes1 ! ParentIndex (?nodes1 ! j))"
  proof (intro allI impI)
    fix j assume j: "0 < j \<and> j \<le> k"
    then have jl: "j < length nodes" using Suc.prems(1) by simp
    have a: "ParentIndex (nodes ! j) < length nodes" "CompleteUniform (nodes ! ParentIndex (nodes ! j))"
      using Suc.prems(2) j by auto
    show "ParentIndex (?nodes1 ! j) < length ?nodes1 \<and> CompleteUniform (?nodes1 ! ParentIndex (?nodes1 ! j))"
      using a fields[OF jl] fields[OF a(1)] by simp
  qed
  have "k < length ?nodes1" using Suc.prems(1) by simp
  from Suc.IH[OF this pre]
  obtain nodes' where n': "Unlock_loop (rev [1..<Suc k]) (?nodes1, k) = Inr (nodes', 0)"
    "length nodes' = length ?nodes1"
    "\<forall>j<length ?nodes1. \<exists>cs. nodes' ! j = (?nodes1 ! j)\<lparr>Children := cs\<rparr>"
    by blast
  have loop: "Unlock_loop (rev [1..<Suc (Suc k)]) (nodes, Suc k) = Inr (nodes', 0)"
    using step n'(1) by simp
  have "\<exists>cs. nodes' ! j = (nodes ! j)\<lparr>Children := cs\<rparr>" if "j < length nodes" for j
  proof -
    have j: "j < length ?nodes1" using that by simp
    obtain cs where "nodes' ! j = (?nodes1 ! j)\<lparr>Children := cs\<rparr>" using n'(3) j by blast
    moreover obtain cs1 where "?nodes1 ! j = (nodes ! j)\<lparr>Children := cs1\<rparr>"
      using same[OF \<open>j < length nodes\<close>] by blast
    ultimately show ?thesis by (intro exI[of _ cs]) simp
  qed
  then show ?case using loop n'(2) by auto
qed

lemma Unlock_all_redundant:
  assumes ne: "Nodes (NodeData t) \<noteq> []"
    and par: "\<forall>j<length (Nodes (NodeData t)). 0 < j \<longrightarrow> ParentIndex (Nodes (NodeData t) ! j) < j"
    and cu: "\<forall>j<length (Nodes (NodeData t)). CompleteUniform (Nodes (NodeData t) ! j)"
  shows "\<exists>cs. Unlock t True =
           Inr (t\<lparr>NodeData := (NodeData t)\<lparr>Nodes := [(Nodes (NodeData t) ! 0)\<lparr>Children := cs\<rparr>]\<rparr>,
                  bIsReadOnly := True\<rparr>)"
proof -
  let ?nodes = "Nodes (NodeData t)"
  let ?k = "length ?nodes - 1"
  have k: "?k < length ?nodes" using ne by simp
  have pre: "\<forall>j. 0 < j \<and> j \<le> ?k \<longrightarrow>
      ParentIndex (?nodes ! j) < length ?nodes \<and> CompleteUniform (?nodes ! ParentIndex (?nodes ! j))"
  proof (intro allI impI)
    fix j assume j: "0 < j \<and> j \<le> ?k"
    then have jl: "j < length ?nodes" using ne by (cases ?nodes) auto
    have "ParentIndex (?nodes ! j) < j" using par jl j by simp
    then have "ParentIndex (?nodes ! j) < length ?nodes" using jl by simp
    then show "ParentIndex (?nodes ! j) < length ?nodes \<and> CompleteUniform (?nodes ! ParentIndex (?nodes ! j))"
      using cu by simp
  qed
  obtain nodes' where n': "Unlock_loop (rev [1..<Suc ?k]) (?nodes, ?k) = Inr (nodes', 0)"
    "length nodes' = length ?nodes"
    "\<forall>j<length ?nodes. \<exists>cs. nodes' ! j = (?nodes ! j)\<lparr>Children := cs\<rparr>"
    using Unlock_loop_all_redundant[OF k pre] by blast
  obtain cs where cs: "nodes' ! 0 = (?nodes ! 0)\<lparr>Children := cs\<rparr>"
    using n'(3) ne by (cases ?nodes) auto
  have "take 1 nodes' = [nodes' ! 0]"
    using n'(2) ne by (cases nodes') auto
  then have "Unlock t True =
           Inr (t\<lparr>NodeData := (NodeData t)\<lparr>Nodes := [(?nodes ! 0)\<lparr>Children := cs\<rparr>]\<rparr>, bIsReadOnly := True\<rparr>)"
    using ne n'(1) cs by (simp add: Unlock_def Let_def del: upt_Suc)
  then show ?thesis by blast
qed

subsection \<open>A single insertion into a fresh tree\<close>

lemma emplace_nodes:
  fixes nodes :: "FNode list" and self i :: nat and cb :: FBox
  assumes "self < length nodes"
  defines "new \<equiv> length nodes"
  defines "nodes1 \<equiv> nodes @ [FNode_default]"
  defines "nodes2 \<equiv> nodes1[self := (nodes1 ! self)\<lparr>Children := (Children (nodes1 ! self))[i := new]\<rparr>]"
  defines "nodes3 \<equiv> nodes2[new := (nodes2 ! new)\<lparr>Bounds := cb\<rparr>]"
  defines "nodes4 \<equiv> nodes3[new := (nodes3 ! new)\<lparr>ParentIndex := self\<rparr>]"
  shows "nodes4 = nodes[self := (nodes ! self)\<lparr>Children := (Children (nodes ! self))[i := length nodes]\<rparr>]
                    @ [FNode_default\<lparr>Bounds := cb, ParentIndex := self\<rparr>]"
proof -
  let ?u = "nodes[self := (nodes ! self)\<lparr>Children := (Children (nodes ! self))[i := new]\<rparr>]"
  have n2: "nodes2 = ?u @ [FNode_default]"
    using assms(1) by (simp add: nodes2_def nodes1_def list_update_append1 nth_append)
  have lu: "length ?u = new" by (simp add: new_def)
  have n3: "nodes3 = ?u @ [FNode_default\<lparr>Bounds := cb\<rparr>]"
    unfolding nodes3_def n2 using lu by (metis list_update_length nth_append_length)
  have n4: "nodes4 = ?u @ [FNode_default\<lparr>Bounds := cb, ParentIndex := self\<rparr>]"
    unfolding nodes4_def n3 using lu by (metis list_update_length nth_append_length)
  then show ?thesis by (simp add: new_def)
qed

lemma AddNodes_visit_frame:
  assumes "AddNodes_visit qb idx self nd = Inr nd1"
  shows "length (Nodes nd1) = length (Nodes nd)"
    and "j \<noteq> self \<Longrightarrow> Nodes nd1 ! j = Nodes nd ! j"
    and "self < length (Nodes nd) \<Longrightarrow> Children (Nodes nd1 ! self) = Children (Nodes nd ! self)"
  using assms
  by (auto simp: AddNodes_visit_def Let_def split: if_splits)

lemma AddNodes_merge_frame:
  "length (fst (AddNodes_merge self i (nodes, prev))) = length nodes"
  "j \<noteq> self \<Longrightarrow> fst (AddNodes_merge self i (nodes, prev)) ! j = nodes ! j"
  "self < length nodes \<Longrightarrow> Children (fst (AddNodes_merge self i (nodes, prev)) ! self) = Children (nodes ! self)"
  by (simp_all add: AddNodes_merge_def Let_def)

lemma AddNodes_merge_flags:
  assumes "self < length nodes"
    and "CompleteUniform (fst (AddNodes_merge self i (nodes, prev)) ! self)"
  shows "CompleteUniform (nodes ! self) \<and> 0 < Children (nodes ! self) ! i \<and>
         CompleteUniform (nodes ! (Children (nodes ! self) ! i))"
proof -
  let ?c = "Children (nodes ! self) ! i"
  have pos: "0 < ?c"
  proof (rule ccontr)
    assume "\<not> 0 < ?c"
    then show False using assms by (simp add: AddNodes_merge_def Let_def CompleteUniform_def)
  qed
  let ?prev1 = "if ParentIndex prev = INVALID_PARENT then nodes ! ?c else prev"
  have u: "IsSubtreeSameQuadMesh (nodes ! ?c) \<and> CanMerge (nodes ! ?c) ?prev1"
  proof (rule ccontr)
    assume "\<not> (IsSubtreeSameQuadMesh (nodes ! ?c) \<and> CanMerge (nodes ! ?c) ?prev1)"
    then show False using assms pos
      by (auto simp: AddNodes_merge_def Let_def CompleteUniform_def split: if_splits)
  qed
  have c: "HasCompleteSubtree (nodes ! ?c)"
  proof (rule ccontr)
    assume "\<not> HasCompleteSubtree (nodes ! ?c)"
    then show False using assms pos u
      by (auto simp: AddNodes_merge_def Let_def CompleteUniform_def split: if_splits)
  qed
  have "fst (AddNodes_merge self i (nodes, prev)) = nodes"
    using pos u c by (simp add: AddNodes_merge_def Let_def)
  then show ?thesis using assms(2) pos u c by (simp add: CompleteUniform_def)
qed

lemma fresh_children:
  assumes rec: "fresh_ok rec"
  shows "distinct slots \<Longrightarrow> set slots \<subseteq> {0..<4} \<Longrightarrow> self < length (Nodes nd) \<Longrightarrow>
         length (Children (Nodes nd ! self)) = 4 \<Longrightarrow>
         \<forall>s\<in>set slots. Children (Nodes nd ! self) ! s = 0 \<Longrightarrow>
         AddNodes_children rec mb qb self half slots (nd, prev) = Inr st \<Longrightarrow>
         length (Nodes nd) \<le> length (Nodes (fst st)) \<and>
         (\<forall>j<length (Nodes nd). j \<noteq> self \<longrightarrow> Nodes (fst st) ! j = Nodes nd ! j) \<and>
         (CompleteUniform (Nodes (fst st) ! self) \<longrightarrow>
            CompleteUniform (Nodes nd ! self) \<and>
            (\<forall>j. length (Nodes nd) \<le> j \<and> j < length (Nodes (fst st)) \<longrightarrow>
                 CompleteUniform (Nodes (fst st) ! j)))"
proof (induction slots arbitrary: nd prev)
  case Nil
  then show ?case by auto
next
  case (Cons i rest)
  let ?nodes = "Nodes nd"
  let ?n = "length ?nodes"
  have i: "i < 4" and rest: "set rest \<subseteq> {0..<4}" and dist: "distinct rest" and inot: "i \<notin> set rest"
    using Cons.prems(1,2) by auto
  have self: "self < ?n" and l4: "length (Children (?nodes ! self)) = 4"
    and free: "Children (?nodes ! self) ! i = 0"
    and zeros: "\<forall>s\<in>set rest. Children (?nodes ! self) ! s = 0"
    using Cons.prems(3,4,5) by auto
  obtain nd1 where child: "AddNodes_child rec mb qb self half i nd = Inr nd1"
    using Cons.prems(6) by (auto split: sum.splits)
  let ?m = "AddNodes_merge self i (Nodes nd1, prev)"
  let ?nd2 = "nd1\<lparr>Nodes := fst ?m\<rparr>"
  have loop: "AddNodes_children rec mb qb self half rest (?nd2, snd ?m) = Inr st"
    using Cons.prems(6) child by (simp add: Let_def)
  let ?cb = "AddNodes_ChildBounds (Bounds (?nodes ! self)) half qb i"
  let ?u = "(?nodes ! self)\<lparr>Children := (Children (?nodes ! self))[i := ?n]\<rparr>"
  let ?nodes4 = "?nodes[self := ?u] @ [FNode_default\<lparr>Bounds := ?cb, ParentIndex := self\<rparr>]"
  have step: "length ?nodes \<le> length (Nodes nd1) \<and>
              (\<forall>j<?n. j \<noteq> self \<longrightarrow> Nodes nd1 ! j = ?nodes ! j) \<and>
              (Nodes nd1 ! self = ?nodes ! self \<or> Nodes nd1 ! self = ?u) \<and>
              (CompleteUniform (fst ?m ! self) \<longrightarrow>
                 CompleteUniform (?nodes ! self) \<and>
                 (\<forall>j. ?n \<le> j \<and> j < length (Nodes nd1) \<longrightarrow> CompleteUniform (Nodes nd1 ! j)))"
  proof (cases "IntersectXY ?cb qb \<and> IntersectXY ?cb mb")
    case False
    then have eq: "nd1 = nd" using child free by (auto simp: AddNodes_child_def Let_def)
    have "\<not> CompleteUniform (fst ?m ! self)"
      using AddNodes_merge_flags[of self "Nodes nd1" i prev] self free eq by auto
    then show ?thesis using eq by simp
  next
    case True
    have e: "AddNodes_child rec mb qb self half i nd =
               (if \<not> ?n < NodesMax nd then Inl ArenaOverflow else rec ?n (nd\<lparr>Nodes := ?nodes4\<rparr>))"
      using free True emplace_nodes[OF self, of i ?cb]
      by (simp add: AddNodes_child_def Let_def)
    then have r: "rec ?n (nd\<lparr>Nodes := ?nodes4\<rparr>) = Inr nd1"
      using child by (simp split: if_splits)
    have "fresh_post ?n (nd\<lparr>Nodes := ?nodes4\<rparr>) nd1"
      using rec r unfolding fresh_ok_def
      by (auto simp: nth_append FNode_default_def dest!: spec[of _ ?n] spec[of _ "nd\<lparr>Nodes := ?nodes4\<rparr>"] spec[of _ nd1])
    then have fp: "Suc ?n \<le> length (Nodes nd1)"
      "\<And>j. j < Suc ?n \<Longrightarrow> j \<noteq> ?n \<Longrightarrow> Nodes nd1 ! j = ?nodes4 ! j"
      "CompleteUniform (Nodes nd1 ! ?n) \<Longrightarrow>
         (\<forall>j. Suc ?n \<le> j \<and> j < length (Nodes nd1) \<longrightarrow> CompleteUniform (Nodes nd1 ! j))"
      by (simp_all add: fresh_post_def)
    have old: "Nodes nd1 ! j = ?nodes ! j" if "j < ?n" "j \<noteq> self" for j
      using fp(2)[of j] that by (simp add: nth_append)
    have s1: "Nodes nd1 ! self = ?u"
      using fp(2)[of self] self by (simp add: nth_append)
    have ci: "Children (Nodes nd1 ! self) ! i = ?n"
      using s1 l4 i by simp
    have sl1: "self < length (Nodes nd1)" using self fp(1) by simp
    have flags: "CompleteUniform (?nodes ! self) \<and>
                 (\<forall>j. ?n \<le> j \<and> j < length (Nodes nd1) \<longrightarrow> CompleteUniform (Nodes nd1 ! j))"
      if cu: "CompleteUniform (fst ?m ! self)"
    proof -
      have a: "CompleteUniform (Nodes nd1 ! self)" "CompleteUniform (Nodes nd1 ! ?n)"
        using AddNodes_merge_flags[OF sl1 cu] ci by simp_all
      have "CompleteUniform (?nodes ! self)"
        using a(1) s1 by (simp add: CompleteUniform_def)
      moreover have "CompleteUniform (Nodes nd1 ! j)" if "?n \<le> j" "j < length (Nodes nd1)" for j
      proof (cases "j = ?n")
        case True
        then show ?thesis using a(2) by simp
      next
        case False
        then show ?thesis using fp(3)[OF a(2)] that by simp
      qed
      ultimately show ?thesis by simp
    qed
    show ?thesis using fp(1) old s1 flags by auto
  qed
  have len1: "?n \<le> length (Nodes nd1)"
    and old1: "\<And>j. j < ?n \<Longrightarrow> j \<noteq> self \<Longrightarrow> Nodes nd1 ! j = ?nodes ! j"
    and self1: "Nodes nd1 ! self = ?nodes ! self \<or> Nodes nd1 ! self = ?u"
    and flags1: "CompleteUniform (fst ?m ! self) \<Longrightarrow>
                 CompleteUniform (?nodes ! self) \<and>
                 (\<forall>j. ?n \<le> j \<and> j < length (Nodes nd1) \<longrightarrow> CompleteUniform (Nodes nd1 ! j))"
    using step by auto
  have sl1: "self < length (Nodes nd1)" using self len1 by simp
  have c2: "Children (Nodes ?nd2 ! self) = Children (Nodes nd1 ! self)"
    using AddNodes_merge_frame(3)[OF sl1] by simp
  have l4_2: "length (Children (Nodes ?nd2 ! self)) = 4"
    using c2 self1 l4 by auto
  have zeros2: "\<forall>s\<in>set rest. Children (Nodes ?nd2 ! self) ! s = 0"
  proof
    fix s assume s: "s \<in> set rest"
    then have "s \<noteq> i" using inot by auto
    then show "Children (Nodes ?nd2 ! self) ! s = 0"
      using c2 self1 zeros s by auto
  qed
  have sl2: "self < length (Nodes ?nd2)"
    using sl1 by (simp add: AddNodes_merge_frame(1))
  note IH = Cons.IH[OF dist rest sl2 l4_2 zeros2 loop]
  have len2: "length (Nodes ?nd2) = length (Nodes nd1)"
    by (simp add: AddNodes_merge_frame(1))
  have f2: "Nodes ?nd2 ! j = Nodes nd1 ! j" if "j \<noteq> self" for j
    using that by (simp add: AddNodes_merge_frame(2))
  have A: "?n \<le> length (Nodes (fst st))" using IH len2 len1 by simp
  have B: "Nodes (fst st) ! j = ?nodes ! j" if "j < ?n" "j \<noteq> self" for j
  proof -
    have "j < length (Nodes ?nd2)" using that len1 len2 by simp
    then have "Nodes (fst st) ! j = Nodes ?nd2 ! j" using IH that by simp
    then show ?thesis using f2 old1 that by simp
  qed
  have C: "CompleteUniform (?nodes ! self) \<and>
           (\<forall>j. ?n \<le> j \<and> j < length (Nodes (fst st)) \<longrightarrow> CompleteUniform (Nodes (fst st) ! j))"
    if cu: "CompleteUniform (Nodes (fst st) ! self)"
  proof -
    have a: "CompleteUniform (Nodes ?nd2 ! self)"
      and b: "\<forall>j. length (Nodes ?nd2) \<le> j \<and> j < length (Nodes (fst st)) \<longrightarrow>
                  CompleteUniform (Nodes (fst st) ! j)"
      using IH cu by auto
    have a': "CompleteUniform (fst ?m ! self)" using a by simp
    note fl = flags1[OF a']
    have "CompleteUniform (Nodes (fst st) ! j)" if j: "?n \<le> j" "j < length (Nodes (fst st))" for j
    proof (cases "j < length (Nodes nd1)")
      case True
      have js: "j \<noteq> self" using j self by simp
      have "Nodes (fst st) ! j = Nodes ?nd2 ! j" using IH True len2 js by simp
      then show ?thesis using f2[OF js] fl j True by simp
    next
      case False
      then show ?thesis using b len2 j by simp
    qed
    then show ?thesis using fl by simp
  qed
  show ?case using A B C by blast
qed

lemma AddNodes_fresh: "fresh_ok (AddNodes l mb qb idx)"
proof (induction l)
  case 0
  show ?case
    unfolding fresh_ok_def fresh_post_def
    using AddNodes_visit_frame by auto
next
  case (Suc l)
  show ?case
    unfolding fresh_ok_def
  proof (intro allI impI, elim conjE)
    fix c nd nd'
    assume c: "c < length (Nodes nd)" and z: "Children (Nodes nd ! c) = [0, 0, 0, 0]"
      and r: "AddNodes (Suc l) mb qb idx c nd = Inr nd'"
    obtain nd1 where v: "AddNodes_visit qb idx c nd = Inr nd1"
      using r by (auto split: sum.splits)
    note f = AddNodes_visit_frame[OF v]
    let ?half = "vscale2 (XY (GetSize (Bounds (Nodes nd1 ! c)))) 0.5"
    obtain st where loop: "AddNodes_children (AddNodes l mb qb idx) mb qb c ?half [0, 1, 2, 3]
                              (nd1, Nodes nd1 ! 0) = Inr st" and nd': "nd' = fst st"
      using r v by (auto simp: Let_def split: sum.splits)
    have c1: "c < length (Nodes nd1)" using c f(1) by simp
    have z1: "Children (Nodes nd1 ! c) = [0, 0, 0, 0]" using f(3)[OF c] z by simp
    have "length (Nodes nd1) \<le> length (Nodes (fst st)) \<and>
         (\<forall>j<length (Nodes nd1). j \<noteq> c \<longrightarrow> Nodes (fst st) ! j = Nodes nd1 ! j) \<and>
         (CompleteUniform (Nodes (fst st) ! c) \<longrightarrow>
            CompleteUniform (Nodes nd1 ! c) \<and>
            (\<forall>j. length (Nodes nd1) \<le> j \<and> j < length (Nodes (fst st)) \<longrightarrow>
                 CompleteUniform (Nodes (fst st) ! j)))"
      using fresh_children[OF Suc _ _ c1 _ _ loop] z1 by (simp add: lt4_nat nth_Cons')
    then show "fresh_post c nd nd'"
      unfolding fresh_post_def nd' using f(1) f(2) by auto
  qed
qed

lemma BuildOps_render_prefix:
  "\<exists>t0. BuildOps t (map AddRenderData rds @ ops) = BuildOps t0 ops \<and>
         Nodes (NodeData t0) = Nodes (NodeData t) \<and> (tree_inv t \<longrightarrow> tree_inv t0)"
proof (induction rds arbitrary: t)
  case Nil
  then show ?case by auto
next
  case (Cons rd rds)
  obtain t0 where "BuildOps (snd (AddQuadtreeMeshRenderData t rd)) (map AddRenderData rds @ ops) = BuildOps t0 ops"
    "Nodes (NodeData t0) = Nodes (NodeData (snd (AddQuadtreeMeshRenderData t rd)))"
    "tree_inv (snd (AddQuadtreeMeshRenderData t rd)) \<longrightarrow> tree_inv t0"
    using Cons.IH by blast
  then show ?case
    using AddRenderData_tree_inv[of t rd] by (intro exI[of _ t0]) (simp add: AddRenderData_fields)
qed

lemma single_insertion_collapsible:
  assumes "Nodes (NodeData t0) = [r]" and "Children r = [0, 0, 0, 0]"
    and "AddQuadMeshTilesInsideBounds t0 b i = Inr t1"
    and "CompleteUniform (Nodes (NodeData t1) ! 0)"
  shows "\<forall>j<length (Nodes (NodeData t1)). CompleteUniform (Nodes (NodeData t1) ! j)"
proof -
  let ?mb = "Box (Vec3of (Min2D (TileRegion t0)) 0) (Vec3of (Max2D (TileRegion t0)) 0)"
  obtain nd1 where a: "AddNodes (TreeDepth t0) ?mb b i 0 (NodeData t0) = Inr nd1"
    and t1: "t1 = t0\<lparr>NodeData := nd1\<rparr>"
    using assms(3) by (auto simp: AddQuadMeshTilesInsideBounds_def split: if_splits sum.splits)
  have "fresh_post 0 (NodeData t0) nd1"
    using AddNodes_fresh[of "TreeDepth t0" ?mb b i] a assms(1,2) unfolding fresh_ok_def
    by (auto dest!: spec[of _ 0] spec[of _ "NodeData t0"] spec[of _ nd1])
  then have "\<forall>j. 1 \<le> j \<and> j < length (Nodes nd1) \<longrightarrow> CompleteUniform (Nodes nd1 ! j)"
    using assms(1,4) t1 by (simp add: fresh_post_def)
  then have "CompleteUniform (Nodes nd1 ! j)" if "j < length (Nodes nd1)" for j
    using that assms(4) t1 by (cases "j = 0") auto
  then show ?thesis using t1 by simp
qed

text \<open>
  C5, amended.  Let exactly one region be inserted after \<open>InitTree\<close> (render-data
  records may be added before it), and let the insertion leave the root with a complete
  and identity-uniform subtree.  Then \<open>Unlock\<close> with pruning succeeds and leaves
  exactly one node in the arena: the root, with its child slots cleared.
\<close>

theorem single_region_collapses_when_complete:
  fixes t :: FMeshQuadTree and InBounds :: FBox2D and InTileSize :: real
    and InExtentInTiles :: "int \<times> int"
  assumes "InitTree t InBounds InTileSize InExtentInTiles = Inr t00"
    and "BuildOps t00 (map AddRenderData rds @ [AddTiles b i]) = Inr t1"
    and "HasCompleteSubtree (Nodes (NodeData t1) ! 0)"
    and "IsSubtreeSameQuadMesh (Nodes (NodeData t1) ! 0)"
  shows "\<exists>cs. Unlock t1 True =
           Inr (t1\<lparr>NodeData := (NodeData t1)\<lparr>Nodes := [(Nodes (NodeData t1) ! 0)\<lparr>Children := cs\<rparr>]\<rparr>,
                   bIsReadOnly := True\<rparr>)"
proof -
  have inv00: "tree_inv t00" using assms(1) by (rule InitTree_tree_inv)
  obtain b0 where n00: "Nodes (NodeData t00) = [FNode_default\<lparr>Bounds := b0\<rparr>]"
    using InitTree_Inr(1)[OF assms(1)] by blast
  obtain t0 where t0: "BuildOps t00 (map AddRenderData rds @ [AddTiles b i]) = BuildOps t0 [AddTiles b i]"
    "Nodes (NodeData t0) = Nodes (NodeData t00)" "tree_inv t0"
    using BuildOps_render_prefix[of t00 rds "[AddTiles b i]"] inv00 by blast
  have ins: "AddQuadMeshTilesInsideBounds t0 b i = Inr t1"
    using assms(2) t0(1) by (auto split: sum.splits)
  have inv1: "tree_inv t1" using AddTiles_tree_inv(2)[OF t0(3) ins] by simp
  have sh: "shape_inv (TreeDepth t1) (map Children (Nodes (NodeData t1))) (map ParentIndex (Nodes (NodeData t1)))"
    using inv1 by (simp add: tree_inv_def arena_inv_def)
  have ne: "Nodes (NodeData t1) \<noteq> []" using sh by (auto simp: shape_inv_def)
  have par: "\<forall>j<length (Nodes (NodeData t1)). 0 < j \<longrightarrow> ParentIndex (Nodes (NodeData t1) ! j) < j"
    using sh by (auto simp: shape_inv_def)
  have root: "CompleteUniform (Nodes (NodeData t1) ! 0)"
    using assms(3,4) by (simp add: CompleteUniform_def)
  have cu: "\<forall>j<length (Nodes (NodeData t1)). CompleteUniform (Nodes (NodeData t1) ! j)"
    using single_insertion_collapsible[OF _ _ ins root, of "FNode_default\<lparr>Bounds := b0\<rparr>"] t0(2) n00
    by (simp add: FNode_default_def)
  show ?thesis using ne par cu by (rule Unlock_all_redundant)
qed

text \<open>
  The scenario of the specification, on the example tree: one region over the whole root
  box leaves the root complete and uniform, and pruning leaves the root alone.
\<close>

theorem single_region_collapses_when_complete_witness:
  "InitTree EmptyTree (Box2D (Vec2 0 0) (Vec2 64 64)) 32 (1, 1) = Inr Example0 \<and>
   BuildOps Example0
     (map AddRenderData [\<lparr>Material = Some 7, SurfaceBaseHeight = 5, MaterialIndex = 0\<rparr>]
        @ [AddTiles (Box (Vec3 0 0 0) (Vec3 64 64 10)) 1]) = Inr (ExTree ExFullNodes ExRenderData1 False) \<and>
   HasCompleteSubtree (ExFullNodes ! 0) \<and> IsSubtreeSameQuadMesh (ExFullNodes ! 0) \<and>
   length ExFullNodes = 5 \<and>
   Unlock (ExTree ExFullNodes ExRenderData1 False) True = Inr (ExTree ExFullPrunedNodes ExRenderData1 True) \<and>
   length ExFullPrunedNodes = 1 \<and>
   (\<exists>cs. ExFullPrunedNodes = [(ExFullNodes ! 0)\<lparr>Children := cs\<rparr>])"
proof -
  let ?T = "ExTree ExFullNodes ExRenderData1 False"
  have i: "InitTree EmptyTree (Box2D (Vec2 0 0) (Vec2 64 64)) 32 (1, 1) = Inr Example0"
    by (simp add: Example0_init Example0_eq)
  have b: "BuildOps Example0
     (map AddRenderData [\<lparr>Material = Some 7, SurfaceBaseHeight = 5, MaterialIndex = 0\<rparr>]
        @ [AddTiles (Box (Vec3 0 0 0) (Vec3 64 64 10)) 1]) = Inr ?T"
    using ExFull_built by (simp add: Example1_def)
  have n: "Nodes (NodeData ?T) = ExFullNodes" by (simp add: ExTree_def)
  have f: "HasCompleteSubtree (ExFullNodes ! 0)" "IsSubtreeSameQuadMesh (ExFullNodes ! 0)"
    "length ExFullNodes = 5" "length ExFullPrunedNodes = 1"
    by (simp_all add: ExFullNodes_def ExFullPrunedNodes_def ExNode_def)
  have f': "HasCompleteSubtree (Nodes (NodeData ?T) ! 0)" "IsSubtreeSameQuadMesh (Nodes (NodeData ?T) ! 0)"
    using f n by simp_all
  obtain cs where "Unlock ?T True =
      Inr (?T\<lparr>NodeData := (NodeData ?T)\<lparr>Nodes := [(Nodes (NodeData ?T) ! 0)\<lparr>Children := cs\<rparr>]\<rparr>,
              bIsReadOnly := True\<rparr>)"
    using single_region_collapses_when_complete[OF i b f'] by blast
  then have "ExFullPrunedNodes = [(ExFullNodes ! 0)\<lparr>Children := cs\<rparr>]"
    using ExFull_pruned n by (simp add: ExTree_def)
  then have "\<exists>cs. ExFullPrunedNodes = [(ExFullNodes ! 0)\<lparr>Children := cs\<rparr>]" by blast
  then show ?thesis using i b f ExFull_pruned by simp
qed

subsection \<open>Arenas that the height query cannot tell apart\<close>

lemma FindChildAt_sim:
  assumes "length cs = length cs'"
    and "\<forall>s<length cs. (cs ! s = 0 \<longleftrightarrow> cs' ! s = 0) \<and>
           (0 < cs ! s \<longrightarrow> cs ! s < length A \<and> cs' ! s < length B \<and>
              Bounds (A ! (cs ! s)) = Bounds (B ! (cs' ! s)) \<and> R (cs ! s) (cs' ! s))"
  shows "(FindChildAt A cs p = Inr None \<and> FindChildAt B cs' p = Inr None) \<or>
         (\<exists>c c'. FindChildAt A cs p = Inr (Some c) \<and> FindChildAt B cs' p = Inr (Some c') \<and> R c c')"
  using assms
proof (induction cs cs' rule: list_induct2)
  case Nil
  then show ?case by simp
next
  case (Cons c cs c' cs')
  have hd: "(c = 0 \<longleftrightarrow> c' = 0) \<and>
            (0 < c \<longrightarrow> c < length A \<and> c' < length B \<and> Bounds (A ! c) = Bounds (B ! c') \<and> R c c')"
    using Cons.prems by (auto dest!: spec[of _ 0])
  have tl: "\<forall>s<length cs. (cs ! s = 0 \<longleftrightarrow> cs' ! s = 0) \<and>
           (0 < cs ! s \<longrightarrow> cs ! s < length A \<and> cs' ! s < length B \<and>
              Bounds (A ! (cs ! s)) = Bounds (B ! (cs' ! s)) \<and> R (cs ! s) (cs' ! s))"
  proof (intro allI impI)
    fix s assume "s < length cs"
    then show "(cs ! s = 0 \<longleftrightarrow> cs' ! s = 0) \<and>
           (0 < cs ! s \<longrightarrow> cs ! s < length A \<and> cs' ! s < length B \<and>
              Bounds (A ! (cs ! s)) = Bounds (B ! (cs' ! s)) \<and> R (cs ! s) (cs' ! s))"
      using Cons.prems spec[of _ "Suc s"] by auto
  qed
  note IH = Cons.IH[OF tl]
  show ?case
  proof (cases "c = 0")
    case True
    then show ?thesis using hd IH by simp
  next
    case False
    then show ?thesis using hd IH by auto
  qed
qed

lemma qsim_sym:
  assumes "qsim R A B"
  shows "qsim (\<lambda>a b. R b a) B A"
  unfolding qsim_def
proof (intro allI impI)
  fix i i' assume r: "R i' i"
  have a: "HasCompleteSubtree (A ! i') = HasCompleteSubtree (B ! i)"
    "IsSubtreeSameQuadMesh (A ! i') = IsSubtreeSameQuadMesh (B ! i)"
    "QuadMeshIndex (A ! i') = QuadMeshIndex (B ! i)"
    using assms r unfolding qsim_def by blast+
  have cu: "CompleteUniform (A ! i') = CompleteUniform (B ! i)"
    using a by (simp add: CompleteUniform_def)
  have b: "length (Children (A ! i')) = length (Children (B ! i)) \<and>
           (\<forall>s<length (Children (A ! i')).
               (Children (A ! i') ! s = 0 \<longleftrightarrow> Children (B ! i) ! s = 0) \<and>
               (0 < Children (A ! i') ! s \<longrightarrow>
                  Children (A ! i') ! s < length A \<and> Children (B ! i) ! s < length B \<and>
                  Bounds (A ! (Children (A ! i') ! s)) = Bounds (B ! (Children (B ! i) ! s)) \<and>
                  R (Children (A ! i') ! s) (Children (B ! i) ! s)))"
    if "\<not> CompleteUniform (B ! i)"
    using assms r that cu unfolding qsim_def by blast
  show "HasCompleteSubtree (B ! i) = HasCompleteSubtree (A ! i') \<and>
        IsSubtreeSameQuadMesh (B ! i) = IsSubtreeSameQuadMesh (A ! i') \<and>
        QuadMeshIndex (B ! i) = QuadMeshIndex (A ! i') \<and>
        (\<not> CompleteUniform (B ! i) \<longrightarrow>
           length (Children (B ! i)) = length (Children (A ! i')) \<and>
           (\<forall>s<length (Children (B ! i)).
               (Children (B ! i) ! s = 0 \<longleftrightarrow> Children (A ! i') ! s = 0) \<and>
               (0 < Children (B ! i) ! s \<longrightarrow>
                  Children (B ! i) ! s < length B \<and> Children (A ! i') ! s < length A \<and>
                  Bounds (B ! (Children (B ! i) ! s)) = Bounds (A ! (Children (A ! i') ! s)) \<and>
                  R (Children (A ! i') ! s) (Children (B ! i) ! s))))"
  proof (intro conjI impI)
    assume n: "\<not> CompleteUniform (B ! i)"
    show "length (Children (B ! i)) = length (Children (A ! i'))" using b[OF n] by simp
    show "\<forall>s<length (Children (B ! i)).
               (Children (B ! i) ! s = 0 \<longleftrightarrow> Children (A ! i') ! s = 0) \<and>
               (0 < Children (B ! i) ! s \<longrightarrow>
                  Children (B ! i) ! s < length B \<and> Children (A ! i') ! s < length A \<and>
                  Bounds (B ! (Children (B ! i) ! s)) = Bounds (A ! (Children (A ! i') ! s)) \<and>
                  R (Children (A ! i') ! s) (Children (B ! i) ! s))"
    proof (intro allI impI)
      fix s assume s: "s < length (Children (B ! i))"
      then have s': "s < length (Children (A ! i'))" using b[OF n] by simp
      have z: "(Children (A ! i') ! s = 0 \<longleftrightarrow> Children (B ! i) ! s = 0)"
        and pos: "0 < Children (A ! i') ! s \<longrightarrow>
                  Children (A ! i') ! s < length A \<and> Children (B ! i) ! s < length B \<and>
                  Bounds (A ! (Children (A ! i') ! s)) = Bounds (B ! (Children (B ! i) ! s)) \<and>
                  R (Children (A ! i') ! s) (Children (B ! i) ! s)"
        using b[OF n] s' by blast+
      have "0 < Children (B ! i) ! s \<Longrightarrow> 0 < Children (A ! i') ! s" using z by simp
      then show "(Children (B ! i) ! s = 0 \<longleftrightarrow> Children (A ! i') ! s = 0) \<and>
               (0 < Children (B ! i) ! s \<longrightarrow>
                  Children (B ! i) ! s < length B \<and> Children (A ! i') ! s < length A \<and>
                  Bounds (B ! (Children (B ! i) ! s)) = Bounds (A ! (Children (A ! i') ! s)) \<and>
                  R (Children (A ! i') ! s) (Children (B ! i) ! s))"
        using z pos by auto
    qed
  qed (simp_all add: a)
qed

lemma Query_sim_forward:
  assumes sim: "qsim R (Nodes ndA) (Nodes ndB)"
    and rd: "QuadMeshRenderData ndA = QuadMeshRenderData ndB"
    and q: "QueryBaseHeightAtLocation nd0 n0 p0 = Some r0"
  shows "nd0 = ndA \<longrightarrow> (\<forall>i i'. n0 = Nodes ndA ! i \<and> R i i' \<longrightarrow>
            QueryBaseHeightAtLocation ndB (Nodes ndB ! i') p0 = Some r0)"
proof (rule QueryBaseHeightAtLocation.raw_induct[where
      P = "\<lambda>nd n p r. nd = ndA \<longrightarrow> (\<forall>i i'. n = Nodes ndA ! i \<and> R i i' \<longrightarrow>
            QueryBaseHeightAtLocation ndB (Nodes ndB ! i') p = Some r)", OF _ q])
  fix Q :: "FNodeData \<Rightarrow> FNode \<Rightarrow> FVector2D \<Rightarrow> (error + bool \<times> real) option"
    and nd n p r
  assume IH: "\<And>n p b y. Q n p b = Some y \<Longrightarrow>
         n = ndA \<longrightarrow> (\<forall>i i'. p = Nodes ndA ! i \<and> R i i' \<longrightarrow>
            QueryBaseHeightAtLocation ndB (Nodes ndB ! i') b = Some y)"
    and eq: "(if HasCompleteSubtree n \<and> IsSubtreeSameQuadMesh n then Some (BaseHeightOf nd n True)
         else case FindChildAt (Nodes nd) (Children n) p of Inl e \<Rightarrow> Some (Inl e)
              | Inr None \<Rightarrow> Some (BaseHeightOf nd n False)
              | Inr (Some c) \<Rightarrow> Q nd (Nodes nd ! c) p) = Some r"
  show "nd = ndA \<longrightarrow> (\<forall>i i'. n = Nodes ndA ! i \<and> R i i' \<longrightarrow>
            QueryBaseHeightAtLocation ndB (Nodes ndB ! i') p = Some r)"
  proof (intro impI allI, elim conjE)
    fix i i' assume nd: "nd = ndA" and n: "n = Nodes ndA ! i" and r: "R i i'"
    let ?A = "Nodes ndA" and ?B = "Nodes ndB"
    have f: "HasCompleteSubtree (?A ! i) = HasCompleteSubtree (?B ! i')"
      "IsSubtreeSameQuadMesh (?A ! i) = IsSubtreeSameQuadMesh (?B ! i')"
      "QuadMeshIndex (?A ! i) = QuadMeshIndex (?B ! i')"
      using sim r unfolding qsim_def by blast+
    have bh: "BaseHeightOf ndA (?A ! i) b = BaseHeightOf ndB (?B ! i') b" for b
      using f rd by (simp add: BaseHeightOf_def)
    show "QueryBaseHeightAtLocation ndB (?B ! i') p = Some r"
    proof (cases "HasCompleteSubtree (?A ! i) \<and> IsSubtreeSameQuadMesh (?A ! i)")
      case True
      then have "r = BaseHeightOf ndA (?A ! i) True" using eq nd n by simp
      then show ?thesis using True f bh
        by (subst QueryBaseHeightAtLocation.simps) simp
    next
      case False
      then have ncu: "\<not> CompleteUniform (?A ! i)" by (simp add: CompleteUniform_def)
      have ch: "length (Children (?A ! i)) = length (Children (?B ! i'))"
        "\<forall>s<length (Children (?A ! i)).
               (Children (?A ! i) ! s = 0 \<longleftrightarrow> Children (?B ! i') ! s = 0) \<and>
               (0 < Children (?A ! i) ! s \<longrightarrow>
                  Children (?A ! i) ! s < length ?A \<and> Children (?B ! i') ! s < length ?B \<and>
                  Bounds (?A ! (Children (?A ! i) ! s)) = Bounds (?B ! (Children (?B ! i') ! s)) \<and>
                  R (Children (?A ! i) ! s) (Children (?B ! i') ! s))"
        using sim r ncu unfolding qsim_def by blast+
      from FindChildAt_sim[OF ch, of p]
      consider "FindChildAt ?A (Children (?A ! i)) p = Inr None" "FindChildAt ?B (Children (?B ! i')) p = Inr None"
        | c c' where "FindChildAt ?A (Children (?A ! i)) p = Inr (Some c)"
            "FindChildAt ?B (Children (?B ! i')) p = Inr (Some c')" "R c c'"
        by blast
      then show ?thesis
      proof cases
        case 1
        then have "r = BaseHeightOf ndA (?A ! i) False"
          using eq nd n False by simp
        then show ?thesis using 1 False f bh
          by (subst QueryBaseHeightAtLocation.simps) auto
      next
        case 2
        then have "Q ndA (?A ! c) p = Some r"
          using eq nd n False by simp
        then have "QueryBaseHeightAtLocation ndB (?B ! c') p = Some r"
          using IH 2(3) by blast
        then show ?thesis using 2 False f
          by (subst QueryBaseHeightAtLocation.simps) auto
      qed
    qed
  qed
qed

lemma Query_sim:
  assumes sim: "qsim R (Nodes ndA) (Nodes ndB)"
    and rd: "QuadMeshRenderData ndA = QuadMeshRenderData ndB"
    and r: "R i i'"
  shows "QueryBaseHeightAtLocation ndA (Nodes ndA ! i) p = QueryBaseHeightAtLocation ndB (Nodes ndB ! i') p"
proof (cases "QueryBaseHeightAtLocation ndA (Nodes ndA ! i) p")
  case (Some x)
  then show ?thesis using Query_sim_forward[OF sim rd Some] r by simp
next
  case None
  show ?thesis
  proof (cases "QueryBaseHeightAtLocation ndB (Nodes ndB ! i') p")
    case None': None
    then show ?thesis using None by simp
  next
    case (Some y)
    have "QueryBaseHeightAtLocation ndA (Nodes ndA ! i) p = Some y"
      using Query_sim_forward[OF qsim_sym[OF sim] rd[symmetric] Some] r by simp
    then show ?thesis using None by simp
  qed
qed
subsection \<open>The patch loop of \<open>SwapRemove\<close>\<close>

lemma same_but_links_refl: "same_but_links a a"
  by (simp add: same_but_links_def)

lemma same_but_links_trans:
  "same_but_links a b \<Longrightarrow> same_but_links b c \<Longrightarrow> same_but_links a c"
  by (simp add: same_but_links_def)

lemma same_but_links_fields:
  assumes "same_but_links a b"
  shows "Bounds b = Bounds a" "QuadMeshIndex b = QuadMeshIndex a"
    "HasCompleteSubtree b = HasCompleteSubtree a" "IsSubtreeSameQuadMesh b = IsSubtreeSameQuadMesh a"
    "HasMaterial b = HasMaterial a"
  using assms by (simp_all add: same_but_links_def)

lemma patched_nil: 
  assumes "\<forall>j<length cur. length (Children (cur ! j)) = 4"
  shows "patched k e q [] cur cur"
  using assms unfolding patched_def by (simp add: same_but_links_refl)

lemma patched_cons:
  assumes a: "patched k e q [i] cur mid" and b: "patched k e q rest mid res"
    and i: "i \<notin> set rest" "i < 4" and k: "k < length cur"
    and same: "\<forall>s<4. s \<noteq> i \<longrightarrow> Children (mid ! k) ! s = Children (cur ! k) ! s"
    and rest: "set rest \<subseteq> {0..<4}"
  shows "patched k e q (i # rest) cur res"
  unfolding patched_def
proof (intro conjI allI impI)
  show "length res = length cur" using a b unfolding patched_def by simp
next
  fix j assume j: "j < length cur"
  then have j': "j < length mid" using a unfolding patched_def by simp
  have A: "same_but_links (cur ! j) (mid ! j)" "length (Children (mid ! j)) = 4"
    "\<forall>s<4. Children (mid ! j) ! s =
                 (if j = q \<and> s \<in> set [i] \<and> Children (cur ! j) ! s = e then k
                  else Children (cur ! j) ! s)"
    "ParentIndex (mid ! j) =
          (if 0 < j \<and> (\<exists>s\<in>set [i]. Children (cur ! k) ! s = j) then k
           else ParentIndex (cur ! j))"
    using a j unfolding patched_def by blast+
  have B: "same_but_links (mid ! j) (res ! j)" "length (Children (res ! j)) = 4"
    "\<forall>s<4. Children (res ! j) ! s =
                 (if j = q \<and> s \<in> set rest \<and> Children (mid ! j) ! s = e then k
                  else Children (mid ! j) ! s)"
    "ParentIndex (res ! j) =
          (if 0 < j \<and> (\<exists>s\<in>set rest. Children (mid ! k) ! s = j) then k
           else ParentIndex (mid ! j))"
    using b j' unfolding patched_def by blast+
  show "same_but_links (cur ! j) (res ! j)" using A(1) B(1) by (rule same_but_links_trans)
  show "length (Children (res ! j)) = 4" by (rule B(2))
  show "ParentIndex (res ! j) =
          (if 0 < j \<and> (\<exists>s\<in>set (i # rest). Children (cur ! k) ! s = j) then k
           else ParentIndex (cur ! j))"
  proof -
    have "(\<exists>s\<in>set rest. Children (mid ! k) ! s = j) = (\<exists>s\<in>set rest. Children (cur ! k) ! s = j)"
      using same i rest by (metis atLeastLessThan_iff subsetD)
    then show ?thesis using A(4) B(4) by auto
  qed
  fix s :: nat assume s: "s < 4"
  show "Children (res ! j) ! s =
                 (if j = q \<and> s \<in> set (i # rest) \<and> Children (cur ! j) ! s = e then k
                  else Children (cur ! j) ! s)"
  proof (cases "s = i")
    case True
    then have "Children (res ! j) ! s = Children (mid ! j) ! s" using B(3) s i by simp
    then show ?thesis using A(3) s True by auto
  next
    case False
    then have "Children (mid ! j) ! s = Children (cur ! j) ! s" using A(3) s by simp
    then show ?thesis using B(3) s False by auto
  qed
qed

lemma patched_step:
  fixes e :: nat
  assumes len: "\<forall>j<length cur. length (Children (cur ! j)) = 4"
    and k: "k < length cur" and q: "q < length cur" and i: "i < 4"
    and c: "Children (cur ! k) ! i < length cur"
  defines "c \<equiv> Children (cur ! k) ! i"
  defines "nodes1 \<equiv> (if c > 0 then cur[c := (cur ! c)\<lparr>ParentIndex := k\<rparr>] else cur)"
  defines "nodes2 \<equiv> (if Children (nodes1 ! q) ! i = e
                      then nodes1[q := (nodes1 ! q)\<lparr>Children := (Children (nodes1 ! q))[i := k]\<rparr>]
                      else nodes1)"
  shows "patched k e q [i] cur nodes2"
  unfolding patched_def
proof (intro conjI allI impI)
  show l2: "length nodes2 = length cur" by (simp add: nodes2_def nodes1_def)
  have c': "c < length cur" using c c_def by simp
  have l1: "length nodes1 = length cur" by (simp add: nodes1_def)
  fix j assume j: "j < length cur"
  have n1: "nodes1 ! j = (if 0 < c \<and> j = c then (cur ! j)\<lparr>ParentIndex := k\<rparr> else cur ! j)"
    using j c' by (simp add: nodes1_def)
  have n1q: "Children (nodes1 ! q) = Children (cur ! q)"
    using q c' by (simp add: nodes1_def nth_list_update)
  have n2: "nodes2 ! j = (if j = q \<and> Children (cur ! q) ! i = e
                          then (nodes1 ! j)\<lparr>Children := (Children (cur ! q))[i := k]\<rparr> else nodes1 ! j)"
    using j q l1 by (simp add: nodes2_def n1q)
  show "same_but_links (cur ! j) (nodes2 ! j)"
    unfolding n2 n1 by (simp add: same_but_links_def)
  show "length (Children (nodes2 ! j)) = 4"
    unfolding n2 n1 using len j q by auto
  show "ParentIndex (nodes2 ! j) =
          (if 0 < j \<and> (\<exists>s\<in>set [i]. Children (cur ! k) ! s = j) then k
           else ParentIndex (cur ! j))"
    unfolding n2 n1 using c_def by auto
  fix s :: nat assume s: "s < 4"
  have "length (Children (cur ! q)) = 4" using len q by simp
  then show "Children (nodes2 ! j) ! s =
                 (if j = q \<and> s \<in> set [i] \<and> Children (cur ! j) ! s = e then k
                  else Children (cur ! j) ! s)"
    unfolding n2 n1 using s i by (auto simp: nth_list_update)
qed

lemma SwapRemove_patch_spec:
  assumes "distinct sl" and "set sl \<subseteq> {0..<4}"
    and "k < length cur" and "q < length cur"
    and "\<forall>j<length cur. length (Children (cur ! j)) = 4"
    and "\<forall>s<4. Children (cur ! k) ! s < length cur"
    and "q = k \<longrightarrow> (\<forall>s<4. Children (cur ! k) ! s \<noteq> e)"
  shows "\<exists>res. SwapRemove_patch k e q sl cur = Inr res \<and> patched k e q sl cur res"
  using assms
proof (induction sl arbitrary: cur)
  case Nil
  then show ?case by (simp add: patched_nil)
next
  case (Cons i rest)
  define c where "c = Children (cur ! k) ! i"
  define nodes1 where "nodes1 = (if c > 0 then cur[c := (cur ! c)\<lparr>ParentIndex := k\<rparr>] else cur)"
  define nodes2 where "nodes2 = (if Children (nodes1 ! q) ! i = e
                      then nodes1[q := (nodes1 ! q)\<lparr>Children := (Children (nodes1 ! q))[i := k]\<rparr>]
                      else nodes1)"
  have i: "i < 4" "i \<notin> set rest" using Cons.prems(1,2) by auto
  have c: "c < length cur" using Cons.prems(6) i by (simp add: c_def)
  have step: "patched k e q [i] cur nodes2"
    unfolding nodes2_def nodes1_def c_def
    by (rule patched_step[OF Cons.prems(5) Cons.prems(3) Cons.prems(4) i(1)])
       (use c in \<open>simp add: c_def\<close>)
  have l2: "length nodes2 = length cur" using step unfolding patched_def by simp
  have ch2: "\<forall>j<length nodes2. length (Children (nodes2 ! j)) = 4"
    using step unfolding patched_def by simp
  have samek: "\<forall>s<4. Children (nodes2 ! k) ! s = Children (cur ! k) ! s"
    using step Cons.prems(3,7) unfolding patched_def by auto
  have "\<exists>res. SwapRemove_patch k e q rest nodes2 = Inr res \<and> patched k e q rest nodes2 res"
  proof (rule Cons.IH)
    show "distinct rest" "set rest \<subseteq> {0..<4}" using Cons.prems(1,2) by auto
    show "k < length nodes2" "q < length nodes2" using Cons.prems(3,4) l2 by auto
    show "\<forall>j<length nodes2. length (Children (nodes2 ! j)) = 4" by (rule ch2)
    show "\<forall>s<4. Children (nodes2 ! k) ! s < length nodes2" using samek Cons.prems(6) l2 by simp
    show "q = k \<longrightarrow> (\<forall>s<4. Children (nodes2 ! k) ! s \<noteq> e)" using samek Cons.prems(7) by simp
  qed
  then obtain res where res: "SwapRemove_patch k e q rest nodes2 = Inr res"
    "patched k e q rest nodes2 res" by blast
  have "SwapRemove_patch k e q (i # rest) cur = Inr res"
    using res(1) c by (simp add: Let_def c_def[symmetric] nodes1_def[symmetric] nodes2_def[symmetric])
  moreover have "patched k e q (i # rest) cur res"
    by (rule patched_cons[OF step res(2) i(2) i(1) Cons.prems(3)])
       (use samek Cons.prems(2) in auto)
  ultimately show ?case by blast
qed
subsection \<open>\<open>SwapRemove\<close> relocates the last node\<close>

lemma qsim_heights:
  assumes "qsim R A B" and "R 0 0"
  shows "heights_agree A B"
  unfolding heights_agree_def
proof (intro allI impI, elim conjE)
  fix ndA ndB :: FNodeData and p
  assume a: "Nodes ndA = A" "Nodes ndB = B" "QuadMeshRenderData ndA = QuadMeshRenderData ndB"
  have "qsim R (Nodes ndA) (Nodes ndB)" using assms(1) a by simp
  from Query_sim[OF this a(3) assms(2), of p]
  show "QueryBaseHeightAtLocation ndA (A ! 0) p = QueryBaseHeightAtLocation ndB (B ! 0) p"
    using a by simp
qed

lemma heights_agree_trans:
  assumes ab: "heights_agree A B" and bc: "heights_agree B C"
  shows "heights_agree A C"
  unfolding heights_agree_def
proof (intro allI impI, elim conjE)
  fix ndA ndC :: FNodeData and p
  assume a: "Nodes ndA = A" "Nodes ndC = C" "QuadMeshRenderData ndA = QuadMeshRenderData ndC"
  let ?ndB = "ndA\<lparr>Nodes := B\<rparr>"
  have "QueryBaseHeightAtLocation ndA (A ! 0) p = QueryBaseHeightAtLocation ?ndB (B ! 0) p"
    using ab a unfolding heights_agree_def by simp
  also have "\<dots> = QueryBaseHeightAtLocation ndC (C ! 0) p"
    using bc a unfolding heights_agree_def by simp
  finally show "QueryBaseHeightAtLocation ndA (A ! 0) p = QueryBaseHeightAtLocation ndC (C ! 0) p" .
qed

lemma qsim_upto:
  assumes inv: "prune_inv k A e" and len: "e < length B"
    and same: "\<forall>i\<le>e. same_but_links (A ! i) (B ! i) \<and>
                 (\<not> CompleteUniform (A ! i) \<longrightarrow> Children (B ! i) = Children (A ! i))"
  shows "qsim (\<lambda>i i'. i \<le> e \<and> i' = i) A B"
  unfolding qsim_def
proof (intro allI impI, elim conjE)
  fix i i' assume i: "i \<le> e" and i': "i' = i"
  have eA: "e < length A" using inv unfolding prune_inv_def by simp
  have l4: "length (Children (A ! i)) = 4" using inv i eA unfolding prune_inv_def by simp
  have J3: "\<And>s. s < 4 \<Longrightarrow> 0 < Children (A ! i) ! s \<Longrightarrow> Children (A ! i) ! s \<le> e"
    using inv i unfolding prune_inv_def by blast
  have sbl: "same_but_links (A ! i) (B ! i)" using same i by blast
  have sblc: "same_but_links (A ! c) (B ! c)" if "c \<le> e" for c using same that by blast
  show "HasCompleteSubtree (A ! i) = HasCompleteSubtree (B ! i') \<and>
        IsSubtreeSameQuadMesh (A ! i) = IsSubtreeSameQuadMesh (B ! i') \<and>
        QuadMeshIndex (A ! i) = QuadMeshIndex (B ! i') \<and>
        (\<not> CompleteUniform (A ! i) \<longrightarrow>
           length (Children (A ! i)) = length (Children (B ! i')) \<and>
           (\<forall>s<length (Children (A ! i)).
               (Children (A ! i) ! s = 0 \<longleftrightarrow> Children (B ! i') ! s = 0) \<and>
               (0 < Children (A ! i) ! s \<longrightarrow>
                  Children (A ! i) ! s < length A \<and> Children (B ! i') ! s < length B \<and>
                  Bounds (A ! (Children (A ! i) ! s)) = Bounds (B ! (Children (B ! i') ! s)) \<and>
                  (Children (A ! i) ! s \<le> e \<and> Children (B ! i') ! s = Children (A ! i) ! s))))"
  proof (intro conjI impI allI)
    assume ncu: "\<not> CompleteUniform (A ! i)"
    then have ch: "Children (B ! i) = Children (A ! i)" using same i by blast
    show "length (Children (A ! i)) = length (Children (B ! i'))" using ch i' by simp
    fix s assume "s < length (Children (A ! i))"
    then have s: "s < 4" using l4 by simp
    show "(Children (A ! i) ! s = 0) = (Children (B ! i') ! s = 0)" using ch i' by simp
    assume pos: "0 < Children (A ! i) ! s"
    note c = J3[OF s pos]
    show "Children (A ! i) ! s < length A" using c eA by simp
    show "Children (B ! i') ! s < length B" using c len ch i' by simp
    show "Bounds (A ! (Children (A ! i) ! s)) = Bounds (B ! (Children (B ! i') ! s))"
      using same_but_links_fields(1)[OF sblc[OF c]] ch i' by simp
    show "Children (A ! i) ! s \<le> e" by (rule c)
    show "Children (B ! i') ! s = Children (A ! i) ! s" using ch i' by simp
  qed (use same_but_links_fields[OF sbl] i' in simp_all)
qed

lemma patched_full:
  assumes pt: "patched k e q sl cur res" and sl: "set sl = {0..<4}"
  shows "length res = length cur"
    "\<And>j. j < length cur \<Longrightarrow> same_but_links (cur ! j) (res ! j)"
    "\<And>j. j < length cur \<Longrightarrow> length (Children (res ! j)) = 4"
    "\<And>j s. j < length cur \<Longrightarrow> s < 4 \<Longrightarrow> Children (res ! j) ! s =
                 (if j = q \<and> Children (cur ! j) ! s = e then k else Children (cur ! j) ! s)"
    "\<And>j. j < length cur \<Longrightarrow> ParentIndex (res ! j) =
          (if 0 < j \<and> (\<exists>s<4. Children (cur ! k) ! s = j) then k else ParentIndex (cur ! j))"
proof -
  show "length res = length cur" using pt unfolding patched_def by simp
  show "\<And>j. j < length cur \<Longrightarrow> same_but_links (cur ! j) (res ! j)"
    using pt unfolding patched_def by simp
  show "\<And>j. j < length cur \<Longrightarrow> length (Children (res ! j)) = 4"
    using pt unfolding patched_def by simp
  show "Children (res ! j) ! s =
                 (if j = q \<and> Children (cur ! j) ! s = e then k else Children (cur ! j) ! s)"
    if "j < length cur" "s < 4" for j s
  proof -
    have "s \<in> set sl" using that sl by simp
    then show ?thesis using pt that unfolding patched_def by simp
  qed
  show "ParentIndex (res ! j) =
          (if 0 < j \<and> (\<exists>s<4. Children (cur ! k) ! s = j) then k else ParentIndex (cur ! j))"
    if "j < length cur" for j
  proof -
    have "(\<exists>s\<in>set sl. Children (cur ! k) ! s = j) \<longleftrightarrow> (\<exists>s<4. Children (cur ! k) ! s = j)"
      unfolding sl by auto
    then show ?thesis using pt that unfolding patched_def by simp
  qed
qed

lemma SwapRemove_relocated:
  assumes inv: "prune_inv k N e" and k: "0 < k"
    and nk: "\<forall>i\<le>e. \<forall>s<4. Children (N ! i) ! s \<noteq> k"
  shows "\<exists>N'. SwapRemove k e N = Inr N' \<and> relocated k e N N'"
proof (cases "k = e")
  case True
  have J3: "\<And>i s. i \<le> e \<Longrightarrow> s < 4 \<Longrightarrow> 0 < Children (N ! i) ! s \<Longrightarrow>
              ParentIndex (N ! (Children (N ! i) ! s)) = i"
    using inv unfolding prune_inv_def by blast
  have "relocated k e N N"
    unfolding relocated_def
  proof (intro conjI allI impI)
    show "\<And>j. j < length N \<Longrightarrow> length (Children (N ! j)) = 4"
      using inv unfolding prune_inv_def by blast
    fix i assume i: "i \<le> e" "i \<noteq> k"
    show "same_but_links (N ! i) (N ! moved e k i)" using True by (simp add: moved_def same_but_links_refl)
    show "\<And>s. s < 4 \<Longrightarrow> Children (N ! moved e k i) ! s = moved e k (Children (N ! i) ! s)"
      using True by (simp add: moved_def)
    assume "0 < i"
    show "ParentIndex (N ! moved e k i) =
            (if \<exists>s<4. Children (N ! e) ! s = i then k else ParentIndex (N ! i))"
      using True J3[of e] \<open>0 < i\<close> by (auto simp: moved_def)
  qed simp
  then show ?thesis using True by (simp add: SwapRemove_def)
next
  case False
  have ke: "k < e" and eN: "e < length N" using inv False unfolding prune_inv_def by auto
  have l4: "\<And>j. j < length N \<Longrightarrow> length (Children (N ! j)) = 4"
    using inv unfolding prune_inv_def by blast
  have J3: "\<And>i s. i \<le> e \<Longrightarrow> s < 4 \<Longrightarrow> 0 < Children (N ! i) ! s \<Longrightarrow>
              Children (N ! i) ! s \<le> e \<and> Children (N ! i) ! s \<noteq> i \<and>
              ParentIndex (N ! (Children (N ! i) ! s)) = i"
    using inv unfolding prune_inv_def by blast
  define cur where "cur = N[k := N ! e, e := N ! k]"
  define q where "q = ParentIndex (cur ! k)"
  have curk: "cur ! k = N ! e" using ke eN by (simp add: cur_def)
  have cure: "cur ! e = N ! k" using ke eN by (simp add: cur_def)
  have curo: "\<And>j. j \<noteq> k \<Longrightarrow> j \<noteq> e \<Longrightarrow> cur ! j = N ! j" by (simp add: cur_def)
  have lcur: "length cur = length N" by (simp add: cur_def)
  have q: "q < length N" using inv ke k unfolding prune_inv_def q_def curk by auto
  have qe: "q = ParentIndex (N ! e)" by (simp add: q_def curk)
  have curm: "cur ! moved e k i = N ! i" if "i \<noteq> k" for i
    using that curk curo by (auto simp: moved_def)
  have ce: "Children (N ! e) ! s < length N" if "s < 4" for s
    using J3[of e s] that eN by (cases "Children (N ! e) ! s = 0") auto
  have cee: "Children (N ! e) ! s \<noteq> e" if "s < 4" for s
    using J3[of e s] that ke by (cases "Children (N ! e) ! s = 0") auto
  have "\<exists>res. SwapRemove_patch k e q [0, 1, 2, 3] cur = Inr res \<and> patched k e q [0, 1, 2, 3] cur res"
  proof (rule SwapRemove_patch_spec)
    show "distinct [0, 1, 2, 3::nat]" by simp
    show "set [0, 1, 2, 3] \<subseteq> {0..<4::nat}" by auto
    show "k < length cur" "q < length cur" using ke eN q lcur by auto
    show "\<forall>j<length cur. length (Children (cur ! j)) = 4"
    proof (intro allI impI)
      fix j assume "j < length cur"
      then show "length (Children (cur ! j)) = 4"
        using l4 eN ke lcur curk cure curo by (cases "j = k"; cases "j = e") auto
    qed
    show "\<forall>s<4. Children (cur ! k) ! s < length cur" using ce curk lcur by simp
    show "q = k \<longrightarrow> (\<forall>s<4. Children (cur ! k) ! s \<noteq> e)" using cee curk by simp
  qed
  then obtain res where res: "SwapRemove_patch k e q [0, 1, 2, 3] cur = Inr res"
    and pt: "patched k e q [0, 1, 2, 3] cur res" by blast
  have set4: "set [0, 1, 2, 3] = {0..<4::nat}" by auto
  note P = patched_full[OF pt set4]
  have sr: "SwapRemove k e N = Inr res"
    using res False q lcur
    by (simp add: SwapRemove_def Let_def cur_def[symmetric] q_def[symmetric])
  have "relocated k e N res"
    unfolding relocated_def
  proof (intro conjI allI impI)
    show "length res = length N" using P(1) lcur by simp
    show "\<And>j. j < length N \<Longrightarrow> length (Children (res ! j)) = 4" using P(3) lcur by simp
    fix i assume i: "i \<le> e" "i \<noteq> k"
    have m: "moved e k i < length cur" using i ke eN lcur by (simp add: moved_def)
    show "same_but_links (N ! i) (res ! moved e k i)" using P(2)[OF m] curm[OF i(2)] by simp
    show "Children (res ! moved e k i) ! s = moved e k (Children (N ! i) ! s)" if s: "s < 4" for s
    proof (cases "Children (N ! i) ! s = e")
      case True
      then have "0 < Children (N ! i) ! s" using ke by simp
      from J3[OF i(1) s this] True have "q = i" "i \<noteq> e" by (auto simp: qe)
      then show ?thesis using P(4)[OF m s] curm[OF i(2)] True by (simp add: moved_def)
    next
      case False
      then show ?thesis using P(4)[OF m s] curm[OF i(2)] by (simp add: moved_def)
    qed
    assume pos: "0 < i"
    have mp: "0 < moved e k i" using pos k by (simp add: moved_def)
    have iff: "(\<exists>s<4. Children (N ! e) ! s = moved e k i) \<longleftrightarrow> (\<exists>s<4. Children (N ! e) ! s = i)"
    proof (cases "i = e")
      case True
      then show ?thesis using nk cee by (auto simp: moved_def)
    next
      case False
      then show ?thesis by (simp add: moved_def)
    qed
    show "ParentIndex (res ! moved e k i) =
            (if \<exists>s<4. Children (N ! e) ! s = i then k else ParentIndex (N ! i))"
      using P(5)[OF m] mp iff curm[OF i(2)] curk by auto
  qed
  then show ?thesis using sr by blast
qed
subsection \<open>One removal keeps the loop invariant and the heights\<close>

lemma moved_inj: "a \<noteq> b \<Longrightarrow> a \<noteq> k \<Longrightarrow> b \<noteq> k \<Longrightarrow> moved e k a \<noteq> moved e k b"
  by (simp add: moved_def)

lemma relocated_prune_inv:
  assumes inv: "prune_inv k N e" and k: "0 < k"
    and nk: "\<forall>i\<le>e. \<forall>s<4. Children (N ! i) ! s \<noteq> k"
    and rl: "relocated k e N N'"
  shows "prune_inv (k - 1) N' (e - 1)"
proof -
  have ke: "k \<le> e" and eN: "e < length N" using inv unfolding prune_inv_def by auto
  have J3: "\<And>i s. i \<le> e \<Longrightarrow> s < 4 \<Longrightarrow> 0 < Children (N ! i) ! s \<Longrightarrow>
              Children (N ! i) ! s \<le> e \<and> Children (N ! i) ! s \<noteq> i \<and>
              ParentIndex (N ! (Children (N ! i) ! s)) = i"
    using inv unfolding prune_inv_def by blast
  have J5: "\<And>j. j \<le> k \<Longrightarrow> 0 < j \<Longrightarrow> ParentIndex (N ! j) < j"
    using inv unfolding prune_inv_def by blast
  have J6: "\<And>j. j \<le> e \<Longrightarrow> 0 < j \<Longrightarrow> ParentIndex (N ! j) < length N \<and> HasMaterial (N ! j)"
    using inv unfolding prune_inv_def by blast
  have R1: "length N' = length N" "\<And>j. j < length N \<Longrightarrow> length (Children (N' ! j)) = 4"
    using rl unfolding relocated_def by auto
  have R2: "\<And>i. i \<le> e \<Longrightarrow> i \<noteq> k \<Longrightarrow> same_but_links (N ! i) (N' ! moved e k i)"
    using rl unfolding relocated_def by blast
  have R3: "\<And>i s. i \<le> e \<Longrightarrow> i \<noteq> k \<Longrightarrow> s < 4 \<Longrightarrow>
              Children (N' ! moved e k i) ! s = moved e k (Children (N ! i) ! s)"
    using rl unfolding relocated_def by blast
  have R4: "\<And>i. i \<le> e \<Longrightarrow> i \<noteq> k \<Longrightarrow> 0 < i \<Longrightarrow> ParentIndex (N' ! moved e k i) =
                     (if \<exists>s<4. Children (N ! e) ! s = i then k else ParentIndex (N ! i))"
    using rl unfolding relocated_def by blast
  text \<open>Every place below \<open>e\<close> holds a relocated node.\<close>
  have src: "\<exists>i. i \<le> e \<and> i \<noteq> k \<and> moved e k i = i' \<and> (0 < i' \<longrightarrow> 0 < i)" if "i' \<le> e - 1" for i'
  proof (cases "i' = k")
    case True
    then have "k < e" using that k ke by simp
    then show ?thesis using True k by (intro exI[of _ e]) (simp add: moved_def)
  next
    case False
    then show ?thesis using that k ke by (intro exI[of _ i']) (auto simp: moved_def)
  qed
  show ?thesis
    unfolding prune_inv_def
  proof (intro conjI allI impI)
    show "k - 1 \<le> e - 1" using ke by simp
    show "e - 1 < length N'" using eN R1 by simp
    show "\<And>i. i < length N' \<Longrightarrow> length (Children (N' ! i)) = 4" using R1 by simp
  next
    fix i' s assume i': "i' \<le> e - 1" and s: "s < (4::nat)" and pos: "0 < Children (N' ! i') ! s"
    from src[OF i'] obtain i where i: "i \<le> e" "i \<noteq> k" "moved e k i = i'" by blast
    define c where "c = Children (N ! i) ! s"
    have c': "Children (N' ! i') ! s = moved e k c" using R3[OF i(1,2) s] i(3) c_def by simp
    have cpos: "0 < c" using pos c' ke k by (cases "c = e") (auto simp: moved_def)
    have cJ: "c \<le> e" "c \<noteq> i" "ParentIndex (N ! c) = i" using J3[OF i(1) s] cpos c_def by auto
    have cnk: "c \<noteq> k" using nk i(1) s c_def by blast
    show "Children (N' ! i') ! s \<le> e - 1" using c' cJ(1) cnk ke by (auto simp: moved_def)
    show "Children (N' ! i') ! s \<noteq> i'" using moved_inj[OF cJ(2) cnk i(2), of e] c' i(3) by simp
    have "ParentIndex (N' ! moved e k c) = i'"
    proof (cases "\<exists>s'<4. Children (N ! e) ! s' = c")
      case True
      then obtain s' where s': "s' < 4" "Children (N ! e) ! s' = c" by blast
      have "ParentIndex (N ! c) = e" using J3[of e s'] s' cpos by simp
      then have "i = e" using cJ(3) by simp
      then have "i' = k" using i(3) by (simp add: moved_def)
      then show ?thesis using R4[OF cJ(1) cnk cpos] True by simp
    next
      case False
      then have "i \<noteq> e" using s c_def by blast
      then have "i' = i" using i(3) by (simp add: moved_def)
      then show ?thesis using R4[OF cJ(1) cnk cpos] False cJ(3) by simp
    qed
    then show "ParentIndex (N' ! (Children (N' ! i') ! s)) = i'" using c' by simp
  next
    fix j assume j: "j \<le> k - 1" "0 < j"
    then have jk: "j \<le> k" "j \<noteq> k" "j \<le> e" "j \<noteq> e" using ke k by auto
    have m: "moved e k j = j" using jk by (simp add: moved_def)
    have "\<not> (\<exists>s<4. Children (N ! e) ! s = j)"
    proof
      assume "\<exists>s<4. Children (N ! e) ! s = j"
      then obtain s where "s < 4" "Children (N ! e) ! s = j" by blast
      then have "ParentIndex (N ! j) = e" using J3[of e s] j(2) by simp
      then show False using J5[OF jk(1) j(2)] jk by simp
    qed
    then show "ParentIndex (N' ! j) < j" using R4[OF jk(3) jk(2) j(2)] m J5[OF jk(1) j(2)] by auto
  next
    fix j' assume j': "j' \<le> e - 1" "0 < j'"
    from src[OF j'(1)] j'(2) obtain j where j: "j \<le> e" "j \<noteq> k" "moved e k j = j'" "0 < j" by blast
    show "ParentIndex (N' ! j') < length N'"
      using R4[OF j(1,2,4)] j(3) J6[OF j(1,4)] R1 ke eN by (auto split: if_splits)
    show "HasMaterial (N' ! j')"
      using same_but_links_fields(5)[OF R2[OF j(1,2)]] j(3) J6[OF j(1,4)] by simp
  qed
qed

lemma relocated_qsim:
  assumes inv: "prune_inv k N e" and k: "0 < k"
    and nk: "\<forall>i\<le>e. \<forall>s<4. Children (N ! i) ! s \<noteq> k"
    and rl: "relocated k e N N'"
  shows "qsim (\<lambda>i i'. i \<le> e \<and> i \<noteq> k \<and> i' = moved e k i) N N'"
  unfolding qsim_def
proof (intro allI impI, elim conjE)
  fix i i' assume i: "i \<le> e" "i \<noteq> k" and i': "i' = moved e k i"
  have ke: "k \<le> e" and eN: "e < length N" using inv unfolding prune_inv_def by auto
  have l4: "\<And>j. j < length N \<Longrightarrow> length (Children (N ! j)) = 4"
    using inv unfolding prune_inv_def by blast
  have J3: "\<And>s. s < 4 \<Longrightarrow> 0 < Children (N ! i) ! s \<Longrightarrow> Children (N ! i) ! s \<le> e"
    using inv i unfolding prune_inv_def by blast
  have R1: "length N' = length N" "\<And>j. j < length N \<Longrightarrow> length (Children (N' ! j)) = 4"
    using rl unfolding relocated_def by auto
  have R2: "\<And>i. i \<le> e \<Longrightarrow> i \<noteq> k \<Longrightarrow> same_but_links (N ! i) (N' ! moved e k i)"
    using rl unfolding relocated_def by blast
  have R3: "\<And>s. s < 4 \<Longrightarrow> Children (N' ! moved e k i) ! s = moved e k (Children (N ! i) ! s)"
    using rl i unfolding relocated_def by blast
  have mlt: "moved e k j < length N" if "j \<le> e" for j using that ke eN by (simp add: moved_def)
  show "HasCompleteSubtree (N ! i) = HasCompleteSubtree (N' ! i') \<and>
        IsSubtreeSameQuadMesh (N ! i) = IsSubtreeSameQuadMesh (N' ! i') \<and>
        QuadMeshIndex (N ! i) = QuadMeshIndex (N' ! i') \<and>
        (\<not> CompleteUniform (N ! i) \<longrightarrow>
           length (Children (N ! i)) = length (Children (N' ! i')) \<and>
           (\<forall>s<length (Children (N ! i)).
               (Children (N ! i) ! s = 0 \<longleftrightarrow> Children (N' ! i') ! s = 0) \<and>
               (0 < Children (N ! i) ! s \<longrightarrow>
                  Children (N ! i) ! s < length N \<and> Children (N' ! i') ! s < length N' \<and>
                  Bounds (N ! (Children (N ! i) ! s)) = Bounds (N' ! (Children (N' ! i') ! s)) \<and>
                  (Children (N ! i) ! s \<le> e \<and> Children (N ! i) ! s \<noteq> k \<and>
                   Children (N' ! i') ! s = moved e k (Children (N ! i) ! s)))))"
  proof (intro conjI impI allI)
    show "length (Children (N ! i)) = length (Children (N' ! i'))"
      using l4[of i] R1(2)[OF mlt[OF i(1)]] i eN i' by simp
    fix s assume "s < length (Children (N ! i))"
    then have s: "s < 4" using l4[of i] i eN by simp
    note c' = R3[OF s]
    show "(Children (N ! i) ! s = 0) = (Children (N' ! i') ! s = 0)"
      using c' i' k ke by (auto simp: moved_def)
    assume pos: "0 < Children (N ! i) ! s"
    note c = J3[OF s pos]
    have cnk: "Children (N ! i) ! s \<noteq> k" using nk i(1) s by blast
    show "Children (N ! i) ! s < length N" using c eN by simp
    show "Children (N' ! i') ! s < length N'" using c' i' mlt[OF c] R1 by simp
    show "Bounds (N ! (Children (N ! i) ! s)) = Bounds (N' ! (Children (N' ! i') ! s))"
      using same_but_links_fields(1)[OF R2[OF c cnk]] c' i' by simp
    show "Children (N ! i) ! s \<le> e" by (rule c)
    show "Children (N ! i) ! s \<noteq> k" by (rule cnk)
    show "Children (N' ! i') ! s = moved e k (Children (N ! i) ! s)" using c' i' by simp
  qed (use same_but_links_fields[OF R2[OF i]] i' in simp_all)
qed

lemma SwapRemove_prune:
  assumes inv: "prune_inv k N e" and k: "0 < k"
    and nk: "\<forall>i\<le>e. \<forall>s<4. Children (N ! i) ! s \<noteq> k"
  shows "\<exists>N'. SwapRemove k e N = Inr N' \<and> length N' = length N \<and>
               prune_inv (k - 1) N' (e - 1) \<and> heights_agree N N'"
proof -
  from SwapRemove_relocated[OF assms] obtain N' where
    sr: "SwapRemove k e N = Inr N'" and rl: "relocated k e N N'" by blast
  have ke: "k \<le> e" using inv unfolding prune_inv_def by simp
  have "heights_agree N N'"
    by (rule qsim_heights[OF relocated_qsim[OF assms rl]]) (use k ke in \<open>simp add: moved_def\<close>)
  moreover have "length N' = length N" using rl unfolding relocated_def by simp
  ultimately show ?thesis using sr relocated_prune_inv[OF assms rl] by blast
qed
subsection \<open>The pruning loop keeps the heights\<close>

lemma zeros4_nth: "s < 4 \<Longrightarrow> [0, 0, 0, 0::nat] ! s = 0"
  by (auto simp: less_Suc_eq numeral_eq_Suc)

lemma prune_inv_heights_upto:
  assumes inv: "prune_inv k A e" and len: "e < length B"
    and same: "\<forall>i\<le>e. same_but_links (A ! i) (B ! i) \<and>
                 (\<not> CompleteUniform (A ! i) \<longrightarrow> Children (B ! i) = Children (A ! i))"
  shows "heights_agree A B"
  by (rule qsim_heights[OF qsim_upto[OF inv len same]]) simp

lemma prune_inv_heights_refl: "prune_inv k A e \<Longrightarrow> heights_agree A A"
  by (rule prune_inv_heights_upto[where k = k and e = e])
     (simp_all add: prune_inv_def same_but_links_refl)

lemma prune_inv_clear_children:
  assumes inv: "prune_inv k nodes e" and k: "0 < k"
    and p: "p = ParentIndex (nodes ! k)"
  defines "N \<equiv> nodes[p := (nodes ! p)\<lparr>Children := [0, 0, 0, 0]\<rparr>]"
  shows "prune_inv k N e" and "\<forall>i\<le>e. \<forall>s<4. Children (N ! i) ! s \<noteq> k"
    and "CompleteUniform (nodes ! p) \<Longrightarrow> heights_agree nodes N"
proof -
  have ke: "k \<le> e" and eN: "e < length nodes" using inv unfolding prune_inv_def by auto
  have l4: "\<And>j. j < length nodes \<Longrightarrow> length (Children (nodes ! j)) = 4"
    using inv unfolding prune_inv_def by blast
  have J3: "\<And>i s. i \<le> e \<Longrightarrow> s < 4 \<Longrightarrow> 0 < Children (nodes ! i) ! s \<Longrightarrow>
              Children (nodes ! i) ! s \<le> e \<and> Children (nodes ! i) ! s \<noteq> i \<and>
              ParentIndex (nodes ! (Children (nodes ! i) ! s)) = i"
    using inv unfolding prune_inv_def by blast
  have J5: "\<And>j. j \<le> k \<Longrightarrow> 0 < j \<Longrightarrow> ParentIndex (nodes ! j) < j"
    using inv unfolding prune_inv_def by blast
  have J6: "\<And>j. j \<le> e \<Longrightarrow> 0 < j \<Longrightarrow> ParentIndex (nodes ! j) < length nodes \<and> HasMaterial (nodes ! j)"
    using inv unfolding prune_inv_def by blast
  have pk: "p < k" using J5[of k] k p by simp
  then have pN: "p < length nodes" using ke eN by simp
  have lN: "length N = length nodes" by (simp add: N_def)
  have Np: "N ! p = (nodes ! p)\<lparr>Children := [0, 0, 0, 0]\<rparr>" using pN by (simp add: N_def)
  have No: "\<And>j. j \<noteq> p \<Longrightarrow> N ! j = nodes ! j" by (simp add: N_def)
  have par: "ParentIndex (N ! j) = ParentIndex (nodes ! j)" for j
    using Np No[of j] by (cases "j = p") simp_all
  have mat: "HasMaterial (N ! j) = HasMaterial (nodes ! j)" for j
    using Np No[of j] by (cases "j = p") simp_all
  have sbl: "same_but_links (nodes ! j) (N ! j)" for j
    using Np No[of j] by (cases "j = p") (simp_all add: same_but_links_def)
  have slot: "i \<noteq> p \<and> Children (N ! i) ! s = Children (nodes ! i) ! s"
    if "s < 4" "0 < Children (N ! i) ! s" for i s
    using that Np No[of i] by (cases "i = p") (simp_all add: zeros4_nth)
  show inv': "prune_inv k N e"
    unfolding prune_inv_def
  proof (intro conjI allI impI)
    show "k \<le> e" by (rule ke)
    show "e < length N" using eN lN by simp
    show "length (Children (N ! i)) = 4" if "i < length N" for i
      using that l4[of i] lN Np No[of i] by (cases "i = p") simp_all
  next
    fix i s assume i: "i \<le> e" and s: "s < (4::nat)" and pos: "0 < Children (N ! i) ! s"
    note sl = slot[OF s pos]
    then have pos': "0 < Children (nodes ! i) ! s" using pos by simp
    show "Children (N ! i) ! s \<le> e" "Children (N ! i) ! s \<noteq> i"
      "ParentIndex (N ! (Children (N ! i) ! s)) = i"
      using J3[OF i s pos'] sl par by simp_all
  next
    show "\<And>j. j \<le> k \<Longrightarrow> 0 < j \<Longrightarrow> ParentIndex (N ! j) < j" using J5 par by simp
    show "\<And>j. j \<le> e \<Longrightarrow> 0 < j \<Longrightarrow> ParentIndex (N ! j) < length N"
      using J6 par lN by simp
    show "\<And>j. j \<le> e \<Longrightarrow> 0 < j \<Longrightarrow> HasMaterial (N ! j)" using J6 mat by simp
  qed
  show "\<forall>i\<le>e. \<forall>s<4. Children (N ! i) ! s \<noteq> k"
  proof (intro allI impI notI)
    fix i s assume i: "i \<le> e" and s: "s < (4::nat)" and eq: "Children (N ! i) ! s = k"
    then have pos: "0 < Children (N ! i) ! s" using k by simp
    note sl = slot[OF s pos]
    then have "0 < Children (nodes ! i) ! s" "Children (nodes ! i) ! s = k" using pos eq by simp_all
    then have "ParentIndex (nodes ! k) = i" using J3[OF i s] by auto
    then show False using sl p by simp
  qed
  show "heights_agree nodes N" if cu: "CompleteUniform (nodes ! p)"
  proof (rule prune_inv_heights_upto[OF inv])
    show "e < length N" using eN lN by simp
    show "\<forall>i\<le>e. same_but_links (nodes ! i) (N ! i) \<and>
                 (\<not> CompleteUniform (nodes ! i) \<longrightarrow> Children (N ! i) = Children (nodes ! i))"
      using sbl No cu by metis
  qed
qed

lemma Unlock_step_prune:
  assumes inv: "prune_inv k nodes e" and k: "0 < k"
  shows "\<exists>nodes' e'. Unlock_step k (nodes, e) = Inr (nodes', e') \<and> length nodes' = length nodes \<and>
                      prune_inv (k - 1) nodes' e' \<and> heights_agree nodes nodes'"
proof -
  define p where "p = ParentIndex (nodes ! k)"
  have ke: "k \<le> e" and eN: "e < length nodes" using inv unfolding prune_inv_def by auto
  have J5: "\<And>j. j \<le> k \<Longrightarrow> 0 < j \<Longrightarrow> ParentIndex (nodes ! j) < j"
    using inv unfolding prune_inv_def by blast
  have J6: "\<And>j. j \<le> e \<Longrightarrow> 0 < j \<Longrightarrow> ParentIndex (nodes ! j) < length nodes \<and> HasMaterial (nodes ! j)"
    using inv unfolding prune_inv_def by blast
  have pN: "p < length nodes" using J6[OF ke k] p_def by simp
  show ?thesis
  proof (cases "CompleteUniform (nodes ! p)")
    case True
    define N where "N = nodes[p := (nodes ! p)\<lparr>Children := [0, 0, 0, 0]\<rparr>]"
    note z = prune_inv_clear_children[OF inv k p_def, folded N_def]
    from SwapRemove_prune[OF z(1) k z(2)] obtain N' where
      N': "SwapRemove k e N = Inr N'" "length N' = length N" "prune_inv (k - 1) N' (e - 1)"
        "heights_agree N N'" by blast
    have "Unlock_step k (nodes, e) = Inr (N', e - 1)"
      using True pN N'(1)
      by (simp add: Unlock_step_def Let_def p_def[symmetric] N_def[symmetric] CompleteUniform_def)
    moreover have "heights_agree nodes N'" using z(3)[OF True] N'(4) by (rule heights_agree_trans)
    moreover have "length N' = length nodes" using N'(2) by (simp add: N_def)
    ultimately show ?thesis using N'(3) by blast
  next
    case False
    have "Unlock_step k (nodes, e) = Inr (nodes, e)"
      using False pN J6[OF ke k]
      by (auto simp add: Unlock_step_def Let_def p_def[symmetric] CompleteUniform_def)
    moreover have "prune_inv (k - 1) nodes e"
      using inv unfolding prune_inv_def by auto
    ultimately show ?thesis using prune_inv_heights_refl[OF inv] by blast
  qed
qed

lemma Unlock_loop_prune:
  "prune_inv k nodes e \<Longrightarrow>
   \<exists>nodes' e'. Unlock_loop (rev [1..<Suc k]) (nodes, e) = Inr (nodes', e') \<and>
               length nodes' = length nodes \<and> prune_inv 0 nodes' e' \<and> heights_agree nodes nodes'"
proof (induction k arbitrary: nodes e)
  case 0
  then show ?case using prune_inv_heights_refl[OF 0] by simp
next
  case (Suc k)
  from Unlock_step_prune[OF Suc.prems] obtain n1 e1 where
    s: "Unlock_step (Suc k) (nodes, e) = Inr (n1, e1)" "length n1 = length nodes"
      "prune_inv k n1 e1" "heights_agree nodes n1" by auto
  from Suc.IH[OF s(3)] obtain n2 e2 where
    l: "Unlock_loop (rev [1..<Suc k]) (n1, e1) = Inr (n2, e2)" "length n2 = length n1"
      "prune_inv 0 n2 e2" "heights_agree n1 n2" by blast
  have "rev [1..<Suc (Suc k)] = Suc k # rev [1..<Suc k]" by simp
  then have "Unlock_loop (rev [1..<Suc (Suc k)]) (nodes, e) = Inr (n2, e2)"
    using s(1) l(1) by (simp del: upt_Suc)
  then show ?case using l s heights_agree_trans[OF s(4) l(4)] by auto
qed

lemma prune_inv_truncate:
  assumes inv: "prune_inv 0 nodes e"
  shows "heights_agree nodes (take (Suc e) nodes)"
proof (rule prune_inv_heights_upto[OF inv])
  have eN: "e < length nodes" using inv unfolding prune_inv_def by simp
  then show "e < length (take (Suc e) nodes)" by simp
  show "\<forall>i\<le>e. same_but_links (nodes ! i) (take (Suc e) nodes ! i) \<and>
          (\<not> CompleteUniform (nodes ! i) \<longrightarrow> Children (take (Suc e) nodes ! i) = Children (nodes ! i))"
    by (simp add: same_but_links_refl)
qed

lemma arena_inv_prune_inv:
  assumes inv: "arena_inv d nodes"
    and mat: "\<forall>j<length nodes. 0 < j \<longrightarrow> HasMaterial (nodes ! j)"
  shows "prune_inv (length nodes - 1) nodes (length nodes - 1)"
proof -
  let ?cs = "map Children nodes" and ?par = "map ParentIndex nodes"
  have ne: "nodes \<noteq> []" using inv unfolding arena_inv_def shape_inv_def by simp
  have l4: "\<And>i. i < length nodes \<Longrightarrow> length (Children (nodes ! i)) = 4"
    using inv unfolding arena_inv_def shape_inv_def by simp
  have S3: "\<And>i s. i < length nodes \<Longrightarrow> s < 4 \<Longrightarrow> 0 < Children (nodes ! i) ! s \<Longrightarrow>
              Children (nodes ! i) ! s < length nodes \<and>
              ParentIndex (nodes ! (Children (nodes ! i) ! s)) = i"
  proof -
    fix i s assume a: "i < length nodes" "s < (4::nat)" "0 < Children (nodes ! i) ! s"
    have A: "\<forall>i<length ?cs. \<forall>s<4. 0 < ?cs ! i ! s \<longrightarrow> ?cs ! i ! s < length ?cs \<and> ?par ! (?cs ! i ! s) = i"
      using inv unfolding arena_inv_def shape_inv_def by blast
    have ci: "?cs ! i = Children (nodes ! i)" using a by simp
    have B: "?cs ! i ! s < length ?cs" "?par ! (?cs ! i ! s) = i"
      using A[rule_format, of i s] a ci by simp_all
    have c1: "Children (nodes ! i) ! s < length nodes" using B(1) ci by simp
    have "?par ! (Children (nodes ! i) ! s) = i" using B(2) ci by simp
    then have "ParentIndex (nodes ! (Children (nodes ! i) ! s)) = i" using c1 by simp
    then show "Children (nodes ! i) ! s < length nodes \<and>
              ParentIndex (nodes ! (Children (nodes ! i) ! s)) = i" using c1 by simp
  qed
  have S5: "\<And>j. j < length nodes \<Longrightarrow> 0 < j \<Longrightarrow> ParentIndex (nodes ! j) < j"
  proof -
    fix j assume a: "j < length nodes" "0 < j"
    have "\<forall>j<length ?cs. 0 < j \<longrightarrow> ?par ! j < j"
      using inv unfolding arena_inv_def shape_inv_def by blast
    then show "ParentIndex (nodes ! j) < j" using a by simp
  qed
  show ?thesis
    unfolding prune_inv_def
  proof (intro conjI allI impI)
    show "length nodes - 1 \<le> length nodes - 1" by simp
    show "length nodes - 1 < length nodes" using ne by simp
    show "\<And>i. i < length nodes \<Longrightarrow> length (Children (nodes ! i)) = 4" by (rule l4)
  next
    fix i s assume i: "i \<le> length nodes - 1" and s: "s < (4::nat)" and pos: "0 < Children (nodes ! i) ! s"
    have i': "i < length nodes" using i ne by (cases nodes) auto
    note c = S3[OF i' s pos]
    show "Children (nodes ! i) ! s \<le> length nodes - 1" using c by linarith
    show "ParentIndex (nodes ! (Children (nodes ! i) ! s)) = i" using c by simp
    show "Children (nodes ! i) ! s \<noteq> i" using S5[of "Children (nodes ! i) ! s"] c pos by auto
  next
    fix j assume j: "j \<le> length nodes - 1" "0 < j"
    then have j': "j < length nodes" by simp
    show "ParentIndex (nodes ! j) < j" using S5[OF j' j(2)] .
    show "ParentIndex (nodes ! j) < length nodes" using S5[OF j' j(2)] j' by simp
    show "HasMaterial (nodes ! j)" using mat j' j(2) by simp
  qed
qed

lemma Unlock_prune_heights:
  assumes inv: "arena_inv d (Nodes (NodeData t))"
    and mat: "\<forall>j<length (Nodes (NodeData t)). 0 < j \<longrightarrow> HasMaterial (Nodes (NodeData t) ! j)"
  shows "\<exists>tp. Unlock t True = Inr tp \<and> bIsReadOnly tp \<and> Nodes (NodeData tp) \<noteq> [] \<and>
              QuadMeshRenderData (NodeData tp) = QuadMeshRenderData (NodeData t) \<and>
              heights_agree (Nodes (NodeData t)) (Nodes (NodeData tp))"
proof -
  let ?nodes = "Nodes (NodeData t)"
  have ne: "?nodes \<noteq> []" using inv unfolding arena_inv_def shape_inv_def by simp
  note pi = arena_inv_prune_inv[OF inv mat]
  from Unlock_loop_prune[OF pi] obtain n' e' where
    l: "Unlock_loop (rev [1..<Suc (length ?nodes - 1)]) (?nodes, length ?nodes - 1) = Inr (n', e')"
      "prune_inv 0 n' e'" "heights_agree ?nodes n'" by blast
  let ?tp = "t\<lparr>NodeData := (NodeData t)\<lparr>Nodes := take (e' + 1) n'\<rparr>, bIsReadOnly := True\<rparr>"
  have u: "Unlock t True = Inr ?tp"
    using ne l(1) by (simp add: Unlock_def Let_def del: upt_Suc)
  have e': "e' < length n'" using l(2) unfolding prune_inv_def by simp
  have h: "heights_agree ?nodes (take (Suc e') n')"
    using l(3) prune_inv_truncate[OF l(2)] by (rule heights_agree_trans)
  have "take (Suc e') n' \<noteq> []" using e' by (cases n') auto
  then show ?thesis using u h by (intro exI[of _ ?tp]) simp
qed
subsection \<open>Regions with a material give nodes with a material\<close>

lemma AddNodes_merge_mat:
  assumes "self < length nodes"
  shows "HasMaterial (fst (AddNodes_merge self i (nodes, prev)) ! j) = HasMaterial (nodes ! j)"
proof (cases "j = self")
  case False
  then show ?thesis by (simp add: AddNodes_merge_frame(2))
next
  case True
  then show ?thesis using assms by (simp add: AddNodes_merge_def Let_def)
qed

lemma mat_okD:
  assumes "mat_ok f" and "mat_table (QuadMeshRenderData nd)" and "c < length (Nodes nd)"
    and "\<And>j. j < length (Nodes nd) \<Longrightarrow> 0 < j \<Longrightarrow> j \<noteq> c \<Longrightarrow> HasMaterial (Nodes nd ! j)"
    and "f c nd = Inr nd'"
  shows "QuadMeshRenderData nd' = QuadMeshRenderData nd"
    and "length (Nodes nd) \<le> length (Nodes nd')" and "mat_nodes (Nodes nd')"
proof -
  have "mat_table (QuadMeshRenderData nd) \<and> c < length (Nodes nd) \<and>
                 (\<forall>j<length (Nodes nd). 0 < j \<and> j \<noteq> c \<longrightarrow> HasMaterial (Nodes nd ! j)) \<and>
                 f c nd = Inr nd'"
    using assms(2-5) by blast
  then have "QuadMeshRenderData nd' = QuadMeshRenderData nd \<and>
            length (Nodes nd) \<le> length (Nodes nd') \<and> mat_nodes (Nodes nd')"
    using assms(1) unfolding mat_ok_def by blast
  then show "QuadMeshRenderData nd' = QuadMeshRenderData nd"
    and "length (Nodes nd) \<le> length (Nodes nd')" and "mat_nodes (Nodes nd')" by simp_all
qed

lemma AddNodes_child_mat:
  assumes rec: "mat_ok rec" and tab: "mat_table (QuadMeshRenderData nd)"
    and self: "self < length (Nodes nd)" and mn: "mat_nodes (Nodes nd)"
    and child: "AddNodes_child rec mb qb self half i nd = Inr nd1"
  shows "QuadMeshRenderData nd1 = QuadMeshRenderData nd \<and>
         length (Nodes nd) \<le> length (Nodes nd1) \<and> mat_nodes (Nodes nd1)"
proof (cases "0 < Children (Nodes nd ! self) ! i")
  case True
  let ?c = "Children (Nodes nd ! self) ! i"
  have c: "?c < length (Nodes nd)"
    using child True by (auto simp: AddNodes_child_def Let_def split: if_splits)
  show ?thesis
  proof (cases "IntersectXY (Bounds (Nodes nd ! ?c)) qb")
    case True
    then have r: "rec ?c nd = Inr nd1"
      using child \<open>0 < ?c\<close> c by (simp add: AddNodes_child_def Let_def)
    show ?thesis
      using mat_okD[OF rec tab c _ r] mn by (simp add: mat_nodes_def)
  next
    case False
    then have "nd1 = nd"
      using child \<open>0 < ?c\<close> c by (simp add: AddNodes_child_def Let_def)
    then show ?thesis using mn by simp
  qed
next
  case False
  let ?nodes = "Nodes nd"
  let ?n = "length ?nodes"
  let ?cb = "AddNodes_ChildBounds (Bounds (?nodes ! self)) half qb i"
  let ?u = "(?nodes ! self)\<lparr>Children := (Children (?nodes ! self))[i := ?n]\<rparr>"
  let ?nodes4 = "?nodes[self := ?u] @ [FNode_default\<lparr>Bounds := ?cb, ParentIndex := self\<rparr>]"
  show ?thesis
  proof (cases "IntersectXY ?cb qb \<and> IntersectXY ?cb mb")
    case True
    have e: "AddNodes_child rec mb qb self half i nd =
               (if \<not> ?n < NodesMax nd then Inl ArenaOverflow else rec ?n (nd\<lparr>Nodes := ?nodes4\<rparr>))"
      using False True emplace_nodes[OF self, of i ?cb]
      by (simp add: AddNodes_child_def Let_def)
    then have r: "rec ?n (nd\<lparr>Nodes := ?nodes4\<rparr>) = Inr nd1"
      using child by (simp split: if_splits)
    have old: "HasMaterial (Nodes (nd\<lparr>Nodes := ?nodes4\<rparr>) ! j)"
      if "j < length (Nodes (nd\<lparr>Nodes := ?nodes4\<rparr>))" "0 < j" "j \<noteq> ?n" for j
    proof -
      have j: "j < ?n" using that by simp
      then have "?nodes4 ! j = (?nodes[self := ?u]) ! j" by (simp add: nth_append)
      then have "HasMaterial (?nodes4 ! j) = HasMaterial (?nodes ! j)"
        using j by (cases "j = self") simp_all
      then show ?thesis using mn j that(2) by (simp add: mat_nodes_def)
    qed
    have "QuadMeshRenderData nd1 = QuadMeshRenderData (nd\<lparr>Nodes := ?nodes4\<rparr>)"
      "length (Nodes (nd\<lparr>Nodes := ?nodes4\<rparr>)) \<le> length (Nodes nd1)" "mat_nodes (Nodes nd1)"
      by (rule mat_okD[OF rec _ _ old r]; use tab in simp)+
    then show ?thesis by simp
  next
    case F2: False
    then have "nd1 = nd"
      using child False by (auto simp add: AddNodes_child_def Let_def)
    then show ?thesis using mn by simp
  qed
qed

lemma AddNodes_children_mat:
  assumes rec: "mat_ok rec"
  shows "mat_table (QuadMeshRenderData nd) \<Longrightarrow> self < length (Nodes nd) \<Longrightarrow> mat_nodes (Nodes nd) \<Longrightarrow>
         AddNodes_children rec mb qb self half slots (nd, prev) = Inr st \<Longrightarrow>
         QuadMeshRenderData (fst st) = QuadMeshRenderData nd \<and>
         length (Nodes nd) \<le> length (Nodes (fst st)) \<and> mat_nodes (Nodes (fst st))"
proof (induction slots arbitrary: nd prev)
  case Nil
  then show ?case by auto
next
  case (Cons i rest)
  obtain nd1 where child: "AddNodes_child rec mb qb self half i nd = Inr nd1"
    using Cons.prems(4) by (auto split: sum.splits)
  let ?m = "AddNodes_merge self i (Nodes nd1, prev)"
  let ?nd2 = "nd1\<lparr>Nodes := fst ?m\<rparr>"
  have loop: "AddNodes_children rec mb qb self half rest (?nd2, snd ?m) = Inr st"
    using Cons.prems(4) child by (simp add: Let_def)
  note s = AddNodes_child_mat[OF rec Cons.prems(1,2,3) child]
  have len2: "length (Nodes ?nd2) = length (Nodes nd1)"
    by (simp add: AddNodes_merge_frame(1))
  have a: "mat_table (QuadMeshRenderData ?nd2)" using s Cons.prems(1) by simp
  have b: "self < length (Nodes ?nd2)" using s Cons.prems(2) len2 by simp
  have sl1: "self < length (Nodes nd1)" using s Cons.prems(2) by simp
  have c: "mat_nodes (Nodes ?nd2)"
    using s len2 unfolding mat_nodes_def by (simp add: AddNodes_merge_mat[OF sl1])
  note IH = Cons.IH[OF a b c loop]
  show ?case using IH s len2 by simp
qed

lemma AddNodes_visit_mat:
  assumes v: "AddNodes_visit qb idx c nd = Inr nd1" and idx: "0 < idx"
    and tab: "mat_table (QuadMeshRenderData nd)" and c: "c < length (Nodes nd)"
    and old: "\<forall>j<length (Nodes nd). 0 < j \<and> j \<noteq> c \<longrightarrow> HasMaterial (Nodes nd ! j)"
  shows "QuadMeshRenderData nd1 = QuadMeshRenderData nd" and "mat_nodes (Nodes nd1)"
proof -
  have i: "idx < length (QuadMeshRenderData nd)"
    using v by (auto simp: AddNodes_visit_def Let_def split: if_splits)
  then have m: "Material (QuadMeshRenderData nd ! idx) \<noteq> None"
    using tab idx by (simp add: mat_table_def)
  show "QuadMeshRenderData nd1 = QuadMeshRenderData nd"
    using v by (auto simp: AddNodes_visit_def Let_def split: if_splits)
  have hc: "HasMaterial (Nodes nd1 ! c)"
    using v c i m by (auto simp: AddNodes_visit_def Let_def split: if_splits)
  note f = AddNodes_visit_frame[OF v]
  show "mat_nodes (Nodes nd1)"
    unfolding mat_nodes_def
  proof (intro allI impI)
    fix j assume j: "j < length (Nodes nd1)" "0 < j"
    show "HasMaterial (Nodes nd1 ! j)"
    proof (cases "j = c")
      case True
      then show ?thesis using hc by simp
    next
      case False
      then show ?thesis using f(2)[OF False] f(1) old j by simp
    qed
  qed
qed

lemma AddNodes_mat: "0 < idx \<Longrightarrow> mat_ok (AddNodes l mb qb idx)"
proof (induction l)
  case 0
  show ?case
    unfolding mat_ok_def
  proof (intro allI impI, elim conjE)
    fix c nd nd'
    assume a: "mat_table (QuadMeshRenderData nd)" "c < length (Nodes nd)"
      "\<forall>j<length (Nodes nd). 0 < j \<and> j \<noteq> c \<longrightarrow> HasMaterial (Nodes nd ! j)"
      "AddNodes 0 mb qb idx c nd = Inr nd'"
    then have v: "AddNodes_visit qb idx c nd = Inr nd'" by simp
    show "QuadMeshRenderData nd' = QuadMeshRenderData nd \<and>
          length (Nodes nd) \<le> length (Nodes nd') \<and> mat_nodes (Nodes nd')"
      using AddNodes_visit_mat[OF v 0 a(1,2,3)] AddNodes_visit_frame(1)[OF v] by simp
  qed
next
  case (Suc l)
  note rec = Suc.IH[OF Suc.prems]
  show ?case
    unfolding mat_ok_def
  proof (intro allI impI, elim conjE)
    fix c nd nd'
    assume a: "mat_table (QuadMeshRenderData nd)" "c < length (Nodes nd)"
      "\<forall>j<length (Nodes nd). 0 < j \<and> j \<noteq> c \<longrightarrow> HasMaterial (Nodes nd ! j)"
      and r: "AddNodes (Suc l) mb qb idx c nd = Inr nd'"
    obtain nd1 where v: "AddNodes_visit qb idx c nd = Inr nd1"
      using r by (auto split: sum.splits)
    note f = AddNodes_visit_frame[OF v]
    note m = AddNodes_visit_mat[OF v Suc.prems a(1,2,3)]
    let ?half = "vscale2 (XY (GetSize (Bounds (Nodes nd1 ! c)))) 0.5"
    obtain st where loop: "AddNodes_children (AddNodes l mb qb idx) mb qb c ?half [0, 1, 2, 3]
                              (nd1, Nodes nd1 ! 0) = Inr st" and nd': "nd' = fst st"
      using r v by (auto simp: Let_def split: sum.splits)
    have t1: "mat_table (QuadMeshRenderData nd1)" using m(1) a(1) by simp
    have c1: "c < length (Nodes nd1)" using a(2) f(1) by simp
    note ch = AddNodes_children_mat[OF rec t1 c1 m(2) loop]
    show "QuadMeshRenderData nd' = QuadMeshRenderData nd \<and>
          length (Nodes nd) \<le> length (Nodes nd') \<and> mat_nodes (Nodes nd')"
      using ch m(1) f(1) nd' by simp
  qed
qed

lemma BuildOps_mat:
  "\<forall>op\<in>set ops. MaterialOp op \<Longrightarrow> mat_table (QuadMeshRenderData (NodeData t)) \<Longrightarrow>
   mat_nodes (Nodes (NodeData t)) \<Longrightarrow> BuildOps t ops = Inr t' \<Longrightarrow> mat_nodes (Nodes (NodeData t'))"
proof (induction t ops rule: BuildOps.induct)
  case (1 t)
  then show ?case by simp
next
  case (2 t rd ops)
  let ?t1 = "snd (AddQuadtreeMeshRenderData t rd)"
  have rd: "Material rd \<noteq> None" using "2.prems"(1) by (simp add: MaterialOp_def)
  have "mat_table (QuadMeshRenderData (NodeData ?t1))"
    using "2.prems"(2) rd
    by (auto simp: mat_table_def AddQuadtreeMeshRenderData_def nth_append)
  moreover have "mat_nodes (Nodes (NodeData ?t1))"
    using "2.prems"(3) by (simp add: AddQuadtreeMeshRenderData_def)
  ultimately show ?case using "2.IH" "2.prems"(1,4) by simp
next
  case (3 t b i ops)
  obtain t1 where t1: "AddQuadMeshTilesInsideBounds t b i = Inr t1" and rest: "BuildOps t1 ops = Inr t'"
    using "3.prems"(4) by (auto split: sum.splits)
  have i: "0 < i" using "3.prems"(1) by (simp add: MaterialOp_def)
  let ?mb = "Box (Vec3of (Min2D (TileRegion t)) 0) (Vec3of (Max2D (TileRegion t)) 0)"
  obtain nd1 where a: "AddNodes (TreeDepth t) ?mb b i 0 (NodeData t) = Inr nd1"
    and t1': "t1 = t\<lparr>NodeData := nd1\<rparr>" and ne: "Nodes (NodeData t) \<noteq> []"
    using t1 by (auto simp: AddQuadMeshTilesInsideBounds_def split: if_splits sum.splits)
  have "QuadMeshRenderData nd1 = QuadMeshRenderData (NodeData t)" "mat_nodes (Nodes nd1)"
    using mat_okD[OF AddNodes_mat[OF i] "3.prems"(2) _ _ a] ne "3.prems"(3)
    by (simp_all add: mat_nodes_def)
  then have "mat_table (QuadMeshRenderData (NodeData t1))" "mat_nodes (Nodes (NodeData t1))"
    using "3.prems"(2) t1' by simp_all
  then show ?case using "3.IH"[OF t1 _ _ _ rest] "3.prems"(1) by simp
qed

subsection \<open>The height query returns on a built tree\<close>

lemma FindChildAt_some:
  "FindChildAt nodes cs p = Inr (Some c) \<Longrightarrow> \<exists>s<length cs. cs ! s = c \<and> 0 < c \<and> c < length nodes"
proof (induction cs)
  case Nil
  then show ?case by simp
next
  case (Cons a cs)
  show ?case
  proof (cases "0 < a \<and> a < length nodes \<and> ContainsXY (Bounds (nodes ! a)) p")
    case True
    then have "c = a" using Cons.prems by simp
    then show ?thesis using True by (intro exI[of _ 0]) simp
  next
    case False
    then have "FindChildAt nodes cs p = Inr (Some c)"
      using Cons.prems by (auto split: if_splits)
    from Cons.IH[OF this] obtain s where "s < length cs" "cs ! s = c" "0 < c" "c < length nodes"
      by blast
    then show ?thesis by (intro exI[of _ "Suc s"]) simp
  qed
qed

lemma arena_inv_child_above:
  assumes inv: "arena_inv d nodes" and i: "i < length nodes" and s: "s < length (Children (nodes ! i))"
    and pos: "0 < Children (nodes ! i) ! s"
  shows "i < Children (nodes ! i) ! s"
proof -
  let ?cs = "map Children nodes" and ?par = "map ParentIndex nodes"
  have l4: "length (?cs ! i) = 4" using inv i unfolding arena_inv_def shape_inv_def by simp
  have A: "\<forall>i<length ?cs. \<forall>s<4. 0 < ?cs ! i ! s \<longrightarrow> ?cs ! i ! s < length ?cs \<and> ?par ! (?cs ! i ! s) = i"
    using inv unfolding arena_inv_def shape_inv_def by blast
  have S5: "\<forall>j<length ?cs. 0 < j \<longrightarrow> ?par ! j < j"
    using inv unfolding arena_inv_def shape_inv_def by blast
  have ci: "?cs ! i = Children (nodes ! i)" using i by simp
  have s4: "s < 4" using s l4 ci by simp
  have B: "?cs ! i ! s < length ?cs" "?par ! (?cs ! i ! s) = i"
    using A[rule_format, of i s] i s4 pos ci by simp_all
  have "?par ! (?cs ! i ! s) < ?cs ! i ! s" using S5[rule_format, of "?cs ! i ! s"] B(1) pos ci by simp
  then show ?thesis using B(2) ci by simp
qed

lemma Query_returns:
  assumes inv: "arena_inv d (Nodes nd)"
  shows "i < length (Nodes nd) \<Longrightarrow> \<exists>r. QueryBaseHeightAtLocation nd (Nodes nd ! i) p = Some r"
proof (induction "length (Nodes nd) - i" arbitrary: i rule: less_induct)
  case less
  let ?n = "Nodes nd ! i"
  show ?case
  proof (cases "HasCompleteSubtree ?n \<and> IsSubtreeSameQuadMesh ?n")
    case True
    then show ?thesis by (subst QueryBaseHeightAtLocation.simps) simp
  next
    case False
    show ?thesis
    proof (cases "FindChildAt (Nodes nd) (Children ?n) p")
      case (Inl e)
      then show ?thesis using False by (subst QueryBaseHeightAtLocation.simps) simp
    next
      case (Inr oc)
      show ?thesis
      proof (cases oc)
        case None
        then show ?thesis using False Inr by (subst QueryBaseHeightAtLocation.simps) simp
      next
        case (Some c)
        from FindChildAt_some[of "Nodes nd" "Children ?n" p c] Inr Some
        obtain s where s: "s < length (Children ?n)" "Children ?n ! s = c" "0 < c" "c < length (Nodes nd)"
          by auto
        have "i < c" using arena_inv_child_above[OF inv less.prems s(1)] s(2,3) by simp
        then have "length (Nodes nd) - c < length (Nodes nd) - i" using s(4) by simp
        from less.hyps[OF this s(4)] obtain r where
          "QueryBaseHeightAtLocation nd (Nodes nd ! c) p = Some r" by blast
        then show ?thesis using False Inr Some by (subst QueryBaseHeightAtLocation.simps) simp
      qed
    qed
  qed
qed

text \<open>
  C4, amended.  Let the tree be built after \<open>InitTree\<close> by adding render-data records
  that have a material and inserting regions with a render-data index other than 0 (slot
  0 holds the defaulted record without a material).  Then \<open>Unlock\<close> succeeds with and
  without pruning, and at every point the height query returns, with the same found
  flag and the same height on the pruned tree as on the unpruned one.
\<close>

theorem pruning_preserves_QueryHeight:
  fixes t :: FMeshQuadTree and InBounds :: FBox2D and InTileSize :: real
    and InExtentInTiles :: "int \<times> int"
  assumes init: "InitTree t InBounds InTileSize InExtentInTiles = Inr t0"
    and ops: "\<forall>op\<in>set ops. MaterialOp op"
    and built: "BuildOps t0 ops = Inr t1"
  shows "\<exists>tp tu. Unlock t1 True = Inr tp \<and> Unlock t1 False = Inr tu \<and>
           (\<forall>p. \<exists>r. QueryTileBaseHeightAtLocation tu p = Some r \<and>
                     QueryTileBaseHeightAtLocation tp p = Some r)"
proof -
  have inv0: "tree_inv t0" using init by (rule InitTree_tree_inv)
  have "tree_inv t1" using BuildOps_tree_inv[OF inv0, of ops] built by blast
  then have inv: "arena_inv (TreeDepth t1) (Nodes (NodeData t1))" by (simp add: tree_inv_def)
  then have ne: "Nodes (NodeData t1) \<noteq> []" unfolding arena_inv_def shape_inv_def by simp
  have tab0: "mat_table (QuadMeshRenderData (NodeData t0))"
    using InitTree_Inr(2)[OF init] by (simp add: mat_table_def)
  have nodes0: "mat_nodes (Nodes (NodeData t0))"
    using InitTree_Inr(1)[OF init] by (auto simp: mat_nodes_def)
  have "mat_nodes (Nodes (NodeData t1))" by (rule BuildOps_mat[OF ops tab0 nodes0 built])
  then have mat: "\<forall>j<length (Nodes (NodeData t1)). 0 < j \<longrightarrow> HasMaterial (Nodes (NodeData t1) ! j)"
    by (simp add: mat_nodes_def)
  from Unlock_prune_heights[OF inv mat] obtain tp where
    tp: "Unlock t1 True = Inr tp" "bIsReadOnly tp" "Nodes (NodeData tp) \<noteq> []"
      "QuadMeshRenderData (NodeData tp) = QuadMeshRenderData (NodeData t1)"
      "heights_agree (Nodes (NodeData t1)) (Nodes (NodeData tp))" by blast
  let ?tu = "t1\<lparr>bIsReadOnly := True\<rparr>"
  have tu: "Unlock t1 False = Inr ?tu" by (simp add: Unlock_def)
  have "\<exists>r. QueryTileBaseHeightAtLocation ?tu p = Some r \<and>
            QueryTileBaseHeightAtLocation tp p = Some r" for p
  proof -
    have a: "QueryTileBaseHeightAtLocation ?tu p =
               QueryBaseHeightAtLocation (NodeData t1) (Nodes (NodeData t1) ! 0) p"
      using ne by (simp add: QueryTileBaseHeightAtLocation_def GetNodeCount_def)
    have b: "QueryTileBaseHeightAtLocation tp p =
               QueryBaseHeightAtLocation (NodeData tp) (Nodes (NodeData tp) ! 0) p"
      using tp(2,3) by (simp add: QueryTileBaseHeightAtLocation_def GetNodeCount_def)
    have c: "QueryBaseHeightAtLocation (NodeData t1) (Nodes (NodeData t1) ! 0) p =
             QueryBaseHeightAtLocation (NodeData tp) (Nodes (NodeData tp) ! 0) p"
      using tp(4,5) unfolding heights_agree_def by simp
    obtain r where "QueryBaseHeightAtLocation (NodeData t1) (Nodes (NodeData t1) ! 0) p = Some r"
      using Query_returns[OF inv, of 0 p] ne by auto
    then show ?thesis using a b c by simp
  qed
  then show ?thesis using tp(1) tu by blast
qed

text \<open>
  On the example: one region with a material over the whole root box builds the full
  tree of five nodes, pruning leaves the root alone, and the height query gives the same
  answer on both at every point.
\<close>

theorem pruning_preserves_QueryHeight_witness:
  "InitTree EmptyTree (Box2D (Vec2 0 0) (Vec2 64 64)) 32 (1, 1) = Inr Example0 \<and>
   MaterialOp (AddRenderData \<lparr>Material = Some 7, SurfaceBaseHeight = 5, MaterialIndex = 0\<rparr>) \<and>
   MaterialOp (AddTiles (Box (Vec3 0 0 0) (Vec3 64 64 10)) 1) \<and>
   BuildOps Example0
     [AddRenderData \<lparr>Material = Some 7, SurfaceBaseHeight = 5, MaterialIndex = 0\<rparr>,
      AddTiles (Box (Vec3 0 0 0) (Vec3 64 64 10)) 1] = Inr (ExTree ExFullNodes ExRenderData1 False) \<and>
   length (Nodes (NodeData (ExTree ExFullNodes ExRenderData1 True))) = 5 \<and>
   length (Nodes (NodeData (ExTree ExFullPrunedNodes ExRenderData1 True))) = 1 \<and>
   (\<forall>p. \<exists>r. QueryTileBaseHeightAtLocation (ExTree ExFullNodes ExRenderData1 True) p = Some r \<and>
             QueryTileBaseHeightAtLocation (ExTree ExFullPrunedNodes ExRenderData1 True) p = Some r)"
proof -
  let ?ops = "[AddRenderData \<lparr>Material = Some 7, SurfaceBaseHeight = 5, MaterialIndex = 0\<rparr>,
               AddTiles (Box (Vec3 0 0 0) (Vec3 64 64 10)) 1]"
  have i: "InitTree EmptyTree (Box2D (Vec2 0 0) (Vec2 64 64)) 32 (1, 1) = Inr Example0"
    by (simp add: Example0_init Example0_eq)
  have m: "MaterialOp (AddRenderData \<lparr>Material = Some 7, SurfaceBaseHeight = 5, MaterialIndex = 0\<rparr>)"
    "MaterialOp (AddTiles (Box (Vec3 0 0 0) (Vec3 64 64 10)) 1)"
    by (simp_all add: MaterialOp_def)
  then have ops: "\<forall>op\<in>set ?ops. MaterialOp op" by simp
  have b: "BuildOps Example0 ?ops = Inr (ExTree ExFullNodes ExRenderData1 False)"
    using ExFull_built by (simp add: Example1_def)
  have len: "length (Nodes (NodeData (ExTree ExFullNodes ExRenderData1 True))) = 5"
    "length (Nodes (NodeData (ExTree ExFullPrunedNodes ExRenderData1 True))) = 1"
    by (simp_all add: ExTree_def ExFullNodes_def ExFullPrunedNodes_def)
  from pruning_preserves_QueryHeight[OF i ops b]
  obtain tp tu where r: "Unlock (ExTree ExFullNodes ExRenderData1 False) True = Inr tp"
    "Unlock (ExTree ExFullNodes ExRenderData1 False) False = Inr tu"
    "\<forall>p. \<exists>r. QueryTileBaseHeightAtLocation tu p = Some r \<and>
              QueryTileBaseHeightAtLocation tp p = Some r" by blast
  have "tp = ExTree ExFullPrunedNodes ExRenderData1 True" using r(1) ExFull_pruned by simp
  moreover have "tu = ExTree ExFullNodes ExRenderData1 True" using r(2) ExFull_unpruned by simp
  ultimately have q: "\<forall>p. \<exists>r. QueryTileBaseHeightAtLocation (ExTree ExFullNodes ExRenderData1 True) p = Some r \<and>
             QueryTileBaseHeightAtLocation (ExTree ExFullPrunedNodes ExRenderData1 True) p = Some r"
    using r(3) by simp
  show ?thesis using i m b len q by simp
qed

text \<open>
  The condition on the materials is needed.  A region inserted with the defaulted render
  data of slot 0 gives a leaf without a material; the second removal rule unlinks it,
  and the height query at a point of the leaf then falls back to the root: found before
  pruning, not found after.
\<close>

lemma pruning_changes_QueryHeight_without_material:
  "AddQuadMeshTilesInsideBounds Example1 (Box (Vec3 4 4 0) (Vec3 20 20 10)) 0 =
     Inr (ExTree ExBareNodes ExRenderData1 False) \<and>
   Unlock (ExTree ExBareNodes ExRenderData1 False) True = Inr (ExTree ExBarePrunedNodes ExRenderData1 True) \<and>
   Unlock (ExTree ExBareNodes ExRenderData1 False) False = Inr (ExTree ExBareNodes ExRenderData1 True) \<and>
   QueryTileBaseHeightAtLocation (ExTree ExBareNodes ExRenderData1 True) (Vec2 10 10) =
     Some (Inr (True, 0)) \<and>
   QueryTileBaseHeightAtLocation (ExTree ExBarePrunedNodes ExRenderData1 True) (Vec2 10 10) =
     Some (Inr (False, 0))"
proof -
  have b: "AddQuadMeshTilesInsideBounds Example1 (Box (Vec3 4 4 0) (Vec3 20 20 10)) 0 =
     Inr (ExTree ExBareNodes ExRenderData1 False)"
    by (simp add: example_defs insert_defs ExBareNodes_def)
  have p: "Unlock (ExTree ExBareNodes ExRenderData1 False) True =
             Inr (ExTree ExBarePrunedNodes ExRenderData1 True)"
    by (simp add: example_defs unlock_defs ExBareNodes_def ExBarePrunedNodes_def)
  have u: "Unlock (ExTree ExBareNodes ExRenderData1 False) False =
             Inr (ExTree ExBareNodes ExRenderData1 True)"
    by (simp add: example_defs unlock_defs ExBareNodes_def)
  have q1: "QueryTileBaseHeightAtLocation (ExTree ExBareNodes ExRenderData1 True) (Vec2 10 10) =
     Some (Inr (True, 0))"
    by (simp add: QueryTileBaseHeightAtLocation_def GetNodeCount_def QueryBaseHeightAtLocation.simps
          BaseHeightOf_def ContainsXY_def ExTree_def ExBareNodes_def ExNode_def ExRenderData1_def
          Box_def Vec2_def Vec3_def)
  have q2: "QueryTileBaseHeightAtLocation (ExTree ExBarePrunedNodes ExRenderData1 True) (Vec2 10 10) =
     Some (Inr (False, 0))"
    by (simp add: QueryTileBaseHeightAtLocation_def GetNodeCount_def QueryBaseHeightAtLocation.simps
          BaseHeightOf_def ContainsXY_def ExTree_def ExBarePrunedNodes_def ExNode_def ExRenderData1_def
          Box_def Vec2_def Vec3_def)
  show ?thesis using b p u q1 q2 by simp
qed

end
